theory Spec2Isabelle
  imports Complex_Main "HOL-Library.Word" "HOL-Library.Multiset"
begin

section \<open>Common definitions\<close>

text \<open>
  The pairing engine of \<^verbatim>\<open>betap.C\<close> is embedded function by function.  A failed
  \<^verbatim>\<open>ASSERT\<close> of the source aborts the program; here it is the error value
  \<open>AssertionFailed\<close>.  An access outside a container (undefined behaviour in C++) is
  \<open>OutOfRange\<close>, a loop that used up the fuel it was given is \<open>OutOfFuel\<close>, and a loop of
  the source that never ends is \<open>NonTermination\<close>.
\<close>

datatype error = AssertionFailed | OutOfRange | OutOfFuel | NonTermination

definition ASSERT :: "bool \<Rightarrow> error + unit" where
  "ASSERT b = (if b then Inr () else Inl AssertionFailed)"

definition ebind :: "error + 'a \<Rightarrow> ('a \<Rightarrow> error + 'b) \<Rightarrow> error + 'b" where
  "ebind m f = (case m of Inl e \<Rightarrow> Inl e | Inr v \<Rightarrow> f v)"

definition nth_chk :: "'a list \<Rightarrow> nat \<Rightarrow> error + 'a" where
  "nth_chk xs i = (if i < length xs then Inr (xs ! i) else Inl OutOfRange)"

subsection \<open>The C string functions the tables are read with\<close>

definition TAB :: char where
  "TAB = CHR 0x09"

definition isspace_c :: "char \<Rightarrow> bool" where
  "isspace_c c = (c = CHR '' '' \<or> (9 \<le> (of_char c :: nat) \<and> (of_char c :: nat) \<le> 13))"

definition isdigit_c :: "char \<Rightarrow> bool" where
  "isdigit_c c = (48 \<le> (of_char c :: nat) \<and> (of_char c :: nat) \<le> 57)"

fun digits_value :: "int \<Rightarrow> string \<Rightarrow> int" where
  "digits_value acc [] = acc"
| "digits_value acc (c # cs) =
     (if isdigit_c c then digits_value (acc * 10 + (int (of_char c) - 48)) cs else acc)"

text \<open>\<^verbatim>\<open>atoi\<close>: white space, an optional sign, then decimal digits up to the first other
  character.  The numbers of the tables and of the player keys are far below \<^verbatim>\<open>INT_MAX\<close>.\<close>

fun atoi :: "string \<Rightarrow> int" where
  "atoi [] = 0"
| "atoi (c # cs) =
     (if isspace_c c then atoi cs
      else if c = CHR ''-'' then - digits_value 0 cs
      else if c = CHR ''+'' then digits_value 0 cs
      else digits_value 0 (c # cs))"

fun find_char :: "char \<Rightarrow> string \<Rightarrow> nat option" where
  "find_char c [] = None"
| "find_char c (x # xs) = (if x = c then Some 0 else map_option Suc (find_char c xs))"

text \<open>\<^verbatim>\<open>s.find(c, pos)\<close>; \<open>None\<close> is \<^verbatim>\<open>string::npos\<close>.\<close>

definition str_find :: "string \<Rightarrow> char \<Rightarrow> nat \<Rightarrow> nat option" where
  "str_find s c pos = map_option (\<lambda>i. pos + i) (find_char c (drop pos s))"

text \<open>\<^verbatim>\<open>s.substr(pos)\<close> and \<^verbatim>\<open>s.c_str() + pos\<close>, both called with \<open>pos \<le> length s\<close> only.\<close>

definition substr :: "string \<Rightarrow> nat \<Rightarrow> string" where
  "substr s pos = drop pos s"

section \<open>Crenshaw-Berger tables for round robin\<close>

definition tabbed :: "string list \<Rightarrow> string" where
  "tabbed fields = concat (map (\<lambda>f. TAB # f) fields)"

text \<open>Every row is a tab, the size, a tab, the round, a tab and the pairings.\<close>

definition roundRobinPairings :: "string list" where
  "roundRobinPairings = map tabbed
   [ [''4'', ''1'', ''1-4 2-3'']
   , [''4'', ''2'', ''3-1 4-2'']
   , [''4'', ''3'', ''1-2 3-4'']
   , [''6'', ''1'', ''3-6 5-4 1-2'']
   , [''6'', ''2'', ''2-6 4-1 3-5'']
   , [''6'', ''3'', ''6-5 1-3 4-2'']
   , [''6'', ''4'', ''6-4 5-1 2-3'']
   , [''6'', ''5'', ''1-6 2-5 3-4'']
   , [''8'', ''1'', ''4-8 5-3 6-2 7-1'']
   , [''8'', ''2'', ''8-7 1-6 2-5 3-4'']
   , [''8'', ''3'', ''3-8 4-2 5-1 6-7'']
   , [''8'', ''4'', ''8-6 7-5 1-4 2-3'']
   , [''8'', ''5'', ''2-8 3-1 4-7 5-6'']
   , [''8'', ''6'', ''8-5 6-4 7-3 1-2'']
   , [''8'', ''7'', ''1-8 2-7 3-6 4-5'']
   , [''10'', ''1'', ''5-10 6-4 7-3 8-2 9-1'']
   , [''10'', ''2'', ''10-9 1-8 2-7 3-6 4-5'']
   , [''10'', ''3'', ''4-10 5-3 6-2 7-1 8-9'']
   , [''10'', ''4'', ''10-8 9-7 1-6 2-5 3-4'']
   , [''10'', ''5'', ''3-10 4-2 5-1 6-9 7-8'']
   , [''10'', ''6'', ''10-7 8-6 9-5 1-4 2-3'']
   , [''10'', ''7'', ''2-10 3-1 4-9 5-8 6-7'']
   , [''10'', ''8'', ''10-6 7-5 8-4 9-3 1-2'']
   , [''10'', ''9'', ''1-10 2-9 3-8 4-7 5-6'']
   ]"

text \<open>Every row is a tab, the size, a tab, the round, a tab, the withdrawn player,
  a tab and the reversals.\<close>

definition roundRobinReversals :: "string list" where
  "roundRobinReversals = map tabbed
   [ [''4'', ''3'', ''1'', '''']
   , [''4'', ''3'', ''2'', ''4-3'']
   , [''4'', ''3'', ''3'', ''2-1'']
   , [''4'', ''3'', ''4'', '''']
   , [''6'', ''5'', ''1'', ''5-2 4-3'']
   , [''6'', ''5'', ''2'', ''4-3'']
   , [''6'', ''5'', ''3'', '''']
   , [''6'', ''5'', ''4'', ''6-1 5-2'']
   , [''6'', ''5'', ''5'', ''6-1'']
   , [''6'', ''5'', ''6'', '''']
   , [''8'', ''5'', ''1'', ''7-2 5-4'']
   , [''8'', ''5'', ''2'', ''6-3'']
   , [''8'', ''5'', ''3'', ''5-4 7-2 2-1'']
   , [''8'', ''5'', ''4'', ''6-3 3-7 7-2'']
   , [''8'', ''5'', ''5'', ''8-1 7-4 4-6 6-3'']
   , [''8'', ''5'', ''6'', ''8-2 5-4'']
   , [''8'', ''5'', ''7'', ''8-1 6-3'']
   , [''8'', ''5'', ''8'', '''']
   , [''10'', ''7'', ''1'', ''9-2 7-4'']
   , [''10'', ''7'', ''2'', ''8-3 6-5'']
   , [''10'', ''7'', ''3'', ''7-4 9-2 2-1'']
   , [''10'', ''7'', ''4'', ''6-5 8-3 3-9 9-2'']
   , [''10'', ''7'', ''5'', ''9-2 7-4 2-1 4-8 8-3'']
   , [''10'', ''7'', ''6'', ''10-2 8-5 5-7 7-4'']
   , [''10'', ''7'', ''7'', ''10-1 6-5 9-4 4-8 8-3'']
   , [''10'', ''7'', ''8'', ''10-2 7-4'']
   , [''10'', ''7'', ''9'', ''10-1 8-3 6-5'']
   , [''10'', ''7'', ''10'', '''']
   ]"

text \<open>The state of the first loop of \<^verbatim>\<open>CrenshawBergerLookup\<close>: the opponent found,
  the board and the colour.\<close>

record lookup_state =
  lk_opponent :: nat
  lk_board :: int
  lk_color :: char

text \<open>The inner loop \<^verbatim>\<open>for (size_t y = 1; ; ++y)\<close> over the pairings of one row.\<close>

function pairings_loop :: "nat \<Rightarrow> nat \<Rightarrow> string \<Rightarrow> lookup_state \<Rightarrow> error + lookup_state" where
  "pairings_loop player y pairings st =
     (let p1 = nat (atoi pairings) in
      case str_find pairings (CHR ''-'') 0 of
        None \<Rightarrow> Inl AssertionFailed
      | Some dash \<Rightarrow>
         (let p2 = nat (atoi (substr pairings (dash + 1))) in
          ebind (if p1 = player
                then ebind (ASSERT (lk_opponent st = 0 \<and> lk_color st = CHR ''*''))
                       (\<lambda>_. Inr (st\<lparr>lk_opponent := p2, lk_board := int y, lk_color := CHR ''W''\<rparr>))
                else Inr st) (\<lambda>st1.
          ebind (if p2 = player
                then ebind (ASSERT (lk_opponent st1 = 0 \<and> lk_color st1 = CHR ''*''))
                       (\<lambda>_. Inr (st1\<lparr>lk_opponent := p1, lk_board := int y, lk_color := CHR ''B''\<rparr>))
                else Inr st1) (\<lambda>st2.
          case str_find pairings (CHR '' '') (dash + 1) of
            None \<Rightarrow> Inr st2
          | Some space \<Rightarrow> pairings_loop player (y + 1) (substr pairings (space + 1)) st2))))"
  by pat_completeness auto
termination
proof (relation "measure (\<lambda>(player, y, pairings, st). length pairings)")
  show "wf (measure (\<lambda>(player, y, pairings, st). length pairings))"
    by simp
next
  fix player y :: nat and pairings :: string and st :: lookup_state
    and p1 dash p2 :: nat and st1 st2 :: lookup_state and space :: nat
  assume sp: "str_find pairings (CHR '' '') (dash + 1) = Some space"
  have bound: "find_char c xs = Some i \<Longrightarrow> i < length xs" for c xs i
    by (induction xs arbitrary: i) (auto split: if_splits)
  from sp obtain i where "find_char (CHR '' '') (drop (dash + 1) pairings) = Some i"
    and "space = dash + 1 + i"
    by (auto simp: str_find_def)
  with bound [of "CHR '' ''" "drop (dash + 1) pairings" i] have "space < length pairings"
    by simp
  then show "((player, y + 1, substr pairings (space + 1), st2), (player, y, pairings, st))
      \<in> measure (\<lambda>(player, y, pairings, st). length pairings)"
    by (simp add: substr_def)
qed

text \<open>The three tab-separated numbers in front of a row; the third one is read by the
  second table only.\<close>

definition row_field :: "string \<Rightarrow> nat \<Rightarrow> error + (nat \<times> nat)" where
  "row_field row pos =
     (case str_find row TAB pos of
        None \<Rightarrow> Inl AssertionFailed
      | Some tab \<Rightarrow> Inr (tab, nat (atoi (substr row (tab + 1)))))"

fun pairings_rows :: "nat \<Rightarrow> nat \<Rightarrow> nat \<Rightarrow> string list \<Rightarrow> lookup_state \<Rightarrow> error + lookup_state" where
  "pairings_rows competitors rnd player [] st = Inr st"
| "pairings_rows competitors rnd player (row # rows) st =
     ebind (row_field row 0) (\<lambda>(tab1, size).
       if size \<noteq> competitors then pairings_rows competitors rnd player rows st
       else ebind (row_field row (tab1 + 1)) (\<lambda>(tab2, r).
         if r \<noteq> rnd then pairings_rows competitors rnd player rows st
         else (case str_find row TAB (tab2 + 1) of
                 None \<Rightarrow> Inl AssertionFailed
               | Some tab3 \<Rightarrow>
                   ebind (pairings_loop player 1 (substr row (tab3 + 1)) st)
                     (pairings_rows competitors rnd player rows))))"

text \<open>The state of the second loop: the colour and \<^verbatim>\<open>isReversed\<close>.\<close>

function reversals_loop ::
  "bool \<Rightarrow> nat \<Rightarrow> nat \<Rightarrow> nat \<Rightarrow> nat \<Rightarrow> nat \<Rightarrow> nat \<Rightarrow> string \<Rightarrow> char \<times> bool \<Rightarrow> error + (char \<times> bool)"
where
  "reversals_loop isBye competitors withdrawnPlayer roundNo rnd player opp reversals st =
     (let p1 = nat (atoi reversals) in
      case str_find reversals (CHR ''-'') 0 of
        None \<Rightarrow> Inl AssertionFailed
      | Some dash \<Rightarrow>
         (let p2 = nat (atoi (substr reversals (dash + 1))) in
          ebind (if p1 = player \<and> p2 = opp
                then ebind (ASSERT (\<not> isBye \<and> withdrawnPlayer \<noteq> competitors)) (\<lambda>_.
                     ebind (ASSERT (roundNo \<ge> rnd)) (\<lambda>_.
                     ebind (ASSERT (\<not> snd st)) (\<lambda>_. Inr (CHR ''W'', True))))
                else Inr st) (\<lambda>st1.
          ebind (if p2 = player \<and> p1 = opp
                then ebind (ASSERT (\<not> isBye \<and> withdrawnPlayer \<noteq> competitors)) (\<lambda>_.
                     ebind (ASSERT (roundNo \<ge> rnd)) (\<lambda>_.
                     ebind (ASSERT (\<not> snd st1)) (\<lambda>_. Inr (CHR ''B'', True))))
                else Inr st1) (\<lambda>st2.
          case str_find reversals (CHR '' '') (dash + 1) of
            None \<Rightarrow> Inr st2
          | Some space \<Rightarrow>
              reversals_loop isBye competitors withdrawnPlayer roundNo rnd player opp
                (substr reversals (space + 1)) st2))))"
  by pat_completeness auto
termination
proof (relation "measure (\<lambda>(isBye, competitors, withdrawnPlayer, roundNo, rnd, player, opp,
                             reversals, st). length reversals)")
  show "wf (measure (\<lambda>(isBye, competitors, withdrawnPlayer, roundNo, rnd, player, opp,
                             reversals, st). length reversals))"
    by simp
next
  fix isBye :: bool and competitors withdrawnPlayer roundNo rnd player opp :: nat
    and reversals :: string and st st1 st2 :: "char \<times> bool" and p1 dash p2 space :: nat
  assume sp: "str_find reversals (CHR '' '') (dash + 1) = Some space"
  have bound: "find_char c xs = Some i \<Longrightarrow> i < length xs" for c xs i
    by (induction xs arbitrary: i) (auto split: if_splits)
  from sp obtain i where "find_char (CHR '' '') (drop (dash + 1) reversals) = Some i"
    and "space = dash + 1 + i"
    by (auto simp: str_find_def)
  with bound [of "CHR '' ''" "drop (dash + 1) reversals" i] have "space < length reversals"
    by simp
  then show "((isBye, competitors, withdrawnPlayer, roundNo, rnd, player, opp,
               substr reversals (space + 1), st2),
              (isBye, competitors, withdrawnPlayer, roundNo, rnd, player, opp, reversals, st))
      \<in> measure (\<lambda>(isBye, competitors, withdrawnPlayer, roundNo, rnd, player, opp,
                     reversals, st). length reversals)"
    by (simp add: substr_def)
qed

fun reversals_rows ::
  "bool \<Rightarrow> nat \<Rightarrow> nat \<Rightarrow> nat \<Rightarrow> nat \<Rightarrow> nat \<Rightarrow> string list \<Rightarrow> char \<times> bool \<Rightarrow> error + (char \<times> bool)"
where
  "reversals_rows isBye competitors withdrawnPlayer roundNo player opp [] st = Inr st"
| "reversals_rows isBye competitors withdrawnPlayer roundNo player opp (row # rows) st =
     ebind (row_field row 0) (\<lambda>(tab1, size).
       if size \<noteq> competitors
       then reversals_rows isBye competitors withdrawnPlayer roundNo player opp rows st
       else ebind (row_field row (tab1 + 1)) (\<lambda>(tab2, rnd).
            ebind (row_field row (tab2 + 1)) (\<lambda>(tab3, withdraw).
              if withdraw \<noteq> withdrawnPlayer
              then reversals_rows isBye competitors withdrawnPlayer roundNo player opp rows st
              else (case str_find row TAB (tab3 + 1) of
                      None \<Rightarrow> Inl AssertionFailed
                    | Some tab4 \<Rightarrow>
                       (let reversals = substr row (tab4 + 1) in
                        if length reversals > 0
                        then ebind (reversals_loop isBye competitors withdrawnPlayer roundNo rnd
                                     player opp reversals st)
                               (reversals_rows isBye competitors withdrawnPlayer roundNo player opp rows)
                        else reversals_rows isBye competitors withdrawnPlayer roundNo player opp rows st)))))"

text \<open>\<^verbatim>\<open>CrenshawBergerLookup\<close>: the board and the colour of \<open>player\<close> (1 to N) in
  round \<open>roundNo\<close>, for \<open>competitors\<close> players of which \<open>withdrawnPlayer\<close> (0 for none) withdrew.\<close>

definition CrenshawBergerLookup :: "nat \<Rightarrow> nat \<Rightarrow> nat \<Rightarrow> nat \<Rightarrow> error + (int \<times> char)" where
  "CrenshawBergerLookup competitors0 roundNo player withdrawnPlayer0 =
     ebind (if competitors0 mod 2 = 1
           then ebind (ASSERT (withdrawnPlayer0 = 0)) (\<lambda>_. Inr (True, competitors0 + 1))
           else Inr (False, competitors0)) (\<lambda>(isBye, competitors).
     let withdrawnPlayer = (if withdrawnPlayer0 = 0 then competitors else withdrawnPlayer0) in
     ebind (pairings_rows competitors roundNo player roundRobinPairings
             \<lparr>lk_opponent = 0, lk_board = 0, lk_color = CHR ''*''\<rparr>) (\<lambda>st.
     ebind (ASSERT (1 \<le> lk_opponent st \<and> lk_opponent st \<noteq> player \<and> lk_opponent st \<le> competitors)) (\<lambda>_.
     ebind (ASSERT (1 \<le> lk_board st \<and> lk_board st \<le> int (competitors div 2))) (\<lambda>_.
     ebind (ASSERT (lk_color st = CHR ''W'' \<or> lk_color st = CHR ''B'')) (\<lambda>_.
     ebind (reversals_rows isBye competitors withdrawnPlayer roundNo player (lk_opponent st)
             roundRobinReversals (lk_color st, False)) (\<lambda>(c, isReversed).
     Inr (lk_board st, c)))))))"

section \<open>The cost record\<close>

text \<open>\<^verbatim>\<open>CostValue\<close> is \<^verbatim>\<open>int64_t\<close>.  The record has the 26 counters in the order of the
  source and, after them, the field \<^verbatim>\<open>players\<close> (a \<^verbatim>\<open>size_t\<close>, 64 bits as well),
  which the source declares "for debugging/printing".\<close>

type_synonym CostValue = "64 word"

record Cost =
  byeChoice :: CostValue
  byeAgain :: CostValue
  playersMeetTwice :: CostValue
  cantPairPlayers :: CostValue
  teamBlocks2 :: CostValue
  unequalScores :: CostValue
  teamBlocks :: CostValue
  cantPairTeams :: CostValue
  byeAfterHalf :: CostValue
  lowestScoreBye :: CostValue
  lowestRatedBye :: CostValue
  oddPlayerUnrated :: CostValue
  oddPlayerMultipleGroups :: CostValue
  interchange200 :: CostValue
  transpose200 :: CostValue
  colorImbalance :: CostValue
  colorRepeat3 :: CostValue
  interchange80 :: CostValue
  transpose80 :: CostValue
  colorAlternate :: CostValue
  interchange0 :: CostValue
  transpose0 :: CostValue
  pairingCard :: CostValue
  reversedColors :: CostValue
  boardOverlap :: CostValue
  boardOrder :: CostValue
  players :: "64 word"

text \<open>The constructor \<^verbatim>\<open>Cost(void)\<close>: \<^verbatim>\<open>memset\<close> to zero.\<close>

definition Cost_init :: Cost where
  "Cost_init = \<lparr> byeChoice = 0, byeAgain = 0, playersMeetTwice = 0, cantPairPlayers = 0,
     teamBlocks2 = 0, unequalScores = 0, teamBlocks = 0, cantPairTeams = 0, byeAfterHalf = 0,
     lowestScoreBye = 0, lowestRatedBye = 0, oddPlayerUnrated = 0, oddPlayerMultipleGroups = 0,
     interchange200 = 0, transpose200 = 0, colorImbalance = 0, colorRepeat3 = 0,
     interchange80 = 0, transpose80 = 0, colorAlternate = 0, interchange0 = 0, transpose0 = 0,
     pairingCard = 0, reversedColors = 0, boardOverlap = 0, boardOrder = 0, players = 0 \<rparr>"

text \<open>The 26 counters, in the declared order.\<close>

definition cost_counters :: "Cost \<Rightarrow> CostValue list" where
  "cost_counters c = [byeChoice c, byeAgain c, playersMeetTwice c, cantPairPlayers c,
     teamBlocks2 c, unequalScores c, teamBlocks c, cantPairTeams c, byeAfterHalf c,
     lowestScoreBye c, lowestRatedBye c, oddPlayerUnrated c, oddPlayerMultipleGroups c,
     interchange200 c, transpose200 c, colorImbalance c, colorRepeat3 c,
     interchange80 c, transpose80 c, colorAlternate c, interchange0 c, transpose0 c,
     pairingCard c, reversedColors c, boardOverlap c, boardOrder c]"

text \<open>What \<^verbatim>\<open>(&c.COST_BEGIN)[x]\<close> reads for \<^verbatim>\<open>x < sizeof(c)/sizeof(c.COST_BEGIN)\<close>:
  the structure is 27 words of 8 bytes, so the index runs over the 26 counters and then
  over \<^verbatim>\<open>players\<close>, read as a \<^verbatim>\<open>CostValue\<close>.\<close>

definition cost_words :: "Cost \<Rightarrow> CostValue list" where
  "cost_words c = cost_counters c @ [players c]"

text \<open>The loop of \<^verbatim>\<open>operator<\<close> over these words, with the signed comparison of
  \<^verbatim>\<open>int64_t\<close>.\<close>

fun words_less :: "CostValue list \<Rightarrow> CostValue list \<Rightarrow> bool" where
  "words_less (a # as) (b # bs) =
     (if a <s b then True else if b <s a then False else words_less as bs)"
| "words_less _ _ = False"

definition Cost_less :: "Cost \<Rightarrow> Cost \<Rightarrow> bool" where
  "Cost_less c1 c2 = words_less (cost_words c1) (cost_words c2)"

text \<open>\<^verbatim>\<open>operator!=\<close> on costs is \<^verbatim>\<open>x < y || y < x\<close>.\<close>

definition Cost_neq :: "Cost \<Rightarrow> Cost \<Rightarrow> bool" where
  "Cost_neq x y = (Cost_less x y \<or> Cost_less y x)"

text \<open>\<^verbatim>\<open>IsZero\<close> compares with a zero record that has the same \<^verbatim>\<open>players\<close>.\<close>

definition IsZero :: "Cost \<Rightarrow> bool" where
  "IsZero c = (cost_words c = cost_words (Cost_init\<lparr>players := players c\<rparr>))"

text \<open>The order the specification describes: lexicographic over the 26 counters, decided
  at the first counter where the two records differ.\<close>

definition lex_less_spec :: "CostValue list \<Rightarrow> CostValue list \<Rightarrow> bool" where
  "lex_less_spec xs ys =
     (\<exists>k < min (length xs) (length ys). take k xs = take k ys \<and> xs ! k <s ys ! k)"

section \<open>The weight of a repeated violation\<close>

text \<open>\<^verbatim>\<open>MaxCostValue\<close> is \<^verbatim>\<open>LLONG_MAX\<close>.\<close>

definition MaxCostValue :: int where
  "MaxCostValue = 2 ^ 63 - 1"

text \<open>\<^verbatim>\<open>Multiple\<close> computes in \<^verbatim>\<open>double\<close>: \<^verbatim>\<open>result += pow(players, x)\<close> converts \<^verbatim>\<open>result\<close> to
  \<^verbatim>\<open>double\<close>, adds the power and converts the sum back.  A \<^verbatim>\<open>double\<close> has a significand of
  53 bits, and every operation returns the value it would have in exact arithmetic,
  rounded to the nearest \<^verbatim>\<open>double\<close>, to the one with an even significand when two are
  equally near.  All the values here are integers; \<open>round_double\<close> is this rounding of
  an integer.\<close>

function bit_length :: "int \<Rightarrow> nat" where
  "bit_length n = (if n \<le> 0 then 0 else Suc (bit_length (n div 2)))"
  by pat_completeness auto
termination
  by (relation "measure nat") auto

definition round_double :: "int \<Rightarrow> int" where
  "round_double n =
     (let a = \<bar>n\<bar>; b = bit_length a in
      if b \<le> 53 then n
      else let k = b - 53; q = a div 2 ^ k; r = a mod 2 ^ k;
               up = (r > 2 ^ (k - 1) \<or> (r = 2 ^ (k - 1) \<and> odd q))
           in sgn n * ((if up then q + 1 else q) * 2 ^ k))"

text \<open>The conversion of a \<^verbatim>\<open>double\<close> to \<^verbatim>\<open>CostValue\<close>, which is \<^verbatim>\<open>int64_t\<close>; the behaviour is
  undefined when the value is out of range.\<close>

definition to_int64 :: "int \<Rightarrow> error + int" where
  "to_int64 d = (if - (2 ^ 63) \<le> d \<and> d < 2 ^ 63 then Inr d else Inl OutOfRange)"

text \<open>The loop of \<^verbatim>\<open>Multiple\<close> with \<open>m\<close> rounds to go.  The first statement of the function
  only prints.\<close>

fun multiple_loop :: "nat \<Rightarrow> nat \<Rightarrow> nat \<Rightarrow> int \<Rightarrow> error + int" where
  "multiple_loop 0 x nplayers res = Inr res"
| "multiple_loop (Suc m) x nplayers res =
     ebind (to_int64 (round_double (round_double res
                                     + round_double (round_double (int nplayers) ^ x)))) (\<lambda>r.
       multiple_loop m (x + 1) nplayers (if r < res then MaxCostValue else r))"

definition Multiple :: "int \<Rightarrow> nat \<Rightarrow> error + int" where
  "Multiple cv nplayers = multiple_loop (nat cv) 0 nplayers 0"

text \<open>The weight as the specification has it: the sum of the powers \<open>N\<^sup>k\<close> for \<open>k\<close> below
  \<open>c\<close>.\<close>

definition geometric_sum :: "nat \<Rightarrow> nat \<Rightarrow> int" where
  "geometric_sum c N = sum_list (map (\<lambda>k. int N ^ k) [0 ..< c])"

section \<open>Players\<close>

text \<open>The structure \<^verbatim>\<open>Player\<close>, without the fields that the source marks as ignored and used
  for debugging output only (tournament and section number, USCF number, names, game
  result).  The integer fields hold values far inside their C++ types and, the
  board number apart, are never computed, so they are integers here; the board number that
  \<^verbatim>\<open>FindPairings\<close> computes is wrapped to 32 bits where it is computed.  \<^verbatim>\<open>score\<close> (a \<^verbatim>\<open>float\<close>) and \<^verbatim>\<open>rand\<close>
  (a \<^verbatim>\<open>double\<close>) are only compared in what follows; they are rationals.\<close>

record Player =
  trn_type :: char
  rnd :: int
  board_num :: int
  board_color :: char
  play_id :: int
  reentry :: int
  team_id :: int
  teammates :: "int list"
  opponents :: "string list"
  score :: rat
  rating :: int
  is_unrated :: bool
  use_rating :: string
  provisional :: int
  rand :: rat
  bye_house :: bool
  bye_request :: bool
  unplayed_count :: int
  half_bye_count :: int
  bye_rounds :: "int list"
  due_color :: string
  color_history :: string
  played_colors :: string
  first_color :: char
  multiround :: int
  paired :: bool
  warn_codes :: string
  rank :: int
  teammate_ranks :: "int list"
  opponent_ranks :: "int list"

definition BYE_ID :: int where
  "BYE_ID = 0"

type_synonym PlayerVector = "Player list"
type_synonym IndexVector = "nat list"

text \<open>\<^verbatim>\<open>operator<\<close> on players, the sort predicate.  Its first statement is
  \<^verbatim>\<open>ASSERT(x.rand != y.rand)\<close>.\<close>

definition Player_lt :: "Player \<Rightarrow> Player \<Rightarrow> bool" where
  "Player_lt x y =
     ((play_id x = BYE_ID) < (play_id y = BYE_ID) \<or> ((play_id x = BYE_ID) = (play_id y = BYE_ID)
      \<and> (bye_request x < bye_request y \<or> (bye_request x = bye_request y
      \<and> (paired x < paired y \<or> (paired x = paired y
      \<and> (score x > score y \<or> (score x = score y
      \<and> (rating x > rating y \<or> (rating x = rating y
      \<and> (rand x < rand y \<or> (rand x = rand y
      \<and> (play_id x < play_id y \<or> (play_id x = play_id y
      \<and> reentry x < reentry y))))))))))))))"

definition Player_less :: "Player \<Rightarrow> Player \<Rightarrow> error + bool" where
  "Player_less x y = ebind (ASSERT (rand x \<noteq> rand y)) (\<lambda>_. Inr (Player_lt x y))"

text \<open>\<^verbatim>\<open>operator<=\<close> is \<^verbatim>\<open>!(y < x)\<close>.\<close>

definition Player_le :: "Player \<Rightarrow> Player \<Rightarrow> error + bool" where
  "Player_le x y = ebind (Player_less y x) (\<lambda>b. Inr (\<not> b))"

section \<open>Colours\<close>

definition toupper_c :: "char \<Rightarrow> char" where
  "toupper_c c = (if 97 \<le> (of_char c :: nat) \<and> (of_char c :: nat) \<le> 122
                  then char_of ((of_char c :: nat) - 32) else c)"

definition tolower_c :: "char \<Rightarrow> char" where
  "tolower_c c = (if 65 \<le> (of_char c :: nat) \<and> (of_char c :: nat) \<le> 90
                  then char_of ((of_char c :: nat) + 32) else c)"

definition isupper_c :: "char \<Rightarrow> bool" where
  "isupper_c c = (65 \<le> (of_char c :: nat) \<and> (of_char c :: nat) \<le> 90)"

definition islower_c :: "char \<Rightarrow> bool" where
  "islower_c c = (97 \<le> (of_char c :: nat) \<and> (of_char c :: nat) \<le> 122)"

definition SameColor :: "char \<Rightarrow> char" where
  "SameColor c = (if toupper_c c = CHR ''W'' then CHR ''W''
                  else if toupper_c c = CHR ''B'' then CHR ''B'' else CHR ''x'')"

definition FlipColor :: "char \<Rightarrow> char" where
  "FlipColor c = (if toupper_c c = CHR ''W'' then CHR ''B''
                  else if toupper_c c = CHR ''B'' then CHR ''W'' else CHR ''x'')"

text \<open>\<^verbatim>\<open>s[0]\<close> of a \<^verbatim>\<open>std::string\<close>: the terminating zero when the string is empty.\<close>

definition str0 :: "string \<Rightarrow> char" where
  "str0 s = (case s of [] \<Rightarrow> CHR 0x00 | c # _ \<Rightarrow> c)"

text \<open>The characters at the positions 0, m, 2m, ... of the history
  (\<^verbatim>\<open>for (x = 0; x < history.size(); x += multiround)\<close>, with \<open>m > 0\<close>).\<close>

fun every_nth :: "nat \<Rightarrow> string \<Rightarrow> string" where
  "every_nth m [] = []"
| "every_nth m (c # cs) = c # every_nth m (drop (m - 1) cs)"

text \<open>The last loop of \<^verbatim>\<open>DueColor\<close>, from the most recent round back.\<close>

fun last_played_flip :: "string \<Rightarrow> string" where
  "last_played_flip [] = ''x''"
| "last_played_flip (c # cs) =
     (if c = CHR ''W'' \<or> c = CHR ''B'' then [tolower_c (FlipColor c)] else last_played_flip cs)"

definition DueColor :: "string \<Rightarrow> int \<Rightarrow> error + string" where
  "DueColor history0 mround =
     ebind (if mround \<noteq> 1 \<and> length history0 > 0
            then ebind (ASSERT (mround > 0 \<and> int (length history0) mod mround = 0))
                   (\<lambda>_. Inr (every_nth (nat mround) history0))
            else Inr history0) (\<lambda>history.
     let unplayed = length (filter islower_c history) in
     if unplayed = length history then Inr ''x''
     else
       let whites = count_list history (CHR ''W'');
           blacks = count_list history (CHR ''B'') in
       ebind (ASSERT (whites + blacks + unplayed = length history)) (\<lambda>_.
       if whites > blacks then Inr (replicate (whites - blacks) (CHR ''B''))
       else if blacks > whites then Inr (replicate (blacks - whites) (CHR ''W''))
       else Inr (last_played_flip (rev history))))"

text \<open>The key \<^verbatim>\<open>S(y.play_id)+"_"+S(y.reentry)\<close> under which a player is entered in the
  opponents of another.\<close>

fun digits_of :: "nat \<Rightarrow> nat \<Rightarrow> string" where
  "digits_of 0 n = []"
| "digits_of (Suc fuel) n =
     (if n < 10 then [char_of (48 + n)]
      else digits_of fuel (n div 10) @ [char_of (48 + n mod 10)])"

definition S_int :: "int \<Rightarrow> string" where
  "S_int i = (if i < 0 then CHR ''-'' # digits_of (Suc (nat (- i))) (nat (- i))
              else digits_of (Suc (nat i)) (nat i))"

definition player_key :: "Player \<Rightarrow> string" where
  "player_key y = S_int (play_id y) @ ''_'' @ S_int (reentry y)"

text \<open>\<^verbatim>\<open>s[z]\<close> of a constant \<^verbatim>\<open>std::string\<close>: the character at \<open>z\<close>, the terminating
  zero when \<open>z\<close> is the size of the string, and undefined beyond.\<close>

definition str_at :: "string \<Rightarrow> nat \<Rightarrow> error + char" where
  "str_at s z = (if z < length s then Inr (s ! z)
                 else if z = length s then Inr (CHR 0x00) else Inl OutOfRange)"

text \<open>The counting loop of \<^verbatim>\<open>AllocateColor\<close> over the earlier games against \<open>y\<close>
  (rule 30F), from the index \<open>z\<close> on; \<^verbatim>\<open>x.played_colors[z]\<close> is read for every \<open>z\<close> below
  \<^verbatim>\<open>x.opponents.size()\<close> with the key of \<open>y\<close>.\<close>

fun match_counts ::
  "string \<Rightarrow> string list \<Rightarrow> string \<Rightarrow> nat \<Rightarrow> nat \<times> nat \<Rightarrow> error + (nat \<times> nat)" where
  "match_counts key [] colors z wb = Inr wb"
| "match_counts key (opp # opps) colors z (w, b) =
     (if opp = key
      then ebind (str_at colors z) (\<lambda>c.
             match_counts key opps colors (z + 1)
               (if toupper_c c = CHR ''W'' then (w + 1, b)
                else if toupper_c c = CHR ''B'' then (w, b + 1) else (w, b)))
      else match_counts key opps colors (z + 1) (w, b))"

text \<open>The loop of rule 29E4.4 over both colour histories, from the most recent round back.\<close>

fun history_tiebreak :: "string \<Rightarrow> string \<Rightarrow> char option" where
  "history_tiebreak (cx # xs) (cy # ys) =
     (if SameColor cx \<noteq> SameColor cy
      then Some (if SameColor cx = CHR ''x'' then SameColor cy else FlipColor cx)
      else history_tiebreak xs ys)"
| "history_tiebreak _ _ = None"

text \<open>\<^verbatim>\<open>AllocateColor\<close>: the colour of \<open>x\<close> on a board against \<open>y\<close>.\<close>

definition AllocateColor :: "Player \<Rightarrow> Player \<Rightarrow> bool \<Rightarrow> error + char" where
  "AllocateColor x y isOddBoard =
     (if play_id y = BYE_ID then Inr (CHR ''W'')
      else if play_id x = BYE_ID then Inr (CHR ''B'')
      else ebind (Player_less x y) (\<lambda>isUpper.
        if due_color x = ''x'' \<and> due_color y = ''x''
        then Inr ((if (if isUpper then isOddBoard else \<not> isOddBoard) then SameColor else FlipColor)
                    (first_color x))
        else ebind (match_counts (player_key y) (opponents x) (played_colors x) 0 (0, 0))
          (\<lambda>(matchCountWhite, matchCountBlack).
            if matchCountWhite < matchCountBlack then Inr (CHR ''W'')
            else if matchCountBlack < matchCountWhite then Inr (CHR ''B'')
            else if due_color y = ''x'' then Inr (SameColor (str0 (due_color x)))
            else if due_color x = ''x'' then Inr (FlipColor (str0 (due_color y)))
            else if SameColor (str0 (due_color y)) \<noteq> SameColor (str0 (due_color x))
              then Inr (SameColor (str0 (due_color x)))
            else if isupper_c (str0 (due_color x))
                    \<and> (\<not> isupper_c (str0 (due_color y))
                        \<or> length (due_color x) > length (due_color y))
              then Inr (SameColor (str0 (due_color x)))
            else if isupper_c (str0 (due_color y))
                    \<and> (\<not> isupper_c (str0 (due_color x))
                        \<or> length (due_color y) > length (due_color x))
              then Inr (FlipColor (str0 (due_color y)))
            else ebind (ASSERT (length (color_history x) = length (color_history y))) (\<lambda>_.
              case history_tiebreak (rev (color_history x)) (rev (color_history y)) of
                Some c \<Rightarrow> Inr c
              | None \<Rightarrow> Inr (if rank x < rank y then SameColor (str0 (due_color x))
                             else FlipColor (str0 (due_color y)))))))"

section \<open>The pairable lookahead\<close>

fun efold :: "('a \<Rightarrow> 'b \<Rightarrow> error + 'b) \<Rightarrow> 'a list \<Rightarrow> 'b \<Rightarrow> error + 'b" where
  "efold f [] s = Inr s"
| "efold f (x # xs) s = ebind (f x s) (efold f xs)"

text \<open>The conversion of a signed integer to \<^verbatim>\<open>size_t\<close>.\<close>

definition to_size_t :: "int \<Rightarrow> nat" where
  "to_size_t i = nat (i mod 2 ^ 64)"

text \<open>\<^verbatim>\<open>CostDescription\<close> adds the warning letter to the codes of a player, unless the
  letter is 0.  The table of descriptions it also fills, a global that only the report
  reads, is left out.\<close>

definition CostDescription :: "string \<Rightarrow> char \<Rightarrow> error + string" where
  "CostDescription codes wCode =
     (if wCode \<noteq> CHR 0x00
      then let wCodeN = (if (of_char wCode :: nat) \<le> 90 then int (of_char wCode) - 65
                         else 26 + int (of_char wCode) - 97) in
           ebind (ASSERT (0 \<le> wCodeN \<and> wCodeN < 52)) (\<lambda>_.
             Inr (if find_char wCode codes = None then codes @ [wCode] else codes))
      else Inr codes)"

type_synonym GridElem = "int list"
type_synonym PairGrid = "int list list"
type_synonym ByeGrid = "int list list"

definition grid_get :: "int list list \<Rightarrow> nat \<Rightarrow> nat \<Rightarrow> error + int" where
  "grid_get g r c = ebind (nth_chk g r) (\<lambda>row. nth_chk row c)"

definition grid_set :: "int list list \<Rightarrow> nat \<Rightarrow> nat \<Rightarrow> int \<Rightarrow> error + int list list" where
  "grid_set g r c v =
     (if r < length g \<and> c < length (g ! r) then Inr (g[r := (g ! r)[c := v]])
      else Inl OutOfRange)"

text \<open>\<^verbatim>\<open>bye[row][rounds-1]\<close>.\<close>

definition bye_at :: "ByeGrid \<Rightarrow> nat \<Rightarrow> nat \<Rightarrow> error + int" where
  "bye_at bye r rounds = (if rounds = 0 then Inl OutOfRange else grid_get bye r (rounds - 1))"

text \<open>The loop \<^verbatim>\<open>for (int z = 0; z < row; ++z)\<close> that leaves for \<^verbatim>\<open>nextCol\<close>.\<close>

fun blocked_above :: "PairGrid \<Rightarrow> nat \<Rightarrow> nat \<Rightarrow> nat list \<Rightarrow> error + bool" where
  "blocked_above grid row col [] = Inr False"
| "blocked_above grid row col (z # zs) =
     ebind (grid_get grid z col) (\<lambda>a.
       if a \<noteq> 0 then Inr True
       else ebind (grid_get grid z row) (\<lambda>b.
         if b \<noteq> 0 then Inr True else blocked_above grid row col zs))"

text \<open>The grid of the next round: this round's pairings go to the lower triangle, the
  upper triangle is cleared.\<close>

definition next_round_step :: "PairGrid \<Rightarrow> int \<Rightarrow> nat \<times> nat \<Rightarrow> PairGrid \<Rightarrow> error + PairGrid" where
  "next_round_step grid rounds xy newGrid =
     (case xy of (x, y) \<Rightarrow>
        ebind (grid_get grid x y) (\<lambda>v.
        ebind (if v \<noteq> 0 then grid_set newGrid y x rounds else Inr newGrid) (\<lambda>g.
        grid_set g x y 0)))"

definition next_round_grid :: "PairGrid \<Rightarrow> int \<Rightarrow> error + PairGrid" where
  "next_round_grid grid rounds =
     efold (next_round_step grid rounds)
       (concat (map (\<lambda>x. map (\<lambda>y. (x, y)) [x + 1 ..< length grid]) [0 ..< length grid - 1]))
       grid"

text \<open>The two overloads of \<^verbatim>\<open>Pairable\<close> and the two loops over rows and columns of the
  second one, with the grid passed by reference returned next to the result.  Every call
  takes one unit of fuel.\<close>

function Pairable :: "nat \<Rightarrow> PairGrid \<Rightarrow> nat \<Rightarrow> ByeGrid \<Rightarrow> error + (bool \<times> PairGrid)"
  and Pairable_range :: "nat \<Rightarrow> PairGrid \<Rightarrow> nat \<Rightarrow> ByeGrid \<Rightarrow> nat \<Rightarrow> nat \<Rightarrow> error + (bool \<times> PairGrid)"
  and Pairable_rows :: "nat \<Rightarrow> PairGrid \<Rightarrow> nat \<Rightarrow> ByeGrid \<Rightarrow> nat \<Rightarrow> nat \<Rightarrow> error + (bool \<times> PairGrid)"
  and Pairable_cols :: "nat \<Rightarrow> PairGrid \<Rightarrow> nat \<Rightarrow> ByeGrid \<Rightarrow> nat \<Rightarrow> nat \<Rightarrow> nat \<Rightarrow> error + (bool \<times> PairGrid)"
where
  "Pairable 0 grid rounds bye = Inl OutOfFuel"
| "Pairable (Suc fuel) grid rounds bye =
     (if rounds \<le> 0 then Inr (True, grid)
      else let n = length grid in
        ebind (efold (\<lambda>x byes. ebind (bye_at bye x rounds) (\<lambda>b. Inr (byes + b))) [0 ..< n] 0)
          (\<lambda>byes. Pairable_range fuel grid rounds bye 0 (n - (n - nat byes) div 2 + 1)))"
| "Pairable_range 0 grid rounds bye begin end' = Inl OutOfFuel"
| "Pairable_range (Suc fuel) grid rounds bye begin end' =
     (if length grid \<le> 1 then Inr (True, grid)
      else Pairable_rows fuel grid rounds bye end' begin)"
| "Pairable_rows 0 grid rounds bye end' row = Inl OutOfFuel"
| "Pairable_rows (Suc fuel) grid rounds bye end' row =
     (if \<not> (row < end' \<and> row < length grid) then Inr (False, grid)
      else ebind (bye_at bye row rounds) (\<lambda>b.
        if b \<noteq> 0 then Pairable_rows fuel grid rounds bye end' (row + 1)
        else Pairable_cols fuel grid rounds bye end' row (row + 1)))"
| "Pairable_cols 0 grid rounds bye end' row col = Inl OutOfFuel"
| "Pairable_cols (Suc fuel) grid rounds bye end' row col =
     (if \<not> col < length grid then Pairable_rows fuel grid rounds bye end' (row + 1)
      else ebind (bye_at bye col rounds) (\<lambda>b.
        if b \<noteq> 0 then Pairable_cols fuel grid rounds bye end' row (col + 1)
        else ebind (grid_get grid row col) (\<lambda>v1.
             ebind (if v1 \<noteq> 0 then Inr True
                    else ebind (grid_get grid col row) (\<lambda>v2. Inr (v2 \<noteq> 0))) (\<lambda>taken.
          if taken then Pairable_cols fuel grid rounds bye end' row (col + 1)
          else ebind (blocked_above grid row col [0 ..< row]) (\<lambda>blocked.
            if blocked then Pairable_cols fuel grid rounds bye end' row (col + 1)
            else ebind (grid_set grid row col (int rounds)) (\<lambda>grid1.
              if end' \<ge> length grid
              then (if rounds \<le> 1 then Inr (True, grid1)
                    else ebind (next_round_grid grid1 (int rounds)) (\<lambda>newGrid.
                         ebind (Pairable fuel newGrid (rounds - 1) bye) (\<lambda>(isFound, newGrid').
                           if isFound then Inr (True, newGrid')
                           else ebind (grid_set grid1 row col 0) (\<lambda>grid2.
                                  Pairable_cols fuel grid2 rounds bye end' row (col + 1)))))
              else ebind (Pairable_range fuel grid1 rounds bye (row + 1) (end' + 1))
                     (\<lambda>(isFound, grid1').
                       if isFound then Inr (True, grid1')
                       else ebind (grid_set grid1' row col 0) (\<lambda>grid2.
                              Pairable_cols fuel grid2 rounds bye end' row (col + 1)))))))))"
  by pat_completeness auto
termination
  by (relation "measure (\<lambda>x. case x of
          Inl (Inl (fuel, _)) \<Rightarrow> fuel | Inl (Inr (fuel, _)) \<Rightarrow> fuel
        | Inr (Inl (fuel, _)) \<Rightarrow> fuel | Inr (Inr (fuel, _)) \<Rightarrow> fuel)") simp_all

section \<open>The team-majority short cut and the pairable cost\<close>

text \<open>One step of the loop of \<^verbatim>\<open>IsOneTeamMajority\<close> over the sorted team numbers; the
  state is \<^verbatim>\<open>(mode, next, modeCnt, nextCnt)\<close>.\<close>

definition mode_step :: "int \<times> int \<times> nat \<times> nat \<Rightarrow> int \<Rightarrow> int \<times> int \<times> nat \<times> nat" where
  "mode_step st t =
     (case st of (mode, next, modeCnt, nextCnt) \<Rightarrow>
        let next1 = (if t = next then next else t);
            nextCnt1 = (if t = next then nextCnt + 1 else 1)
        in if nextCnt1 > modeCnt then (next1, next1, nextCnt1, nextCnt1)
           else (mode, next1, modeCnt, nextCnt1))"

definition IsOneTeamMajority :: "PlayerVector \<Rightarrow> error + bool" where
  "IsOneTeamMajority pl =
     ebind (ASSERT (length pl > 0 \<and> play_id (last pl) = BYE_ID)) (\<lambda>_.
     ebind (ASSERT (list_all (\<lambda>p. play_id p \<noteq> BYE_ID) (butlast pl))) (\<lambda>_.
     let team = sort (map team_id (butlast pl)) in
     case foldl mode_step (0, 0, 0, 0) team of (mode, next, modeCnt, nextCnt) \<Rightarrow>
       Inr (mode \<noteq> 0 \<and> 2 * modeCnt \<ge> length team)))"

text \<open>The loops of \<^verbatim>\<open>PairableCost\<close> that fill the grids.\<close>

definition mark_pair :: "nat \<Rightarrow> nat \<Rightarrow> PairGrid \<Rightarrow> error + PairGrid" where
  "mark_pair r1 r2 pg = (if r1 < r2 then grid_set pg r2 r1 (- 1) else grid_set pg r1 r2 (- 1))"

definition mark_ranks :: "nat \<Rightarrow> nat \<Rightarrow> int list \<Rightarrow> PairGrid \<Rightarrow> error + PairGrid" where
  "mark_ranks num r1 ranks pg =
     efold (\<lambda>r pg. let r2 = to_size_t r in if r2 \<ge> num then Inr pg else mark_pair r1 r2 pg) ranks pg"

definition mark_byes :: "nat \<Rightarrow> nat \<Rightarrow> nat \<Rightarrow> int list \<Rightarrow> ByeGrid \<Rightarrow> error + ByeGrid" where
  "mark_byes rounds remainingRounds r1 b bye =
     efold (\<lambda>r bye. let rnd' = to_size_t r in
              if rnd' > rounds then Inr bye
              else if rounds - rnd' < remainingRounds then grid_set bye r1 (rounds - rnd') 1
              else Inr bye) b bye"

definition mark_player ::
  "nat \<Rightarrow> nat \<Rightarrow> nat \<Rightarrow> bool \<Rightarrow> Player \<Rightarrow> ByeGrid \<times> PairGrid \<Rightarrow> error + (ByeGrid \<times> PairGrid)" where
  "mark_player rounds remainingRounds num isTeam p grids =
     (case grids of (bye, pg) \<Rightarrow>
        let r1 = to_size_t (rank p) in
        if r1 \<ge> num then Inr (bye, pg)
        else ebind (mark_byes rounds remainingRounds r1 (bye_rounds p) bye) (\<lambda>bye1.
             ebind (mark_ranks num r1 (opponent_ranks p) pg) (\<lambda>pg1.
             ebind (if isTeam then mark_ranks num r1 (teammate_ranks p) pg1 else Inr pg1) (\<lambda>pg2.
             Inr (bye1, pg2)))))"

fun mark_current :: "PlayerVector \<Rightarrow> IndexVector \<Rightarrow> PairGrid \<Rightarrow> error + PairGrid" where
  "mark_current pl (r1 # r2 # rest) pg =
     ebind (ASSERT (r1 \<noteq> r2)) (\<lambda>_.
     ebind (nth_chk pl r1) (\<lambda>p1.
     ebind (nth_chk pl r2) (\<lambda>p2.
     ebind (if play_id p1 \<noteq> BYE_ID \<and> play_id p2 \<noteq> BYE_ID then mark_pair r1 r2 pg else Inr pg)
       (mark_current pl rest))))"
| "mark_current pl [r1] pg = Inl OutOfRange"
| "mark_current pl [] pg = Inr pg"

text \<open>\<^verbatim>\<open>PairableCost\<close>: 1 when the remaining rounds cannot be paired, else 0.  The player
  vector is returned too, for the warning code that may be added to its first player.\<close>

definition PairableCost ::
  "nat \<Rightarrow> char \<Rightarrow> PlayerVector \<Rightarrow> IndexVector \<Rightarrow> nat \<Rightarrow> bool \<Rightarrow> error + (CostValue \<times> PlayerVector)" where
  "PairableCost fuel wCode pl pair remainingRounds isTeam =
     (if remainingRounds \<le> 0 then Inr (0, pl)
      else ebind (if isTeam then IsOneTeamMajority pl else Inr False) (\<lambda>majority.
        if majority then Inr (1, pl)
        else ebind (nth_chk pl 0) (\<lambda>p0.
          let rounds = to_size_t (rnd p0) + remainingRounds;
              num = length pl - 1;
              bye0 = replicate num (replicate remainingRounds 0);
              pg0 = map (\<lambda>y. (replicate num 0)[y := - 11]) [0 ..< num]
          in ebind (efold (mark_player rounds remainingRounds num isTeam) (take num pl) (bye0, pg0))
               (\<lambda>(bye, pg1).
             ebind (ASSERT (length pair mod 2 = 0)) (\<lambda>_.
             ebind (mark_current pl pair pg1) (\<lambda>pg.
             ebind (Pairable fuel pg remainingRounds bye) (\<lambda>(isPairable, pg').
             if \<not> isPairable
             then ebind (CostDescription (warn_codes p0) wCode) (\<lambda>codes.
                    Inr (1, pl[0 := p0\<lparr>warn_codes := codes\<rparr>]))
             else Inr (0, pl))))))))"

section \<open>Example data\<close>

text \<open>A player of a first round with the given identifier, team, rating and rank; the
  random key is the identifier divided by 100.  The examples below are built from it.\<close>

definition example_player :: "int \<Rightarrow> int \<Rightarrow> int \<Rightarrow> int \<Rightarrow> Player" where
  "example_player pid tid rtg rk =
     \<lparr> trn_type = CHR ''S'', rnd = 1, board_num = 0, board_color = CHR ''W'',
       play_id = pid, reentry = 0, team_id = tid, teammates = [], opponents = [],
       score = 0, rating = rtg, is_unrated = False, use_rating = ''uscf'', provisional = 0,
       rand = of_int pid / 100, bye_house = False, bye_request = False, unplayed_count = 0,
       half_bye_count = 0, bye_rounds = [], due_color = ''x'', color_history = [],
       played_colors = [], first_color = CHR ''W'', multiround = 1, paired = False,
       warn_codes = [], rank = rk, teammate_ranks = [], opponent_ranks = [] \<rparr>"

section \<open>Canonical player vector\<close>

fun emap :: "('a \<Rightarrow> error + 'b) \<Rightarrow> 'a list \<Rightarrow> error + 'b list" where
  "emap f [] = Inr []"
| "emap f (x # xs) = ebind (f x) (\<lambda>y. ebind (emap f xs) (\<lambda>ys. Inr (y # ys)))"

text \<open>Sorting with a predicate.  \<^verbatim>\<open>std::sort\<close> is called where the predicate is a strict
  total order on the vector (the random keys are pairwise different), so the sorted vector
  is unique and the algorithm does not matter; here it is insertion sort.\<close>

fun insort_by :: "('a \<Rightarrow> 'a \<Rightarrow> bool) \<Rightarrow> 'a \<Rightarrow> 'a list \<Rightarrow> 'a list" where
  "insort_by lt x [] = [x]"
| "insort_by lt x (y # ys) = (if lt y x then y # insort_by lt x ys else x # y # ys)"

definition sort_by :: "('a \<Rightarrow> 'a \<Rightarrow> bool) \<Rightarrow> 'a list \<Rightarrow> 'a list" where
  "sort_by lt xs = foldr (insort_by lt) xs []"

text \<open>Integer division of C++, which truncates towards zero; a division by zero stops
  the program.\<close>

definition c_div :: "int \<Rightarrow> int \<Rightarrow> error + int" where
  "c_div a b = (if b = 0 then Inl OutOfRange
                else Inr (sgn a * sgn b * (\<bar>a\<bar> div \<bar>b\<bar>)))"

fun first_index :: "('a \<Rightarrow> bool) \<Rightarrow> 'a list \<Rightarrow> nat option" where
  "first_index P [] = None"
| "first_index P (x # xs) = (if P x then Some 0 else map_option Suc (first_index P xs))"

text \<open>\<^verbatim>\<open>rankMap\<close> of \<^verbatim>\<open>SetRanks\<close>: \<^verbatim>\<open>insert\<close> keeps the first rank entered for a player
  number.\<close>

definition rankMap :: "PlayerVector \<Rightarrow> int \<Rightarrow> nat option" where
  "rankMap pl pid = first_index (\<lambda>p. play_id p = pid) pl"

definition lookup_ranks :: "PlayerVector \<Rightarrow> int list \<Rightarrow> int list" where
  "lookup_ranks pl ids =
     concat (map (\<lambda>i. case rankMap pl i of None \<Rightarrow> [] | Some r \<Rightarrow> [int r]) ids)"

definition SetRanks :: "PlayerVector \<Rightarrow> error + PlayerVector" where
  "SetRanks pl =
     ebind (emap (\<lambda>(x, p).
              ebind (ASSERT (if x = length pl - 1 then play_id p = BYE_ID else play_id p \<noteq> BYE_ID))
                (\<lambda>_. ebind (DueColor (color_history p) (multiround p))
                (\<lambda>dc. Inr (p\<lparr>rank := int x, due_color := dc\<rparr>))))
            (enumerate 0 pl)) (\<lambda>pl1.
     Inr (map (\<lambda>p. p\<lparr>opponent_ranks := lookup_ranks pl1 (map atoi (opponents p)),
                       teammate_ranks := lookup_ranks pl1 (teammates p)\<rparr>) pl1))"

text \<open>The element that \<^verbatim>\<open>pl.resize(pl.size()+1)\<close> appends: a value-initialised player.\<close>

definition Player_zero :: Player where
  "Player_zero =
     \<lparr> trn_type = CHR 0x00, rnd = 0, board_num = 0, board_color = CHR 0x00,
       play_id = 0, reentry = 0, team_id = 0, teammates = [], opponents = [],
       score = 0, rating = 0, is_unrated = False, use_rating = [], provisional = 0,
       rand = 0, bye_house = False, bye_request = False, unplayed_count = 0,
       half_bye_count = 0, bye_rounds = [], due_color = [], color_history = [],
       played_colors = [], first_color = CHR 0x00, multiround = 0, paired = False,
       warn_codes = [], rank = 0, teammate_ranks = [], opponent_ranks = [] \<rparr>"

definition append_bye :: "PlayerVector \<Rightarrow> PlayerVector" where
  "append_bye pl =
     (if pl = [] \<or> play_id (last pl) \<noteq> BYE_ID
      then let pl0 = hd (pl @ [Player_zero]) in
           pl @ [Player_zero\<lparr>play_id := BYE_ID, board_num := - 1, bye_request := False,
                              paired := False, rnd := rnd pl0, multiround := multiround pl0\<rparr>]
      else pl)"

text \<open>\<^verbatim>\<open>CanonicalPlayerVector\<close>.  \<^verbatim>\<open>operator<\<close> asserts that the two players it compares
  have different random keys; the assertion is taken for all pairs of the vector, which
  is the precondition the source documents (the keys "must be unique").\<close>

definition CanonicalPlayerVector :: "PlayerVector \<Rightarrow> error + PlayerVector" where
  "CanonicalPlayerVector pl0 =
     (let pl = append_bye pl0 in
      ebind (ASSERT (distinct (map rand pl))) (\<lambda>_.
      ebind (SetRanks (sort_by Player_lt pl)) (\<lambda>pl1.
      ebind (ASSERT (play_id (last pl1) = BYE_ID)) (\<lambda>_.
      ebind (ASSERT (list_all (\<lambda>p. play_id p \<noteq> BYE_ID) (butlast pl1))) (\<lambda>_.
      Inr pl1)))))"

section \<open>The round-robin short cut\<close>

definition LessRobinSort :: "Player \<Rightarrow> Player \<Rightarrow> bool" where
  "LessRobinSort x y =
     (let byeX = (play_id x = BYE_ID); byeY = (play_id y = BYE_ID)
      in byeX < byeY \<or> (byeX = byeY \<and> rand x < rand y))"

text \<open>The loop that finds the withdrawn player; the state is \<^verbatim>\<open>withdrawnPlayer\<close>.\<close>

definition withdrawn_step :: "nat \<Rightarrow> int \<Rightarrow> nat \<times> Player \<Rightarrow> nat \<Rightarrow> error + nat" where
  "withdrawn_step n totalRounds xp withdrawnPlayer =
     (case xp of (x, px) \<Rightarrow>
        ebind (ASSERT (play_id px \<noteq> BYE_ID \<or> x = n - 1)) (\<lambda>_.
        ebind (c_div (totalRounds + 1) 2) (\<lambda>half.
        if length (bye_rounds px) > 0 \<and> hd (bye_rounds px) \<le> half
        then ebind (ASSERT (withdrawnPlayer = 0)) (\<lambda>_. Inr (x + 1))
        else Inr withdrawnPlayer)))"

definition lookup_player :: "nat \<Rightarrow> nat \<Rightarrow> int \<Rightarrow> nat \<times> Player \<Rightarrow> error + Player" where
  "lookup_player n withdrawnPlayer firstBoardNum xp =
     (case xp of (x, px) \<Rightarrow>
        ebind (c_div (rnd px - 1) (multiround px)) (\<lambda>q.
        ebind (CrenshawBergerLookup n (to_size_t (q + 1)) (x + 1) withdrawnPlayer) (\<lambda>(b, c).
        Inr (px\<lparr>board_num := b + (firstBoardNum - 1), board_color := c\<rparr>))))"

text \<open>The last loop of the short cut: the first player on the board of the bye gets
  White and the bye Black.\<close>

definition bye_colors :: "PlayerVector \<Rightarrow> error + PlayerVector" where
  "bye_colors pl =
     (if play_id (last pl) = BYE_ID
      then let pl1 = (case first_index (\<lambda>p. board_num p = board_num (last pl)) (butlast pl) of
                        None \<Rightarrow> pl
                      | Some x \<Rightarrow> (pl[x := (pl ! x)\<lparr>board_color := CHR ''W''\<rparr>])
                                    [length pl - 1 := (last pl)\<lparr>board_color := CHR ''B''\<rparr>])
           in ebind (ASSERT (board_color (last pl1) = CHR ''B'')) (\<lambda>_. Inr pl1)
      else Inr pl)"

text \<open>The block of \<^verbatim>\<open>FindPairings\<close> for the tournament types R and D, entered with the
  canonical player vector (which is never empty).\<close>

definition RoundRobinPairings :: "PlayerVector \<Rightarrow> int \<Rightarrow> int \<Rightarrow> error + (PlayerVector \<times> Cost)" where
  "RoundRobinPairings pl0 totalRounds0 firstBoardNum =
     (let pl = sort_by LessRobinSort pl0 in
      ebind (c_div totalRounds0 (multiround (hd pl))) (\<lambda>totalRounds.
      ebind (ASSERT (int (length pl) - 1 = totalRounds)) (\<lambda>_.
      ebind (efold (withdrawn_step (length pl) totalRounds) (enumerate 0 pl) 0) (\<lambda>withdrawnPlayer.
      ebind (emap (lookup_player (length pl) withdrawnPlayer firstBoardNum) (enumerate 0 pl)) (\<lambda>pl1.
      ebind (bye_colors pl1) (\<lambda>pl2.
      Inr (pl2, Cost_init)))))))"

text \<open>The first statements of \<^verbatim>\<open>FindPairings\<close>.  The loop that compares the opponents
  of a multi-round section only prints; with \<^verbatim>\<open>multiround\<close> 0 and a player who has
  opponents its step \<^verbatim>\<open>y += mr\<close> never advances.\<close>

definition check_multiround :: "PlayerVector \<Rightarrow> error + unit" where
  "check_multiround pl =
     (if length pl \<le> 1 then Inr ()
      else if multiround (hd pl) \<noteq> 1
      then ebind (ASSERT (list_all (\<lambda>p. multiround p = multiround (hd pl)) pl)) (\<lambda>_.
             if multiround (hd pl) = 0 \<and> list_ex (\<lambda>p. opponents p \<noteq> []) pl
             then Inl NonTermination else Inr ())
      else Inr ())"

text \<open>The request of a bye for one odd house player; the result is the player vector
  and \<^verbatim>\<open>players\<close>, the number of players to pair.\<close>

definition wants_pairing :: "Player \<Rightarrow> bool" where
  "wants_pairing p = (\<not> bye_request p \<and> \<not> paired p \<and> play_id p \<noteq> BYE_ID)"

definition house_player :: "PlayerVector \<Rightarrow> PlayerVector \<times> nat" where
  "house_player pl =
     (let players = length (filter wants_pairing pl);
          house = filter (\<lambda>x. wants_pairing (pl ! x) \<and> bye_house (pl ! x)) [0 ..< length pl]
      in if players mod 2 = 0 \<or> house = [] then (pl, players)
         else (pl[last house := (pl ! last house)\<lparr>bye_request := True\<rparr>], players - 1))"

section \<open>Boards: hints, sorting and first pairings\<close>

text \<open>\<^verbatim>\<open>size_t\<close> subtraction wraps around.\<close>

definition sz_sub :: "nat \<Rightarrow> nat \<Rightarrow> nat" where
  "sz_sub a b = to_size_t (int a - int b)"

text \<open>\<^verbatim>\<open>swap(pair[i], pair[j])\<close>.\<close>

definition swap :: "nat \<Rightarrow> nat \<Rightarrow> 'a list \<Rightarrow> error + 'a list" where
  "swap i j xs =
     (if i < length xs \<and> j < length xs then Inr (xs[i := xs ! j, j := xs ! i])
      else Inl OutOfRange)"

definition set_chk :: "nat \<Rightarrow> 'a \<Rightarrow> 'a list \<Rightarrow> error + 'a list" where
  "set_chk i v xs = (if i < length xs then Inr (xs[i := v]) else Inl OutOfRange)"

text \<open>\<^verbatim>\<open>AssertNoDuplicates\<close>: no two entries of the pairing vector have the same player
  number, byes apart.\<close>

definition AssertNoDuplicates :: "PlayerVector \<Rightarrow> IndexVector \<Rightarrow> error + unit" where
  "AssertNoDuplicates pl pair =
     ebind (emap (nth_chk pl) pair) (\<lambda>ps.
       ASSERT (distinct (filter (\<lambda>i. i \<noteq> BYE_ID) (map play_id ps))))"

text \<open>The condition on which the inner loop of \<^verbatim>\<open>SortBoards\<close> stops: the board of
  \<open>a2\<close> and \<open>a1\<close> (at \<^verbatim>\<open>y-2\<close> and \<^verbatim>\<open>y-1\<close>) stays in front of the board of \<open>b0\<close> and
  \<open>b1\<close> (at \<^verbatim>\<open>y\<close> and \<^verbatim>\<open>y+1\<close>).  The last comparison, \<^verbatim>\<open>pl[pair[y-2]] <= pl[pair[y]]\<close>,
  is reached, with the assertion of \<^verbatim>\<open>operator<\<close>, when all the keys before it are
  equal.\<close>

definition board_keys_equal :: "Player \<Rightarrow> Player \<Rightarrow> Player \<Rightarrow> Player \<Rightarrow> bool" where
  "board_keys_equal a2 a1 b0 b1 =
     (paired a2 = paired b0 \<and> (play_id a1 = BYE_ID) = (play_id b1 = BYE_ID)
      \<and> bye_request a2 = bye_request b0 \<and> score a2 = score b0 \<and> score a1 = score b1
      \<and> rating a2 = rating b0 \<and> rating a1 = rating b1)"

definition boards_in_order :: "Player \<Rightarrow> Player \<Rightarrow> Player \<Rightarrow> Player \<Rightarrow> error + bool" where
  "boards_in_order a2 a1 b0 b1 =
     ebind (if board_keys_equal a2 a1 b0 b1 then ASSERT (rand b0 \<noteq> rand a2) else Inr ()) (\<lambda>_.
     Inr (paired a2 < paired b0 \<or> (paired a2 = paired b0
       \<and> ((play_id a1 = BYE_ID) < (play_id b1 = BYE_ID)
           \<or> ((play_id a1 = BYE_ID) = (play_id b1 = BYE_ID)
       \<and> (bye_request a2 < bye_request b0 \<or> (bye_request a2 = bye_request b0
       \<and> (score a2 > score b0 \<or> (score a2 = score b0
       \<and> (score a1 > score b1 \<or> (score a1 = score b1
       \<and> (rating a2 > rating b0 \<or> (rating a2 = rating b0
       \<and> (rating a1 > rating b1 \<or> (rating a1 = rating b1
       \<and> \<not> Player_lt b0 a2)))))))))))))))"

text \<open>The inner loop \<^verbatim>\<open>for (size_t y = x; y > 0; y -= 2)\<close>, with \<open>y = 2 * k\<close>.\<close>

fun insert_board :: "PlayerVector \<Rightarrow> nat \<Rightarrow> IndexVector \<Rightarrow> error + IndexVector" where
  "insert_board pl 0 pair = Inr pair"
| "insert_board pl (Suc k) pair =
     (let y = 2 * Suc k in
      ebind (nth_chk pair (y + 1)) (\<lambda>q1.
      ebind (nth_chk pair y) (\<lambda>q0.
      ebind (nth_chk pair (y - 1)) (\<lambda>r1.
      ebind (nth_chk pair (y - 2)) (\<lambda>r2.
      ebind (ASSERT (q1 \<noteq> q0 \<and> q1 \<noteq> r2 \<and> q0 \<noteq> r1 \<and> q0 \<noteq> r2 \<and> r1 \<noteq> r2)) (\<lambda>_.
      ebind (nth_chk pl q1) (\<lambda>b1.
      ebind (nth_chk pl q0) (\<lambda>b0.
      ebind (nth_chk pl r1) (\<lambda>a1.
      ebind (nth_chk pl r2) (\<lambda>a2.
      ebind (ASSERT (q1 \<noteq> r1 \<or> (play_id b1 = BYE_ID \<and> play_id a1 = BYE_ID))) (\<lambda>_.
      ebind (boards_in_order a2 a1 b0 b1) (\<lambda>stop.
      if stop then Inr pair
      else ebind (ASSERT (play_id b0 \<noteq> BYE_ID \<and> play_id a2 \<noteq> BYE_ID)) (\<lambda>_.
           ebind (swap y (y - 2) pair) (\<lambda>pair1.
           ebind (swap (y + 1) (y - 1) pair1) (\<lambda>pair2.
           insert_board pl k pair2)))))))))))))))"

definition sort_board_step :: "PlayerVector \<Rightarrow> nat \<Rightarrow> IndexVector \<Rightarrow> error + IndexVector" where
  "sort_board_step pl k pair =
     ebind (nth_chk pair (2 * k)) (\<lambda>a.
     ebind (ASSERT (a < length pl)) (\<lambda>_.
     ebind (nth_chk pair (2 * k + 1)) (\<lambda>b.
     ebind (ASSERT (b < length pl)) (\<lambda>_.
     insert_board pl k pair))))"

text \<open>\<^verbatim>\<open>SortBoards\<close>: insertion sort of the boards.\<close>

definition SortBoards :: "PlayerVector \<Rightarrow> IndexVector \<Rightarrow> error + IndexVector" where
  "SortBoards pl pair =
     ebind (if pl = [] then Inl OutOfRange else ASSERT (play_id (last pl) = BYE_ID)) (\<lambda>_.
     ebind (ASSERT (length pair mod 2 = 0)) (\<lambda>_.
     efold (sort_board_step pl) [0 ..< length pair div 2] pair))"

text \<open>The multimap of \<^verbatim>\<open>HintPairings\<close> in the order of its iteration: by board number,
  and by rank among the players of one board number (entries with equal keys stay in
  the order of their insertion).\<close>

definition hint_map :: "PlayerVector \<Rightarrow> (int \<times> nat) list" where
  "hint_map pl =
     sort_key fst (filter (\<lambda>e. fst e \<noteq> - 1)
                     (map (\<lambda>x. (board_num (pl ! x), x)) [0 ..< length pl - 1]))"

text \<open>The three vectors \<^verbatim>\<open>pair\<close>, \<^verbatim>\<open>single\<close> and \<^verbatim>\<open>other\<close>.\<close>

type_synonym hint_acc = "IndexVector \<times> IndexVector \<times> IndexVector"

definition service_one :: "bool \<Rightarrow> nat \<Rightarrow> Player \<Rightarrow> hint_acc \<Rightarrow> hint_acc" where
  "service_one collapseByes byeIndex p1 acc =
     (case acc of (pair, single, other) \<Rightarrow>
        if paired p1 \<or> bye_request p1 \<or> \<not> collapseByes
        then (pair, single, other @ [to_size_t (rank p1), byeIndex])
        else (pair, single @ [to_size_t (rank p1)], other))"

definition service_two :: "Player \<Rightarrow> Player \<Rightarrow> hint_acc \<Rightarrow> hint_acc" where
  "service_two p1 p2 acc =
     (case acc of (pair, single, other) \<Rightarrow>
        if paired p1
        then (pair, single, other @ [to_size_t (rank p1), to_size_t (rank p2)])
        else (pair @ [to_size_t (rank p1), to_size_t (rank p2)], single, other))"

fun hint_loop :: "PlayerVector \<Rightarrow> bool \<Rightarrow> nat \<Rightarrow> (int \<times> nat) list \<Rightarrow> hint_acc \<Rightarrow> hint_acc" where
  "hint_loop pl collapseByes byeIndex [] acc = acc"
| "hint_loop pl collapseByes byeIndex [e1] acc =
     service_one collapseByes byeIndex (pl ! snd e1) acc"
| "hint_loop pl collapseByes byeIndex (e1 # e2 # rest) acc =
     (let p1 = pl ! snd e1; p2 = pl ! snd e2 in
      if board_num p2 \<noteq> board_num p1 \<or> paired p2 \<noteq> paired p1
         \<or> (\<not> paired p1 \<and> (bye_request p1 \<or> bye_request p2))
      then hint_loop pl collapseByes byeIndex (e2 # rest)
             (service_one collapseByes byeIndex p1 acc)
      else hint_loop pl collapseByes byeIndex rest (service_two p1 p2 acc))"

text \<open>"Put players on correct boards": the lower rank first on every board.\<close>

fun normalise_ranks :: "PlayerVector \<Rightarrow> IndexVector \<Rightarrow> error + IndexVector" where
  "normalise_ranks pl (a # b # rest) =
     ebind (nth_chk pl a) (\<lambda>pa.
     ebind (nth_chk pl b) (\<lambda>pb.
     ebind (normalise_ranks pl rest) (\<lambda>r.
     Inr (if rank pa > rank pb then b # a # r else a # b # r))))"
| "normalise_ranks pl [a] = Inl OutOfRange"
| "normalise_ranks pl [] = Inr []"

text \<open>The assertions at the head of \<^verbatim>\<open>HintPairings\<close>: the vector is sorted and ranked.\<close>

fun strictly_sorted :: "PlayerVector \<Rightarrow> error + unit" where
  "strictly_sorted (p # q # rest) =
     ebind (Player_less p q) (\<lambda>b. ebind (ASSERT b) (\<lambda>_. strictly_sorted (q # rest)))"
| "strictly_sorted _ = Inr ()"

definition HintPairings :: "PlayerVector \<Rightarrow> bool \<Rightarrow> error + IndexVector" where
  "HintPairings pl collapseByes =
     ebind (ASSERT (length pl > 0 \<and> play_id (last pl) = BYE_ID)) (\<lambda>_.
     ebind (strictly_sorted pl) (\<lambda>_.
     ebind (ASSERT (list_all (\<lambda>(x, p). rank p = int x) (enumerate 0 pl))) (\<lambda>_.
     let byeIndex = length pl - 1 in
     case hint_loop pl collapseByes byeIndex (hint_map pl) ([], [], []) of
       (pair0, single, other) \<Rightarrow>
         let pair1 = pair0 @ single;
             pair2 = (if length pair1 mod 2 \<noteq> 0 then pair1 @ [byeIndex] else pair1) @ other
         in ebind (normalise_ranks pl pair2) (SortBoards pl))))"

text \<open>\<^verbatim>\<open>FirstPairings\<close>.  The vector \<^verbatim>\<open>num\<close> counts the players of every score group
  and is indexed by twice the score; \<^verbatim>\<open>color\<close>, indexed the same way, is only passed
  to \<^verbatim>\<open>ColorLookahead\<close>, which changes nothing, and is left out.\<close>

definition score_index :: "rat \<Rightarrow> error + nat" where
  "score_index s = (if s < 0 then Inl OutOfRange else Inr (nat \<lfloor>2 * s\<rfloor>))"

text \<open>The loop over the boards of one score group of \<open>n\<close> players that starts at \<open>x\<close>.\<close>

definition halves_step :: "nat \<Rightarrow> nat \<Rightarrow> nat \<Rightarrow> IndexVector \<Rightarrow> error + IndexVector" where
  "halves_step x n z pair =
     ebind (set_chk (x + z) (x + z div 2) pair) (set_chk (x + z + 1) (x + n div 2 + z div 2))"

definition halves :: "nat \<Rightarrow> nat \<Rightarrow> IndexVector \<Rightarrow> error + IndexVector" where
  "halves x n pair = efold (halves_step x n) (map (\<lambda>k. 2 * k) [0 ..< n div 2]) pair"

function first_pairings_loop ::
  "PlayerVector \<Rightarrow> nat \<Rightarrow> nat \<Rightarrow> nat list \<Rightarrow> IndexVector \<Rightarrow> error + IndexVector" where
  "first_pairings_loop pl nplayers x num pair =
     (if \<not> x < nplayers then Inr pair
      else
        ebind (AssertNoDuplicates pl pair) (\<lambda>_.
        ebind (ASSERT (x mod 2 = 0)) (\<lambda>_.
        ebind (nth_chk pl x) (\<lambda>px.
        let scoreGroup = score px;
            y = x + 1 + length (takeWhile (\<lambda>p. score p = scoreGroup) (drop (x + 1) (take nplayers pl)))
        in
        ebind (score_index scoreGroup) (\<lambda>idx.
        ebind (nth_chk num idx) (\<lambda>n0.
        let n = n0 + (y - x); num1 = num[idx := n] in
        ebind (ASSERT (n = y - x)) (\<lambda>_.
        ebind (halves x n pair) (\<lambda>pair1.
        ebind (AssertNoDuplicates pl pair1) (\<lambda>_.
        if n mod 2 = 0 then first_pairings_loop pl nplayers y num1 pair1
        else if y < nplayers
        then ebind (set_chk (y - 1) (y - 1) pair1) (\<lambda>pair2.
             ebind (set_chk y y pair2) (\<lambda>pair3.
             first_pairings_loop pl nplayers (y + 1) num1 pair3))
        else ebind (set_chk (y - 1) (y - 1) pair1) (\<lambda>pair2.
             ebind (ASSERT (y < length pl)) (\<lambda>_.
             ebind (nth_chk pair2 y) (\<lambda>q.
             ebind (nth_chk pl q) (\<lambda>pq.
             ebind (ASSERT (play_id pq = BYE_ID)) (\<lambda>_.
             first_pairings_loop pl nplayers y num1 pair2))))))))))))))"
  by pat_completeness auto
termination
  by (relation "measure (\<lambda>(pl, nplayers, x, num, pair). nplayers - x)") auto

definition FirstPairings :: "PlayerVector \<Rightarrow> IndexVector \<Rightarrow> nat \<Rightarrow> error + IndexVector" where
  "FirstPairings pl pair0 nplayers =
     ebind (ASSERT (nplayers \<le> length pair0)) (\<lambda>_.
     ebind (emap (nth_chk pl) (take nplayers pair0)) (\<lambda>ps.
     ebind (ASSERT (list_all (\<lambda>p. play_id p \<noteq> BYE_ID) ps)) (\<lambda>_.
     let pair = sort (take nplayers pair0) @ drop nplayers pair0 in
     ebind (AssertNoDuplicates pl pair) (\<lambda>_.
     ebind (if nplayers mod 2 = 0 then Inr ()
            else if nplayers < length pair
            then ebind (nth_chk pl (pair ! nplayers)) (\<lambda>p. ASSERT (play_id p = BYE_ID))
            else Inl AssertionFailed) (\<lambda>_.
     ebind (if pl = [] then Inr 0
            else ebind (score_index (score (hd pl))) (\<lambda>i. Inr (i + 1))) (\<lambda>size.
     first_pairings_loop pl nplayers 0 (replicate size 0) pair))))))"

section \<open>The moves of the optimiser\<close>

definition shift_at :: "bool list \<Rightarrow> nat \<Rightarrow> error + nat" where
  "shift_at shift z = ebind (nth_chk shift z) (\<lambda>b. Inr (if b then 1 else 0))"

text \<open>\<^verbatim>\<open>swap(pair[z+shift[z]], pair[z'+shift[z']])\<close>.\<close>

definition rot_swap :: "bool list \<Rightarrow> nat \<Rightarrow> nat \<Rightarrow> IndexVector \<Rightarrow> error + IndexVector" where
  "rot_swap shift z z' pair =
     ebind (shift_at shift z) (\<lambda>s1. ebind (shift_at shift z') (\<lambda>s2. swap (z + s1) (z' + s2) pair))"

text \<open>\<^verbatim>\<open>for (z = a; z+2 <= bound; z += 2)\<close> and \<^verbatim>\<open>for (z = a; z+2 < bound; z += 2)\<close>.\<close>

definition down_loop :: "bool list \<Rightarrow> nat \<Rightarrow> nat \<Rightarrow> IndexVector \<Rightarrow> error + IndexVector" where
  "down_loop shift a bound pair =
     efold (\<lambda>z. rot_swap shift z (z + 2)) (map (\<lambda>k. a + 2 * k) [0 ..< (bound - a) div 2]) pair"

definition down_loop_lt :: "bool list \<Rightarrow> nat \<Rightarrow> nat \<Rightarrow> IndexVector \<Rightarrow> error + IndexVector" where
  "down_loop_lt shift a bound pair =
     efold (\<lambda>z. rot_swap shift z (z + 2)) (map (\<lambda>k. a + 2 * k) [0 ..< (bound - 1 - a) div 2]) pair"

text \<open>\<^verbatim>\<open>for (z = a; z >= bound+2; z -= 2)\<close>.\<close>

definition up_loop :: "bool list \<Rightarrow> nat \<Rightarrow> nat \<Rightarrow> IndexVector \<Rightarrow> error + IndexVector" where
  "up_loop shift a bound pair =
     efold (\<lambda>z. rot_swap shift z (z - 2)) (map (\<lambda>k. a - 2 * k) [0 ..< (a - bound) div 2]) pair"

definition RotatePairDown ::
  "IndexVector \<Rightarrow> nat \<Rightarrow> nat \<Rightarrow> nat \<Rightarrow> nat \<Rightarrow> bool \<Rightarrow> bool \<Rightarrow> bool list \<Rightarrow> error + IndexVector" where
  "RotatePairDown pair0 x0 y0 pBegin0 pEnd0 oddDropDown oddPullUp shift =
     ebind (ASSERT (pBegin0 mod 2 = 0 \<and> pBegin0 \<le> x0 \<and> x0 < y0 \<and> y0 \<le> pEnd0 \<and> pEnd0 mod 2 = 0)) (\<lambda>_.
     ebind (if oddDropDown
            then ebind (ASSERT (y0 mod 2 = 0 \<and> y0 = sz_sub pEnd0 2))
                   (\<lambda>_. Inr (sz_sub y0 1, sz_sub pEnd0 2))
            else Inr (y0, pEnd0)) (\<lambda>(y, pEnd).
     ebind (if oddPullUp
            then ebind (ASSERT (x0 mod 2 = 1 \<and> x0 = pBegin0 + 1)) (\<lambda>_.
                 ebind (swap x0 (x0 + 1) pair0) (\<lambda>p. Inr (x0 + 1, pBegin0 + 2, p)))
            else Inr (x0, pBegin0, pair0)) (\<lambda>(x, pBegin, pair).
     ebind (ASSERT (pBegin mod 2 = 0 \<and> pBegin \<le> x \<and> x \<le> y \<and> y \<le> pEnd \<and> pEnd mod 2 = 0)) (\<lambda>_.
     ebind (if x mod 2 = 0
            then (if y mod 2 = 0 then down_loop shift x y pair
                  else ebind (down_loop_lt shift x pEnd pair) (\<lambda>p1.
                       ebind (swap (sz_sub pEnd 2) (pBegin + 1) p1) (\<lambda>p2.
                       down_loop shift (pBegin + 1) y p2)))
            else (if y mod 2 = 0
                  then ebind (down_loop_lt shift y pEnd pair) (\<lambda>p1.
                       ebind (swap (sz_sub pEnd 2) (pBegin + 1) p1) (\<lambda>p2.
                       down_loop shift (pBegin + 1) x p2))
                  else down_loop shift x y pair)) (\<lambda>pair'.
     if oddDropDown then swap y (y + 1) pair' else Inr pair')))))"

definition RotatePairUp ::
  "IndexVector \<Rightarrow> nat \<Rightarrow> nat \<Rightarrow> nat \<Rightarrow> nat \<Rightarrow> bool \<Rightarrow> bool \<Rightarrow> bool list \<Rightarrow> error + IndexVector" where
  "RotatePairUp pair0 x0 y0 pBegin0 pEnd0 oddDropDown oddPullUp shift =
     ebind (ASSERT (pBegin0 mod 2 = 0 \<and> pBegin0 \<le> x0 \<and> x0 < y0 \<and> y0 \<le> pEnd0 \<and> pEnd0 mod 2 = 0)) (\<lambda>_.
     ebind (if oddDropDown
            then ebind (ASSERT (y0 mod 2 = 0 \<and> y0 = sz_sub pEnd0 2)) (\<lambda>_.
                 ebind (swap y0 (sz_sub y0 1) pair0) (\<lambda>p. Inr (sz_sub y0 1, sz_sub pEnd0 2, p)))
            else Inr (y0, pEnd0, pair0)) (\<lambda>(y, pEnd, pair).
     ebind (if oddPullUp
            then ebind (ASSERT (x0 mod 2 = 1 \<and> x0 = pBegin0 + 1)) (\<lambda>_. Inr (x0 + 1, pBegin0 + 2))
            else Inr (x0, pBegin0)) (\<lambda>(x, pBegin).
     ebind (ASSERT (pBegin mod 2 = 0 \<and> pBegin \<le> x \<and> x \<le> y \<and> y \<le> pEnd \<and> pEnd mod 2 = 0)) (\<lambda>_.
     ebind (if x mod 2 = 0
            then (if y mod 2 = 0 then up_loop shift y x pair
                  else ebind (up_loop shift y pBegin pair) (\<lambda>p1.
                       ebind (swap (pBegin + 1) (sz_sub pEnd 2) p1) (\<lambda>p2.
                       up_loop shift (sz_sub pEnd 2) x p2)))
            else (if y mod 2 = 0
                  then ebind (up_loop shift x pBegin pair) (\<lambda>p1.
                       ebind (swap (pBegin + 1) (sz_sub pEnd 2) p1) (\<lambda>p2.
                       up_loop shift (sz_sub pEnd 2) y p2))
                  else up_loop shift y x pair)) (\<lambda>pair'.
     if oddPullUp then swap x (x - 1) pair' else Inr pair')))))"

text \<open>The macros \<^verbatim>\<open>OPP\<close> and \<^verbatim>\<open>COLOR\<close> of \<^verbatim>\<open>RotateColor\<close>.\<close>

definition player_at :: "PlayerVector \<Rightarrow> IndexVector \<Rightarrow> nat \<Rightarrow> error + Player" where
  "player_at pl pair v = ebind (nth_chk pair v) (nth_chk pl)"

definition OPP :: "PlayerVector \<Rightarrow> IndexVector \<Rightarrow> nat \<Rightarrow> error + Player" where
  "OPP pl pair v = player_at pl pair (if v mod 2 = 0 then v + 1 else sz_sub v 1)"

definition COLOR :: "PlayerVector \<Rightarrow> IndexVector \<Rightarrow> bool \<Rightarrow> nat \<Rightarrow> error + char" where
  "COLOR pl pair isFlipX v =
     ebind (player_at pl pair v) (\<lambda>p.
       if str0 (due_color p) \<noteq> CHR ''x'' then Inr (toupper_c (str0 (due_color p)))
       else ebind (OPP pl pair v) (\<lambda>q.
         Inr (toupper_c
               (if str0 (due_color q) = CHR ''x'' then (if v mod 2 = 0 then CHR ''W'' else CHR ''B'')
                else if isFlipX then str0 (due_color q) else FlipColor (str0 (due_color q))))))"

text \<open>The four loops of \<^verbatim>\<open>RotateColor\<close>.\<close>

fun find_top ::
  "PlayerVector \<Rightarrow> IndexVector \<Rightarrow> bool \<Rightarrow> char \<Rightarrow> nat list \<Rightarrow> nat \<Rightarrow> error + nat" where
  "find_top pl pair isFlipX xColor [] d = Inr d"
| "find_top pl pair isFlipX xColor (t # ts) d =
     ebind (COLOR pl pair isFlipX t) (\<lambda>c.
       if c = xColor then find_top pl pair isFlipX xColor ts d else Inr t)"

definition color_step ::
  "PlayerVector \<Rightarrow> bool \<Rightarrow> char \<Rightarrow> nat \<Rightarrow> nat \<Rightarrow> nat \<Rightarrow> nat \<Rightarrow> nat \<Rightarrow> IndexVector \<times> nat
   \<Rightarrow> error + (IndexVector \<times> nat)" where
  "color_step pl isFlipX col pBegin pEnd lo v z st =
     (case st of (pair, w) \<Rightarrow>
        ebind (ASSERT (pBegin \<le> lo \<and> lo \<le> pEnd)) (\<lambda>_.
        ebind (COLOR pl pair isFlipX v) (\<lambda>c.
          if c = col then ebind (swap w v pair) (\<lambda>pair1. Inr (pair1, v)) else Inr (pair, w))))"

text \<open>The first half of \<^verbatim>\<open>RotateColor\<close>: the search for \<^verbatim>\<open>top\<close> and the rotation that
  brings it up; \<open>None\<close> is the return of \<^verbatim>\<open>false\<close>.\<close>

definition rotate_color_top ::
  "PlayerVector \<Rightarrow> IndexVector \<Rightarrow> nat \<Rightarrow> nat \<Rightarrow> bool \<Rightarrow> bool \<Rightarrow> char \<Rightarrow> Player
   \<Rightarrow> error + (nat \<times> IndexVector) option" where
  "rotate_color_top pl pair x y oddPullUp isFlipX xColor px =
     (if oddPullUp \<or> x mod 2 = 0
      then ebind (if oddPullUp
                  then ebind (OPP pl pair x) (\<lambda>q. ASSERT (score q > score px))
                  else Inr ()) (\<lambda>_.
           ebind (find_top pl pair isFlipX xColor
                    (map (\<lambda>k. x div 2 * 2 + 2 + 2 * k)
                       [0 ..< (y div 2 * 2 - (x div 2 * 2 + 2)) div 2])
                    (y div 2 * 2)) (\<lambda>topz.
           if topz \<ge> y div 2 * 2 then Inr None
           else ebind (efold (\<lambda>z. swap z (z + 2))
                         (map (\<lambda>k. topz - 2 * k) [0 ..< (topz - x div 2 * 2) div 2]) pair)
                  (\<lambda>pair1.
                ebind (swap x (x div 2 * 2 + 2) pair1) (\<lambda>pair2.
                Inr (Some (topz + 1, pair2))))))
      else Inr (Some (x, pair)))"

text \<open>The second half: the loops below \<^verbatim>\<open>top\<close>.\<close>

definition rotate_color_bottom ::
  "PlayerVector \<Rightarrow> nat \<Rightarrow> nat \<Rightarrow> nat \<Rightarrow> nat \<Rightarrow> bool \<Rightarrow> bool \<Rightarrow> char \<Rightarrow> char \<Rightarrow> nat
   \<Rightarrow> IndexVector \<Rightarrow> error + (bool \<times> IndexVector)" where
  "rotate_color_bottom pl x y pBegin pEnd oddDropDown isFlipX xColor yColor topz pair2 =
     (if oddDropDown \<or> y mod 2 = 0
      then ebind (efold (\<lambda>z. color_step pl isFlipX yColor pBegin pEnd (z - 2) z z)
                    (map (\<lambda>k. topz + 2 + 2 * k) [0 ..< (y - topz - 1) div 2]) (pair2, topz))
             (\<lambda>(pair3, w).
           ebind (swap w y pair3) (\<lambda>pair4.
           ebind (efold (\<lambda>z. color_step pl isFlipX xColor pBegin pEnd z (z - 2) z)
                    (map (\<lambda>k. y + 1 - 2 * k) [0 ..< (y - topz - 1) div 2]) (pair4, y))
             (\<lambda>(pair5, w'). Inr (True, pair5))))
      else ebind (efold (\<lambda>z pr. ebind (ASSERT (pBegin \<le> z \<and> z \<le> pEnd))
                                   (\<lambda>_. swap z (z - 2) pr))
                    (map (\<lambda>k. topz - 2 * k) [0 ..< (topz - (x + 2)) div 2]) pair2)
             (\<lambda>pair3.
           ebind (swap topz y pair3) (\<lambda>pair4. Inr (True, pair4))))"

definition RotateColor ::
  "PlayerVector \<Rightarrow> IndexVector \<Rightarrow> nat \<Rightarrow> nat \<Rightarrow> nat \<Rightarrow> nat \<Rightarrow> bool \<Rightarrow> bool
   \<Rightarrow> error + (bool \<times> IndexVector)" where
  "RotateColor pl pair x y pBegin pEnd oddDropDown oddPullUp =
     (if x div 2 + 1 \<ge> y div 2 then Inr (False, pair)
      else ebind (player_at pl pair x) (\<lambda>px.
           ebind (player_at pl pair y) (\<lambda>py.
      if score px \<noteq> score py then Inr (False, pair)
      else
        let xColor = toupper_c (if str0 (due_color px) = CHR ''x'' then FlipColor (str0 (due_color py))
                                else str0 (due_color px));
            yColor = toupper_c (if str0 (due_color py) = CHR ''x'' then FlipColor (str0 (due_color px))
                                else str0 (due_color py))
        in
        if xColor = yColor then Inr (False, pair)
        else
          ebind (ASSERT (xColor \<noteq> CHR ''X'' \<and> yColor \<noteq> CHR ''X'')) (\<lambda>_.
          let isFlipX = (xColor = toupper_c (str0 (due_color px))
                         \<and> yColor = toupper_c (str0 (due_color py))) in
          ebind (rotate_color_top pl pair x y oddPullUp isFlipX xColor px) (\<lambda>r.
          case r of
            None \<Rightarrow> Inr (False, pair)
          | Some (topz, pair2) \<Rightarrow>
              ebind (ASSERT (topz mod 2 = 1)) (\<lambda>_.
              rotate_color_bottom pl x y pBegin pEnd oddDropDown isFlipX xColor yColor topz
                pair2))))))"

section \<open>The optimiser\<close>

text \<open>\<^verbatim>\<open>CostFunction\<close> computes several of its counters in floating point
  (\<^verbatim>\<open>pow\<close> in \<^verbatim>\<open>Multiple\<close>, \<^verbatim>\<open>round\<close> and \<^verbatim>\<open>float\<close> sums in \<^verbatim>\<open>UnequalScores\<close>).  The
  optimiser and \<^verbatim>\<open>FindPairings\<close> take it as the parameter \<open>cf\<close>: what is proved of them
  holds for every cost function, the one of the source included.  The arguments are
  those of the source (players, pairing, remaining rounds, \<^verbatim>\<open>pBegin\<close>, \<^verbatim>\<open>pEnd\<close>,
  \<^verbatim>\<open>doCodes\<close>, \<^verbatim>\<open>usePairableCost\<close>); the result is the cost, the set \<^verbatim>\<open>costPlayers\<close> and the
  warning codes of the players, the only field of the players that the cost function
  writes, and only when \<^verbatim>\<open>doCodes\<close> is set.\<close>

type_synonym cost_fun =
  "PlayerVector \<Rightarrow> IndexVector \<Rightarrow> nat \<Rightarrow> nat \<Rightarrow> nat \<Rightarrow> bool \<Rightarrow> bool
   \<Rightarrow> error + (Cost \<times> nat set \<times> string list)"

definition set_warn_codes :: "PlayerVector \<Rightarrow> string list \<Rightarrow> PlayerVector" where
  "set_warn_codes pl codes = map (\<lambda>(p, w). p\<lparr>warn_codes := w\<rparr>) (zip pl (codes @ map warn_codes (drop (length codes) pl)))"

text \<open>The state of the search.  \<open>accepted\<close> lists the costs that \<^verbatim>\<open>bestCost\<close> has held, the
  latest first: the cost of the starting pairing and those of the accepted candidates.
  The source has no such variable and nothing reads it.\<close>

record search_state =
  bestPair :: IndexVector
  bestCost :: Cost
  bestCostPlayers :: "nat set"
  isFoundBetter :: bool
  accepted :: "Cost list"

text \<open>The step to the next index tuple, at the label \<^verbatim>\<open>nextI\<close>.\<close>

fun advance :: "PlayerVector \<Rightarrow> IndexVector \<Rightarrow> nat \<Rightarrow> nat \<Rightarrow> IndexVector \<Rightarrow> error + IndexVector" where
  "advance pl bp pBegin pEnd [] = Inr []"
| "advance pl bp pBegin pEnd (a # rest) =
     (if a + 1 \<ge> pEnd
      then ebind (advance pl bp pBegin pEnd rest) (\<lambda>r. Inr (pBegin # r))
      else ebind (player_at pl bp (a + 1)) (\<lambda>p.
             if play_id p = BYE_ID
             then ebind (advance pl bp pBegin pEnd rest) (\<lambda>r. Inr (pBegin # r))
             else Inr ((a + 1) # rest)))"

text \<open>The loop that leaves for \<^verbatim>\<open>nextI\<close> when the tuple is out of order or touches no
  player with a cost; \<open>prev\<close> is \<^verbatim>\<open>i[j-2]\<close>.\<close>

fun skip_tuple :: "int \<Rightarrow> IndexVector \<Rightarrow> nat set \<Rightarrow> nat option \<Rightarrow> IndexVector \<Rightarrow> error + bool" where
  "skip_tuple d bp costPlayers prev (i0 # i1 # rest) =
     (if (case prev of None \<Rightarrow> False | Some i' \<Rightarrow> (if d \<le> 1 then i0 \<le> i' else i0 < i'))
         \<or> (if d \<le> 1 then i1 \<le> i0 else i1 < i0)
      then Inr True
      else ebind (nth_chk bp i0) (\<lambda>q0.
           if q0 \<in> costPlayers then skip_tuple d bp costPlayers (Some i0) rest
           else ebind (nth_chk bp i1) (\<lambda>q1.
             if q1 \<in> costPlayers then skip_tuple d bp costPlayers (Some i0) rest
             else Inr True)))"
| "skip_tuple d bp costPlayers prev [i0] = Inl OutOfRange"
| "skip_tuple d bp costPlayers prev [] = Inr False"

fun maxChange :: "IndexVector \<Rightarrow> nat" where
  "maxChange (i0 # i1 # rest) = max (i1 - i0) (maxChange rest)"
| "maxChange _ = 0"

text \<open>The two loops that find the score group around the two indices.\<close>

fun group_begin :: "PlayerVector \<Rightarrow> IndexVector \<Rightarrow> rat \<Rightarrow> nat \<Rightarrow> nat \<Rightarrow> error + nat" where
  "group_begin pl tp sc pBegin 0 = Inr 0"
| "group_begin pl tp sc pBegin (Suc k) =
     (let sBegin = 2 * Suc k in
      if \<not> sBegin > pBegin then Inr sBegin
      else ebind (player_at pl tp (sBegin - 2)) (\<lambda>a.
           if score a \<noteq> sc then Inr sBegin
           else ebind (player_at pl tp (sBegin - 1)) (\<lambda>b.
             if score b \<noteq> sc then Inr sBegin else group_begin pl tp sc pBegin k)))"

fun group_end :: "PlayerVector \<Rightarrow> IndexVector \<Rightarrow> rat \<Rightarrow> nat list \<Rightarrow> nat \<Rightarrow> error + nat" where
  "group_end pl tp sc [] d = Inr d"
| "group_end pl tp sc (e # es) d =
     ebind (player_at pl tp e) (\<lambda>a.
       if score a \<noteq> sc then Inr e
       else ebind (player_at pl tp (e + 1)) (\<lambda>b.
         if score b \<noteq> sc then Inr e else group_end pl tp sc es d))"

text \<open>The vector \<^verbatim>\<open>shift\<close> of the moves 6 and 7.\<close>

definition color_shift :: "PlayerVector \<Rightarrow> IndexVector \<Rightarrow> nat \<Rightarrow> nat \<Rightarrow> error + bool list" where
  "color_shift pl tp pBegin pEnd2 =
     ebind (player_at pl tp pBegin) (\<lambda>p0.
     ebind (player_at pl tp (if pBegin mod 2 = 0 then pBegin + 1 else sz_sub pBegin 1)) (\<lambda>p1.
     ebind (AllocateColor p0 p1 (pBegin div 2 mod 2 = 0)) (\<lambda>startColor.
     efold (\<lambda>c shift.
              ebind (player_at pl tp c) (\<lambda>a.
              ebind (player_at pl tp (c + 1)) (\<lambda>b.
              ebind (AllocateColor a b (c div 2 mod 2 = 0)) (\<lambda>col.
              set_chk c (startColor \<noteq> col) shift))))
       (map (\<lambda>k. pBegin div 2 * 2 + 2 + 2 * k) [0 ..< (pEnd2 - (pBegin div 2 * 2 + 2) + 1) div 2])
       (replicate pEnd2 False))))"

text \<open>One swap pair \<^verbatim>\<open>(i[j], i[j+1])\<close> of the tuple under the move \<open>s\<close>, applied to
  \<^verbatim>\<open>testPair\<close>; \<open>None\<close> is the jump to \<^verbatim>\<open>nextS\<close>, which drops the candidate.\<close>

definition apply_move ::
  "PlayerVector \<Rightarrow> int \<Rightarrow> nat \<Rightarrow> nat \<Rightarrow> nat \<Rightarrow> bool \<Rightarrow> nat \<times> nat \<Rightarrow> IndexVector
   \<Rightarrow> error + IndexVector option" where
  "apply_move pl d s pBegin pEnd hasBye ij testPair =
     (case ij of (i0, i1) \<Rightarrow>
      if i0 \<ge> i1 then ebind (ASSERT (d \<ge> 2 \<and> i0 = i1)) (\<lambda>_. Inr (Some testPair))
      else
        let hasBye2 = (hasBye \<and> (i0 \<ge> sz_sub pEnd 2 \<or> i1 \<ge> sz_sub pEnd 2));
            pEnd2 = (if hasBye \<and> \<not> hasBye2 then sz_sub pEnd 2 else pEnd);
            noShift = replicate pEnd False
        in
        if s = 0 then ebind (swap i0 i1 testPair) (\<lambda>t. Inr (Some t))
        else if s = 1 \<or> s = 2 then
          ebind (if s = 1 then ebind (player_at pl testPair i1) (\<lambda>p. ASSERT (play_id p \<noteq> BYE_ID))
                 else Inr ()) (\<lambda>_.
          ebind ((if s = 1 then RotatePairDown else RotatePairUp)
                   testPair i0 i1 pBegin pEnd2 hasBye2 False noShift) (\<lambda>t. Inr (Some t)))
        else if s = 3 \<or> s = 4 \<or> s = 5 then
          ebind (player_at pl testPair i0) (\<lambda>p0.
          ebind (player_at pl testPair i1) (\<lambda>p1.
          if score p1 \<noteq> score p0 then Inr None
          else
            ebind (group_begin pl testPair (score p0) pBegin (i0 div 2)) (\<lambda>sBegin.
            ebind (if i0 = sBegin + 1
                   then ebind (player_at pl testPair sBegin) (\<lambda>q. Inr (score q > score p0))
                   else Inr False) (\<lambda>oddPullUp.
            ebind (group_end pl testPair (score p0)
                     (map (\<lambda>k. i1 div 2 * 2 + 2 + 2 * k) [0 ..< (pEnd2 - (i1 div 2 * 2 + 2) + 1) div 2])
                     (i1 div 2 * 2 + 2 + 2 * ((pEnd2 - (i1 div 2 * 2 + 2) + 1) div 2))) (\<lambda>sEnd.
            ebind (if i1 = sz_sub sEnd 2
                   then ebind (player_at pl testPair (sz_sub sEnd 1)) (\<lambda>q.
                          Inr (score q < score p0 \<or> play_id q = BYE_ID))
                   else Inr False) (\<lambda>oddDropDown.
            ebind (ASSERT (pBegin \<le> sBegin \<and> sBegin \<le> i0 \<and> i0 < i1 \<and> i1 \<le> sEnd \<and> sEnd \<le> pEnd2)) (\<lambda>_.
            ebind (ASSERT (\<not> hasBye2 \<or> sEnd = pEnd2)) (\<lambda>_.
            if s = 3
            then ebind (RotatePairDown testPair i0 i1 sBegin sEnd oddDropDown oddPullUp noShift)
                   (\<lambda>t. Inr (Some t))
            else if s = 4
            then ebind (RotatePairUp testPair i0 i1 sBegin sEnd oddDropDown oddPullUp noShift)
                   (\<lambda>t. Inr (Some t))
            else ebind (RotateColor pl testPair i0 i1 sBegin sEnd oddDropDown oddPullUp)
                   (\<lambda>(isChanged, t). Inr (if isChanged then Some t else None))))))))))
        else if s = 6 \<or> s = 7 then
          ebind (player_at pl testPair i1) (\<lambda>p.
          ebind (ASSERT (play_id p \<noteq> BYE_ID)) (\<lambda>_.
          ebind (color_shift pl testPair pBegin pEnd2) (\<lambda>shift.
          ebind ((if s = 6 then RotatePairDown else RotatePairUp)
                   testPair i0 i1 pBegin pEnd2 hasBye2 False shift) (\<lambda>t. Inr (Some t)))))
        else Inl AssertionFailed)"

fun apply_moves ::
  "PlayerVector \<Rightarrow> int \<Rightarrow> nat \<Rightarrow> nat \<Rightarrow> nat \<Rightarrow> bool \<Rightarrow> IndexVector \<Rightarrow> IndexVector
   \<Rightarrow> error + IndexVector option" where
  "apply_moves pl d s pBegin pEnd hasBye (i0 # i1 # rest) testPair =
     ebind (apply_move pl d s pBegin pEnd hasBye (i0, i1) testPair) (\<lambda>r.
       case r of None \<Rightarrow> Inr None
       | Some t \<Rightarrow> apply_moves pl d s pBegin pEnd hasBye rest t)"
| "apply_moves pl d s pBegin pEnd hasBye [i0] testPair = Inl OutOfRange"
| "apply_moves pl d s pBegin pEnd hasBye [] testPair = Inr (Some testPair)"

text \<open>"Don't put ranks out of order": the smaller rank first on every board.\<close>

fun order_ranks :: "IndexVector \<Rightarrow> error + IndexVector" where
  "order_ranks (a # b # rest) =
     ebind (order_ranks rest) (\<lambda>r. Inr (if a \<ge> b then b # a # r else a # b # r))"
| "order_ranks [a] = Inl OutOfRange"
| "order_ranks [] = Inr []"

text \<open>The block that evaluates a candidate and adopts it when its cost is less than the
  best cost (\<^verbatim>\<open>GREEDY_SEARCH\<close> is 1).\<close>

definition try_candidate ::
  "cost_fun \<Rightarrow> PlayerVector \<Rightarrow> nat \<Rightarrow> nat \<Rightarrow> nat \<Rightarrow> bool \<Rightarrow> IndexVector \<Rightarrow> search_state
   \<Rightarrow> error + search_state" where
  "try_candidate cf pl remainingRounds pBegin pEnd usePairableCost testPair0 st =
     ebind (order_ranks testPair0) (\<lambda>testPair1.
     ebind (SortBoards pl testPair1) (\<lambda>testPair.
     ebind (cf pl testPair remainingRounds pBegin pEnd False usePairableCost)
       (\<lambda>(testCost, testCostPlayers, codes).
       if Cost_less testCost (bestCost st)
       then Inr (st\<lparr>bestPair := testPair, bestCost := testCost,
                     bestCostPlayers := testCostPlayers, isFoundBetter := True,
                     accepted := testCost # accepted st\<rparr>)
       else Inr st)))"

definition move_step ::
  "cost_fun \<Rightarrow> PlayerVector \<Rightarrow> nat \<Rightarrow> nat \<Rightarrow> nat \<Rightarrow> bool \<Rightarrow> bool \<Rightarrow> int \<Rightarrow> IndexVector \<Rightarrow> nat
   \<Rightarrow> search_state \<Rightarrow> error + search_state" where
  "move_step cf pl remainingRounds pBegin pEnd usePairableCost hasBye d iv s st =
     ebind (apply_moves pl d s pBegin pEnd hasBye iv (bestPair st)) (\<lambda>r.
       case r of None \<Rightarrow> Inr st
       | Some testPair \<Rightarrow> try_candidate cf pl remainingRounds pBegin pEnd usePairableCost testPair st)"

text \<open>The loop \<^verbatim>\<open>while (!bestCost.IsZero())\<close>; every round takes one unit of fuel.\<close>

fun search_while ::
  "nat \<Rightarrow> cost_fun \<Rightarrow> PlayerVector \<Rightarrow> nat \<Rightarrow> nat \<Rightarrow> nat \<Rightarrow> bool \<Rightarrow> bool \<Rightarrow> int \<Rightarrow> IndexVector
   \<Rightarrow> search_state \<Rightarrow> error + search_state" where
  "search_while 0 cf pl remainingRounds pBegin pEnd usePairableCost hasBye d iv st = Inl OutOfFuel"
| "search_while (Suc fuel) cf pl remainingRounds pBegin pEnd usePairableCost hasBye d iv st =
     (if IsZero (bestCost st) then Inr st
      else ebind (advance pl (bestPair st) pBegin pEnd iv) (\<lambda>iv'.
        if iv' = replicate (2 * nat d) pBegin then Inr st
        else ebind (skip_tuple d (bestPair st) (bestCostPlayers st) None iv') (\<lambda>skip.
          if skip
          then search_while fuel cf pl remainingRounds pBegin pEnd usePairableCost hasBye d iv' st
          else ebind (efold (move_step cf pl remainingRounds pBegin pEnd usePairableCost hasBye d iv')
                        [0 ..< (if maxChange iv' \<le> 2 then 1 else 8)] st) (\<lambda>st'.
               search_while fuel cf pl remainingRounds pBegin pEnd usePairableCost hasBye d iv' st'))))"

text \<open>The loop \<^verbatim>\<open>for (int d = 1; pBegin < pEnd && d <= depth; ++d)\<close>, which repeats a depth
  after an improvement; every round takes one unit of fuel.\<close>

fun search_depth ::
  "nat \<Rightarrow> nat \<Rightarrow> cost_fun \<Rightarrow> PlayerVector \<Rightarrow> nat \<Rightarrow> nat \<Rightarrow> nat \<Rightarrow> bool \<Rightarrow> bool \<Rightarrow> int \<Rightarrow> int
   \<Rightarrow> search_state \<Rightarrow> error + search_state" where
  "search_depth 0 fw cf pl remainingRounds pBegin pEnd usePairableCost hasBye depth d st = Inl OutOfFuel"
| "search_depth (Suc fuel) fw cf pl remainingRounds pBegin pEnd usePairableCost hasBye depth d st =
     (if \<not> (pBegin < pEnd \<and> d \<le> depth) then Inr st
      else ebind (search_while fw cf pl remainingRounds pBegin pEnd usePairableCost hasBye d
                    (replicate (2 * nat d) pBegin) (st\<lparr>isFoundBetter := False\<rparr>)) (\<lambda>st'.
           search_depth fuel fw cf pl remainingRounds pBegin pEnd usePairableCost hasBye depth
             (if isFoundBetter st' then d else d + 1) st'))"

text \<open>The search of \<^verbatim>\<open>MinimizePairingCost\<close> up to \<^verbatim>\<open>pair = bestPair\<close>; the result is the
  final state and \<^verbatim>\<open>pEnd\<close>.\<close>

definition minimize_pass ::
  "nat \<Rightarrow> cost_fun \<Rightarrow> PlayerVector \<Rightarrow> IndexVector \<Rightarrow> nat \<Rightarrow> int \<Rightarrow> nat \<Rightarrow> nat \<Rightarrow> bool
   \<Rightarrow> error + (search_state \<times> nat)" where
  "minimize_pass fuel cf pl pair remainingRounds depth pBegin pEndConst usePairableCost =
     (let hasBye = (pEndConst mod 2 \<noteq> 0) in
      ebind (if hasBye \<and> pEndConst < length pair
             then ebind (player_at pl pair pEndConst) (\<lambda>p.
                    Inr (if play_id p = BYE_ID then pEndConst + 1 else pEndConst))
             else Inr pEndConst) (\<lambda>pEnd.
      ebind (ASSERT (pBegin mod 2 = 0 \<and> pEnd mod 2 = 0)) (\<lambda>_.
      ebind (ASSERT (pBegin \<le> pEnd \<and> pEnd \<le> length pair)) (\<lambda>_.
      ebind (cf pl pair remainingRounds pBegin pEnd False usePairableCost) (\<lambda>(c, cp, codes).
      ebind (search_depth fuel fuel cf pl remainingRounds pBegin pEnd usePairableCost hasBye depth 1
               \<lparr>bestPair = pair, bestCost = c, bestCostPlayers = cp, isFoundBetter = False,
                accepted = [c]\<rparr>) (\<lambda>st.
      Inr (st, pEnd)))))))"

text \<open>\<^verbatim>\<open>MinimizePairingCost\<close>: a search without the pairable lookahead and, when the
  lookahead changes the cost of its result, a second search with it.  The result is the
  player vector with its warning codes, the pairing, the cost and, for each search in
  turn, the costs of the pairings it held as the best one: that of the pairing it started
  from and then those of the candidates it accepted.\<close>

definition MinimizePairingCost ::
  "nat \<Rightarrow> cost_fun \<Rightarrow> PlayerVector \<Rightarrow> IndexVector \<Rightarrow> nat \<Rightarrow> int \<Rightarrow> nat \<Rightarrow> nat
   \<Rightarrow> error + (PlayerVector \<times> IndexVector \<times> Cost \<times> Cost list list)" where
  "MinimizePairingCost fuel cf pl pair remainingRounds depth pBegin pEndConst =
     ebind (minimize_pass fuel cf pl pair remainingRounds depth pBegin pEndConst False) (\<lambda>(st1, pEnd).
     ebind (cf pl (bestPair st1) remainingRounds pBegin pEnd False True) (\<lambda>(c, cp, codes).
     ebind (if Cost_neq c (bestCost st1)
            then ebind (minimize_pass fuel cf pl (bestPair st1) remainingRounds depth pBegin pEnd True)
                   (\<lambda>(st2, pEnd'). Inr (bestPair st2, [rev (accepted st1), rev (accepted st2)]))
            else Inr (bestPair st1, [rev (accepted st1)])) (\<lambda>(pair', trace).
     ebind (cf pl pair' remainingRounds pBegin pEnd True True) (\<lambda>(c', cp', codes').
     Inr (set_warn_codes pl codes', pair', c', trace)))))"

section \<open>FindPairings\<close>

text \<open>The boards are put in the order of their better player, the boards with a bye
  last; \<open>y = 2 * k\<close> in the inner loop.\<close>

fun rank_board_down :: "PlayerVector \<Rightarrow> nat \<Rightarrow> IndexVector \<Rightarrow> error + IndexVector" where
  "rank_board_down pl 0 pair = Inr pair"
| "rank_board_down pl (Suc k) pair =
     (let y = 2 * Suc k in
      ebind (player_at pl pair (y - 2)) (\<lambda>a2.
      ebind (player_at pl pair (y - 1)) (\<lambda>a1.
      ebind (Player_less a2 a1) (\<lambda>lt1.
      ebind (player_at pl pair y) (\<lambda>b0.
      ebind (player_at pl pair (y + 1)) (\<lambda>b1.
      ebind (Player_less b0 b1) (\<lambda>lt2.
      let z1 = (if lt1 then a2 else a1);
          z2 = (if lt2 then b0 else b1);
          bye1 = (play_id a2 = BYE_ID \<or> play_id a1 = BYE_ID);
          bye2 = (play_id b0 = BYE_ID \<or> play_id b1 = BYE_ID)
      in ebind (if bye1 < bye2 then Inr True
                else if bye1 = bye2 then Player_less z1 z2
                else Inr False) (\<lambda>stop.
         if stop then Inr pair
         else ebind (swap y (y - 2) pair) (\<lambda>pair1.
              ebind (swap (y + 1) (y - 1) pair1) (\<lambda>pair2.
              rank_board_down pl k pair2))))))))))"

definition sort_by_rank :: "PlayerVector \<Rightarrow> IndexVector \<Rightarrow> error + IndexVector" where
  "sort_by_rank pl pair = efold (rank_board_down pl) [1 ..< (length pair + 1) div 2] pair"

definition upd :: "nat \<Rightarrow> ('a \<Rightarrow> 'a) \<Rightarrow> 'a list \<Rightarrow> error + 'a list" where
  "upd i f xs = (if i < length xs then Inr (xs[i := f (xs ! i)]) else Inl OutOfRange)"

text \<open>\<^verbatim>\<open>integer\<close> is \<^verbatim>\<open>int32_t\<close>.  The board number \<^verbatim>\<open>firstBoardNum + x / 2\<close> is computed
  in \<^verbatim>\<open>size_t\<close>, the type of \<open>x\<close>, and converted to the 32-bit \<^verbatim>\<open>board_num\<close>: it wraps
  around.\<close>

definition to_int32 :: "int \<Rightarrow> int" where
  "to_int32 i = (i + 2 ^ 31) mod 2 ^ 32 - 2 ^ 31"

definition board_number :: "int \<Rightarrow> nat \<Rightarrow> int" where
  "board_number firstBoardNum k = to_int32 (int (to_size_t (firstBoardNum + int k)))"

text \<open>The body of the loop "set boards" for the board \<open>k\<close> (\<^verbatim>\<open>x = 2 * k\<close>).\<close>

definition set_board :: "IndexVector \<Rightarrow> int \<Rightarrow> nat \<Rightarrow> PlayerVector \<Rightarrow> error + PlayerVector" where
  "set_board pair firstBoardNum k pl =
     ebind (nth_chk pair (2 * k)) (\<lambda>i0.
     ebind (nth_chk pl i0) (\<lambda>p0.
     ebind (ASSERT (play_id p0 \<noteq> BYE_ID)) (\<lambda>_.
     ebind (nth_chk pair (2 * k + 1)) (\<lambda>i1.
     ebind (upd i1 (\<lambda>p. p\<lparr>board_num := board_number firstBoardNum k\<rparr>) pl) (\<lambda>pl1.
     ebind (upd i0 (\<lambda>p. p\<lparr>board_num := board_number firstBoardNum k\<rparr>) pl1) (\<lambda>pl2.
     ebind (AllocateColor (pl2 ! i1) (pl2 ! i0) (k mod 2 = 0)) (\<lambda>c.
     ebind (upd i1 (\<lambda>p. p\<lparr>board_color := c\<rparr>) pl2) (\<lambda>pl3.
     ebind (upd i0 (\<lambda>p. p\<lparr>board_color := FlipColor c\<rparr>) pl3) (\<lambda>pl4.
     ebind (ASSERT (board_num (pl4 ! i0) = board_num (pl4 ! i1))) (\<lambda>_.
     ebind (ASSERT ((board_color (pl4 ! i0) = CHR ''W'' \<and> board_color (pl4 ! i1) = CHR ''B'')
                    \<or> (board_color (pl4 ! i0) = CHR ''B'' \<and> board_color (pl4 ! i1) = CHR ''W''))) (\<lambda>_.
     Inr pl4)))))))))))"

fun boards_of :: "'a list \<Rightarrow> ('a \<times> 'a) list" where
  "boards_of (a # b # rest) = (a, b) # boards_of rest"
| "boards_of _ = []"

definition same_player :: "Player \<Rightarrow> Player \<Rightarrow> bool" where
  "same_player p q = (play_id p = play_id q \<and> reentry p = reentry q)"

text \<open>The assertions of the loop "set colors".\<close>

definition check_colors :: "PlayerVector \<Rightarrow> IndexVector \<Rightarrow> error + unit" where
  "check_colors pl pair =
     ebind (emap (nth_chk pl) pair) (\<lambda>ps.
       ASSERT (list_all (\<lambda>p.
                 (board_color p = CHR ''W'' \<or> board_color p = CHR ''B'' \<or> play_id p = BYE_ID)
                 \<and> list_all (\<lambda>(q0, q1).
                      play_id q1 = BYE_ID
                      \<or> (board_num q0 = board_num q1
                          \<and> (same_player q0 p \<or> same_player q1 p \<or> board_num q0 \<noteq> board_num p)))
                     (boards_of ps)) pl))"

text \<open>The end of \<^verbatim>\<open>FindPairings\<close>, from "set boards and colors".\<close>

definition set_boards_and_colors ::
  "PlayerVector \<Rightarrow> IndexVector \<Rightarrow> int \<Rightarrow> error + (PlayerVector \<times> IndexVector)" where
  "set_boards_and_colors pl pair0 firstBoardNum =
     ebind (ASSERT (length pair0 mod 2 = 0)) (\<lambda>_.
     ebind (sort_by_rank pl pair0) (\<lambda>pair.
     ebind (efold (set_board pair firstBoardNum) [0 ..< length pair div 2] pl) (\<lambda>pl1.
     ebind (check_colors pl1 pair) (\<lambda>_.
     ebind (ASSERT (play_id (last pl1) = BYE_ID)) (\<lambda>_.
     Inr (pl1[length pl1 - 1 := (last pl1)\<lparr>board_num := - 1\<rparr>], pair))))))"

text \<open>The four checks around \<^verbatim>\<open>FirstPairings\<close>.\<close>

definition check_ends :: "PlayerVector \<Rightarrow> IndexVector \<Rightarrow> nat \<Rightarrow> error + unit" where
  "check_ends pl pair nplayers =
     ebind (if nplayers > 0
            then ebind (player_at pl pair (nplayers - 1)) (\<lambda>p. ASSERT (\<not> bye_request p \<and> \<not> paired p))
            else Inr ()) (\<lambda>_.
     if nplayers < length pair
     then ebind (player_at pl pair nplayers) (\<lambda>p.
            if play_id p \<noteq> BYE_ID then ASSERT (bye_request p \<or> paired p) else Inr ())
     else Inr ())"

definition INT_MAX :: int where
  "INT_MAX = 2147483647"

definition lowBoard :: "PlayerVector \<Rightarrow> int" where
  "lowBoard pl = fold (\<lambda>p low. if play_id p \<noteq> BYE_ID \<and> low > board_num p then board_num p else low)
                   pl INT_MAX"

text \<open>\<^verbatim>\<open>FindPairings\<close>.  The result is the player vector, the final pairing vector (a
  local variable of the source, empty on the round-robin path) and the cost.\<close>

definition FindPairings ::
  "nat \<Rightarrow> cost_fun \<Rightarrow> PlayerVector \<Rightarrow> int \<Rightarrow> int \<Rightarrow> int \<Rightarrow> bool \<Rightarrow> bool
   \<Rightarrow> error + (PlayerVector \<times> IndexVector \<times> Cost)" where
  "FindPairings fuel cf pl0 totalRounds firstBoardNum0 depth useFirstPairings skipOptimize =
     ebind (check_multiround pl0) (\<lambda>_.
     case house_player pl0 of (plh, nplayers) \<Rightarrow>
     ebind (CanonicalPlayerVector plh) (\<lambda>pl.
     if trn_type (hd pl) = CHR ''R'' \<or> trn_type (hd pl) = CHR ''D''
     then ebind (RoundRobinPairings pl totalRounds firstBoardNum0) (\<lambda>(pl', c). Inr (pl', [], c))
     else
       let firstBoardNum = (if firstBoardNum0 = 0 then lowBoard pl else firstBoardNum0);
           remainingRounds = to_size_t (totalRounds - rnd (hd pl))
       in
       ebind (HintPairings pl True) (\<lambda>pair0.
       ebind (check_ends pl pair0 nplayers) (\<lambda>_.
       ebind (if useFirstPairings then FirstPairings pl pair0 nplayers else Inr pair0) (\<lambda>pair1.
       ebind (check_ends pl pair1 nplayers) (\<lambda>_.
       ebind (if skipOptimize
              then ebind (cf pl pair1 remainingRounds 0 ((nplayers + 1) div 2 * 2) True True)
                     (\<lambda>(c, cp, codes). Inr (set_warn_codes pl codes, pair1, c))
              else ebind (MinimizePairingCost fuel cf pl pair1 remainingRounds depth 0 nplayers)
                     (\<lambda>(pl', pair', c, trace). Inr (pl', pair', c))) (\<lambda>(pl2, pair2, cost).
       ebind (set_boards_and_colors pl2 pair2 firstBoardNum) (\<lambda>(pl3, pair3).
       Inr (pl3, pair3, cost)))))))))"

section \<open>Example sections\<close>

text \<open>A Swiss player with a rating and a board hint, and a round-robin player.\<close>

definition example_swiss :: "int \<Rightarrow> int \<Rightarrow> int \<Rightarrow> Player" where
  "example_swiss pid rtg bn = (example_player pid 0 rtg 0)\<lparr>board_num := bn\<rparr>"

definition example_robin :: "int \<Rightarrow> int \<Rightarrow> Player" where
  "example_robin pid rtg = (example_player pid 0 rtg 0)\<lparr>trn_type := CHR ''R''\<rparr>"

definition example_swiss_section :: PlayerVector where
  "example_swiss_section =
     [example_swiss 1 2000 1, example_swiss 2 1800 1, example_swiss 3 1700 2,
      example_swiss 4 1500 2]"

definition example_robin_section :: PlayerVector where
  "example_robin_section = [example_robin 1 2000, example_robin 2 1800, example_robin 3 1700]"

text \<open>Two cost functions for the examples: one that counts in \<^verbatim>\<open>pairingCard\<close> the boards
  whose players are less than 250 rating points apart, and one that stops the program
  when it is called.\<close>

definition example_cost :: cost_fun where
  "example_cost pl pair remainingRounds pBegin pEnd doCodes usePairableCost =
     Inr (Cost_init\<lparr>pairingCard :=
            of_nat (length (filter (\<lambda>(a, b). \<bar>rating (pl ! a) - rating (pl ! b)\<bar> < 250)
                              (boards_of pair)))\<rparr>,
          set pair, map warn_codes pl)"

definition no_cost :: cost_fun where
  "no_cost pl pair remainingRounds pBegin pEnd doCodes usePairableCost = Inl AssertionFailed"

text \<open>A cost function that, like \<^verbatim>\<open>CostFunction\<close>, counts in \<^verbatim>\<open>cantPairPlayers\<close> only with
  the pairable lookahead: it counts there a pairing none of whose boards has players less
  than 250 rating points apart.\<close>

definition example_lookahead_cost :: cost_fun where
  "example_lookahead_cost pl pair remainingRounds pBegin pEnd doCodes usePairableCost =
     (let n = length (filter (\<lambda>(a, b). \<bar>rating (pl ! a) - rating (pl ! b)\<bar> < 250)
                        (boards_of pair))
      in Inr (Cost_init\<lparr>cantPairPlayers := (if usePairableCost \<and> n = 0 then 1 else 0),
                         pairingCard := of_nat n\<rparr>,
              set pair, map warn_codes pl))"

text \<open>The optimiser on the example section, from the pairing of the hint, with this cost
  function; the costs a result lists; the two counters of a cost that the examples use.\<close>

definition example_lookahead_run ::
  "error + (PlayerVector \<times> IndexVector \<times> Cost \<times> Cost list list)" where
  "example_lookahead_run =
     ebind (CanonicalPlayerVector example_swiss_section) (\<lambda>pl.
     ebind (HintPairings pl True) (\<lambda>pair.
     MinimizePairingCost 1000 example_lookahead_cost pl pair 3 1 0 4))"

definition result_trace ::
  "error + (PlayerVector \<times> IndexVector \<times> Cost \<times> Cost list list) \<Rightarrow> Cost list list" where
  "result_trace r = (case r of Inr (pl, pair, c, trace) \<Rightarrow> trace | Inl e \<Rightarrow> [])"

definition cost_key :: "Cost \<Rightarrow> int \<times> int" where
  "cost_key c = (sint (cantPairPlayers c), sint (pairingCard c))"

definition strictly_decreasing :: "Cost list \<Rightarrow> bool" where
  "strictly_decreasing cs = sorted_wrt (\<lambda>a b. Cost_less b a) cs"

text \<open>Round-robin and Swiss sections of other sizes.\<close>

definition example_robin_four :: PlayerVector where
  "example_robin_four =
     [example_robin 1 2000, example_robin 2 1800, example_robin 3 1700, example_robin 4 1500]"

definition example_swiss_three :: PlayerVector where
  "example_swiss_three = [example_swiss 1 2000 1, example_swiss 2 1800 1, example_swiss 3 1700 2]"

definition example_swiss_five :: PlayerVector where
  "example_swiss_five =
     [example_swiss 1 2000 1, example_swiss 2 1800 1, example_swiss 3 1700 2,
      example_swiss 4 1500 2, example_swiss 5 1400 3]"

definition example_swiss_unhinted :: PlayerVector where
  "example_swiss_unhinted = [example_swiss 1 2000 1, example_swiss 2 1800 (- 1)]"

text \<open>The identifier, board and colour of every player of a vector.\<close>

definition boards_and_colors :: "PlayerVector \<Rightarrow> (int \<times> int \<times> char) list" where
  "boards_and_colors pl = map (\<lambda>p. (play_id p, board_num p, board_color p)) pl"

section \<open>The boards of a pairing vector\<close>

text \<open>The board \<open>k\<close> of a pairing vector holds the players with the ranks at \<open>2 * k\<close> and
  \<open>2 * k + 1\<close>.  It is numbered in the player vector \<open>pl\<close> when the two are different
  players of \<open>pl\<close>, the first is not the bye, and both, the bye apart, have the board
  number \<^verbatim>\<open>firstBoardNum + k\<close> of the 32-bit arithmetic.\<close>

definition board_numbered :: "PlayerVector \<Rightarrow> IndexVector \<Rightarrow> int \<Rightarrow> nat \<Rightarrow> bool" where
  "board_numbered pl pair firstBoardNum k =
     (let i0 = pair ! (2 * k); i1 = pair ! (2 * k + 1) in
      i0 < length pl \<and> i1 < length pl \<and> i0 \<noteq> i1 \<and> play_id (pl ! i0) \<noteq> BYE_ID
      \<and> board_num (pl ! i0) = board_number firstBoardNum k
      \<and> (play_id (pl ! i1) \<noteq> BYE_ID \<longrightarrow> board_num (pl ! i1) = board_number firstBoardNum k))"

text \<open>It is coloured when one of the two has White and the other Black, and the player
  who meets the bye has White.\<close>

definition board_coloured :: "PlayerVector \<Rightarrow> IndexVector \<Rightarrow> nat \<Rightarrow> bool" where
  "board_coloured pl pair k =
     (let c0 = board_color (pl ! (pair ! (2 * k)));
          c1 = board_color (pl ! (pair ! (2 * k + 1)))
      in ((c0 = CHR ''W'' \<and> c1 = CHR ''B'') \<or> (c0 = CHR ''B'' \<and> c1 = CHR ''W''))
         \<and> (play_id (pl ! (pair ! (2 * k + 1))) = BYE_ID \<longrightarrow> c0 = CHR ''W'' \<and> c1 = CHR ''B''))"

section \<open>Invariants of the pairing of the hint\<close>

text \<open>The first three keys by which \<^verbatim>\<open>SortBoards\<close> compares two boards, as a number: whether
  the first player of the board is paired, whether the second is the bye, and whether the
  first requests a bye.\<close>

definition sort_key_of :: "Player \<Rightarrow> Player \<Rightarrow> nat" where
  "sort_key_of x y = (if paired x then 4 else 0) + (if play_id y = BYE_ID then 2 else 0)
                     + (if bye_request x then 1 else 0)"

definition board_key :: "PlayerVector \<Rightarrow> IndexVector \<Rightarrow> nat \<Rightarrow> nat" where
  "board_key pl pair k = sort_key_of (pl ! (pair ! (2 * k))) (pl ! (pair ! (2 * k + 1)))"

definition boards_sorted :: "PlayerVector \<Rightarrow> IndexVector \<Rightarrow> bool" where
  "boards_sorted pl pair = sorted (map (board_key pl pair) [0 ..< length pair div 2])"

text \<open>The boards that \<^verbatim>\<open>HintPairings\<close> makes: a player with the bye, two players who want
  a pairing, or two paired players.\<close>

definition board_form :: "PlayerVector \<Rightarrow> nat \<Rightarrow> nat \<Rightarrow> bool" where
  "board_form pl a b =
     (a < length pl - 1
      \<and> (b = length pl - 1
          \<or> (b < length pl - 1
              \<and> ((wants_pairing (pl ! a) \<and> wants_pairing (pl ! b))
                  \<or> (paired (pl ! a) \<and> paired (pl ! b))))))"

definition boards_formed :: "PlayerVector \<Rightarrow> IndexVector \<Rightarrow> bool" where
  "boards_formed pl pair = list_all (\<lambda>(a, b). board_form pl a b) (boards_of pair)"

text \<open>The three vectors that the loop of \<^verbatim>\<open>HintPairings\<close> fills: \<^verbatim>\<open>pair\<close> and \<^verbatim>\<open>single\<close>
  hold players who want a pairing, \<^verbatim>\<open>other\<close> holds whole boards.\<close>

definition hint_form :: "PlayerVector \<Rightarrow> hint_acc \<Rightarrow> bool" where
  "hint_form pl acc =
     (case acc of (pair, single, other) \<Rightarrow>
        list_all (\<lambda>i. i < length pl - 1 \<and> wants_pairing (pl ! i)) (pair @ single)
        \<and> length other mod 2 = 0 \<and> boards_formed pl other)"

section \<open>Invariants of the search\<close>

text \<open>The costs held as the best one so far, the latest first, end with the current best
  cost and increase towards the start of the search.\<close>

definition trace_ok :: "search_state \<Rightarrow> bool" where
  "trace_ok st = (accepted st \<noteq> [] \<and> hd (accepted st) = bestCost st
                  \<and> sorted_wrt Cost_less (accepted st))"

text \<open>The pairing vector and the players of a result of \<^verbatim>\<open>FindPairings\<close>, empty when the
  program has stopped.\<close>

definition result_pairing :: "error + (PlayerVector \<times> IndexVector \<times> Cost) \<Rightarrow> IndexVector" where
  "result_pairing r = (case r of Inr (pl, pair, c) \<Rightarrow> pair | Inl e \<Rightarrow> [])"

definition result_players :: "error + (PlayerVector \<times> IndexVector \<times> Cost) \<Rightarrow> PlayerVector" where
  "result_players r = (case r of Inr (pl, pair, c) \<Rightarrow> pl | Inl e \<Rightarrow> [])"

section \<open>Tiebreaks\<close>

text \<open>\<^verbatim>\<open>smallint\<close> is \<^verbatim>\<open>int16_t\<close>, \<^verbatim>\<open>real\<close> is \<^verbatim>\<open>float\<close>.  The scores are sums of halves and
  quarters, which \<^verbatim>\<open>float\<close> and \<^verbatim>\<open>double\<close> hold exactly, so they are rationals here.  The
  results that the program rounds, the quotients and the sum of the performance
  ratings, go through a rounding function \<open>rd\<close>, a parameter of the model.\<close>

type_synonym smallint = "16 word"

record PlayerResult =
  player :: string
  rating :: smallint
  opponent :: "string list"
  color :: string
  result :: string
  rawScore :: rat
  adjScore :: rat
  cumScore :: rat
  byeScore :: rat
  head2head :: rat
  byeCnt :: smallint
  blackCnt :: smallint
  kashdan :: smallint
  winCnt :: smallint
  firstLossRound :: nat
  performanceRating :: rat
  coinFlip :: rat
  tiebreak_code :: string
  tiebreak_value :: "rat list"

text \<open>The map in the order of its iteration; the keys of a map are pairwise different.\<close>

type_synonym PlayerResultMap = "(string \<times> PlayerResult) list"

definition c_trunc :: "rat \<Rightarrow> int" where
  "c_trunc x = (if x \<ge> 0 then \<lfloor>x\<rfloor> else \<lceil>x\<rceil>)"

definition c_round :: "rat \<Rightarrow> rat" where
  "c_round x = of_int (if x \<ge> 0 then \<lfloor>x + 1 / 2\<rfloor> else \<lceil>x - 1 / 2\<rceil>)"

definition is_black :: "PlayerResult \<Rightarrow> nat \<Rightarrow> smallint" where
  "is_black p x = (if color p ! x = CHR ''B'' then 1 else 0)"

text \<open>One round of the loop of \<^verbatim>\<open>TiebreakPlayer\<close>.\<close>

definition player_step :: "nat \<Rightarrow> PlayerResult \<Rightarrow> error + PlayerResult" where
  "player_step x p0 =
     (let p = p0\<lparr>firstLossRound := firstLossRound p0 + (if firstLossRound p0 = x then 1 else 0)\<rparr>;
          r = result p ! x
      in ebind
        (if r = CHR ''$'' then
           Inr (p\<lparr>rawScore := rawScore p + 2, adjScore := adjScore p + 2,
                  kashdan := kashdan p + 8, blackCnt := blackCnt p + 1,
                  winCnt := winCnt p + 2\<rparr>)
         else if r = CHR ''#'' then
           Inr (p\<lparr>rawScore := rawScore p + 3 / 2, adjScore := adjScore p + 3 / 2,
                  kashdan := kashdan p + 6, blackCnt := blackCnt p + 1,
                  winCnt := winCnt p + 1\<rparr>)
         else if r = CHR ''%'' then
           Inr (p\<lparr>rawScore := rawScore p + 1, adjScore := adjScore p + 1,
                  kashdan := kashdan p + 4, blackCnt := blackCnt p + 1\<rparr>)
         else if r = CHR ''W'' \<or> r = CHR ''N'' then
           Inr (p\<lparr>rawScore := rawScore p + 1, adjScore := adjScore p + 1,
                  kashdan := kashdan p + 4, blackCnt := blackCnt p + is_black p x,
                  winCnt := winCnt p + 1\<rparr>)
         else if r = CHR ''B'' \<or> r = CHR ''X'' then
           Inr (p\<lparr>rawScore := rawScore p + 1, adjScore := adjScore p + 1 / 2,
                  byeScore := byeScore p + 1, byeCnt := byeCnt p + 1\<rparr>)
         else if r = CHR ''D'' \<or> r = CHR ''R'' then
           Inr (p\<lparr>rawScore := rawScore p + 1 / 2, adjScore := adjScore p + 1 / 2,
                  kashdan := kashdan p + 2, blackCnt := blackCnt p + is_black p x\<rparr>)
         else if r = CHR ''H'' \<or> r = CHR ''Z'' then
           Inr (p\<lparr>rawScore := rawScore p + 1 / 2, adjScore := adjScore p + 1 / 2,
                  byeScore := byeScore p + 1 / 2, byeCnt := byeCnt p + 1\<rparr>)
         else if r = CHR ''L'' \<or> r = CHR ''S'' then
           Inr (p\<lparr>kashdan := kashdan p + 1, blackCnt := blackCnt p + is_black p x,
                  firstLossRound := firstLossRound p - (if firstLossRound p = x + 1 then 1 else 0)\<rparr>)
         else if r = CHR ''U'' \<or> r = CHR ''F'' \<or> r = CHR ''*'' then
           Inr (p\<lparr>adjScore := adjScore p + 1 / 2, byeCnt := byeCnt p + 1\<rparr>)
         else Inl AssertionFailed)
        (\<lambda>p. Inr (p\<lparr>cumScore := cumScore p + rawScore p\<rparr>)))"

definition TiebreakPlayer :: "PlayerResult \<Rightarrow> string \<Rightarrow> error + PlayerResult" where
  "TiebreakPlayer p byeKey =
     (let rounds = length (color p) in
      ebind (ASSERT (length (opponent p) = rounds \<and> length (result p) = rounds)) (\<lambda>_.
      let p0 = p\<lparr>rawScore := 0, adjScore := 0, cumScore := 0, byeScore := 0, kashdan := 0,
                 byeCnt := 0, blackCnt := 0, winCnt := 0, firstLossRound := 0,
                 coinFlip := - 1\<rparr>
      in if player p = byeKey then ebind (ASSERT (rating p = 0)) (\<lambda>_. Inr p0)
         else ebind (efold player_step [0 ..< rounds] p0) (\<lambda>p1.
              Inr (p1\<lparr>cumScore := cumScore p1 - byeScore p1,
                       firstLossRound := firstLossRound p1 + 1\<rparr>))))"

text \<open>\<^verbatim>\<open>rand()\<close> returns a number from 0 to \<^verbatim>\<open>RAND_MAX\<close>; the numbers it will return are the
  list \<open>rands\<close>, and the program has not finished when the list is used up.  The loop over
  the map stops at the first entry with the player of \<open>p\<close>.\<close>

fun coin_flip_loop ::
  "PlayerResultMap \<Rightarrow> PlayerResult \<Rightarrow> nat list \<Rightarrow> error + (PlayerResult \<times> nat list)" where
  "coin_flip_loop prm p [] = Inl OutOfFuel"
| "coin_flip_loop prm p (r # rands) =
     (if list_ex (\<lambda>(k, q). coinFlip q = of_nat r)
           (takeWhile (\<lambda>(k, q). player q \<noteq> player p) prm)
      then coin_flip_loop prm p rands
      else Inr (p\<lparr>coinFlip := of_nat r\<rparr>, rands))"

definition TiebreakCoinFlip ::
  "PlayerResultMap \<Rightarrow> PlayerResult \<Rightarrow> string \<Rightarrow> nat list
   \<Rightarrow> error + (PlayerResult \<times> nat list)" where
  "TiebreakCoinFlip prm p byeKey rands =
     (if player p = byeKey then Inr (p, rands) else coin_flip_loop prm p rands)"

text \<open>\<^verbatim>\<open>prm.find(key)->second\<close>; the key has to be in the map.\<close>

definition find_result :: "PlayerResultMap \<Rightarrow> string \<Rightarrow> error + PlayerResult" where
  "find_result prm key = (case map_of prm key of None \<Rightarrow> Inl OutOfRange | Some p \<Rightarrow> Inr p)"

definition is_half :: "rat \<Rightarrow> bool" where
  "is_half s = (s * 2 = of_int (c_trunc (s * 2)))"

text \<open>One round of the loop of \<^verbatim>\<open>TiebreakPerformance\<close> on \<^verbatim>\<open>head2head\<close>, \<^verbatim>\<open>ratingSum\<close> and
  \<^verbatim>\<open>playerCnt\<close>.\<close>

definition performance_step ::
  "PlayerResultMap \<Rightarrow> PlayerResult \<Rightarrow> nat \<Rightarrow> rat \<times> rat \<times> nat \<Rightarrow> error + (rat \<times> rat \<times> nat)" where
  "performance_step prm p x st =
     (case st of (h2h, ratingSum, playerCnt) \<Rightarrow>
      ebind (find_result prm (opponent p ! x)) (\<lambda>opp.
      ebind (ASSERT (player opp \<noteq> player p)) (\<lambda>_.
      ebind (ASSERT (is_half (rawScore opp))) (\<lambda>_.
      let r = result p ! x in
      if rawScore opp = rawScore p then
        (if r = CHR ''$'' then Inr (h2h + 2, ratingSum, playerCnt)
         else if r = CHR ''#'' then Inr (h2h + 1, ratingSum, playerCnt)
         else if r = CHR ''%'' then Inr (h2h, ratingSum, playerCnt)
         else if r = CHR ''W'' \<or> r = CHR ''N'' then Inr (h2h + 1, ratingSum, playerCnt)
         else if r = CHR ''B'' \<or> r = CHR ''X'' then Inr st
         else if r = CHR ''D'' \<or> r = CHR ''R'' then Inr (h2h, ratingSum, playerCnt)
         else if r = CHR ''H'' \<or> r = CHR ''Z'' then Inr st
         else if r = CHR ''L'' \<or> r = CHR ''S'' then Inr (h2h - 1, ratingSum, playerCnt)
         else if r = CHR ''U'' \<or> r = CHR ''F'' \<or> r = CHR ''*'' then Inr st
         else Inl AssertionFailed)
      else
        (let counted = (\<lambda>d. Inr (h2h, ratingSum + d + of_int (sint (rating opp)), playerCnt + 1)) in
         if r = CHR ''$'' then counted 400
         else if r = CHR ''#'' then counted 200
         else if r = CHR ''%'' then counted 0
         else if r = CHR ''W'' \<or> r = CHR ''N'' then counted 400
         else if r = CHR ''B'' \<or> r = CHR ''X'' then Inr st
         else if r = CHR ''D'' \<or> r = CHR ''R'' then counted 0
         else if r = CHR ''H'' \<or> r = CHR ''Z'' then Inr st
         else if r = CHR ''L'' \<or> r = CHR ''S'' then counted (- 400)
         else if r = CHR ''U'' \<or> r = CHR ''F'' \<or> r = CHR ''*'' then Inr st
         else Inl AssertionFailed)))))"

definition TiebreakPerformance ::
  "(rat \<Rightarrow> rat) \<Rightarrow> PlayerResultMap \<Rightarrow> PlayerResult \<Rightarrow> string \<Rightarrow> error + PlayerResult" where
  "TiebreakPerformance rd prm p byeKey =
     ebind (ASSERT (is_half (rawScore p))) (\<lambda>_.
     ebind (efold (performance_step prm p)
              (if player p \<noteq> byeKey then [0 ..< length (color p)] else []) (0, 0, 0))
       (\<lambda>(h2h, ratingSum, playerCnt).
       Inr (p\<lparr>head2head := h2h,
              performanceRating := (if playerCnt \<le> 0 then of_int (sint (rating p))
                                    else rd (ratingSum / of_nat playerCnt))\<rparr>)))"

definition TiebreakPlayed :: "char \<Rightarrow> bool" where
  "TiebreakPlayed r = (r \<notin> set ''BXHZUF*'')"

text \<open>The sums of \<^verbatim>\<open>TiebreakOpponent\<close>.\<close>

record opponent_sums =
  adj :: "rat list"
  adjSum :: rat
  cumSum :: rat
  ratSum :: rat
  perfSum :: rat
  partialScore :: rat
  playCnt :: nat

text \<open>The \<^verbatim>\<open>switch\<close> on the result has no \<^verbatim>\<open>break\<close> after the first four cases, nor after
  the draw: a case adds its own term and those of the cases below it, up to the next
  \<^verbatim>\<open>break\<close>.\<close>

definition partial_term :: "char \<Rightarrow> rat \<Rightarrow> error + rat" where
  "partial_term r s =
     (let tW = s; tP = (s / 2 + s / 2) + tW; tH = (s + s / 2) + tP; tD = (s + s) + tH in
      if r = CHR ''$'' then Inr tD
      else if r = CHR ''#'' then Inr tH
      else if r = CHR ''%'' then Inr tP
      else if r = CHR ''W'' \<or> r = CHR ''N'' then Inr tW
      else if r = CHR ''B'' \<or> r = CHR ''X'' then Inr 0
      else if r = CHR ''D'' \<or> r = CHR ''R'' then Inr (s / 2)
      else if r = CHR ''H'' \<or> r = CHR ''Z'' then Inr 0
      else if r = CHR ''L'' \<or> r = CHR ''S'' then Inr 0
      else if r = CHR ''U'' \<or> r = CHR ''F'' \<or> r = CHR ''*'' then Inr 0
      else Inl AssertionFailed)"

definition opponent_step ::
  "(rat \<Rightarrow> rat) \<Rightarrow> PlayerResultMap \<Rightarrow> PlayerResult \<Rightarrow> nat \<Rightarrow> opponent_sums
   \<Rightarrow> error + opponent_sums" where
  "opponent_step rd prm p x s =
     ebind (find_result prm (opponent p ! x)) (\<lambda>opp.
     let isPlayed = TiebreakPlayed (result p ! x);
         a = (if isPlayed then adjScore opp else 0);
         s1 = s\<lparr>adjSum := adjSum s + a, cumSum := cumSum s + cumScore opp, adj := adj s @ [a]\<rparr>;
         s2 = (if isPlayed
               then s1\<lparr>playCnt := playCnt s1 + 1,
                       ratSum := ratSum s1 + of_int (sint (rating opp)),
                       perfSum := rd (perfSum s1 + performanceRating opp)\<rparr>
               else s1)
     in ebind (partial_term (result p ! x) (rawScore opp)) (\<lambda>t.
        Inr (s2\<lparr>partialScore := partialScore s2 + t\<rparr>)))"

definition bool_rat :: "bool \<Rightarrow> rat" where
  "bool_rat b = (if b then 1 else 0)"

definition TiebreakOpponent ::
  "(rat \<Rightarrow> rat) \<Rightarrow> PlayerResultMap \<Rightarrow> PlayerResult \<Rightarrow> string \<Rightarrow> error + PlayerResult" where
  "TiebreakOpponent rd prm p byeKey =
     (let rounds = length (color p) in
      ebind (efold (opponent_step rd prm p)
               (if player p \<noteq> byeKey then [0 ..< rounds] else [])
               \<lparr>adj = [], adjSum = 0, cumSum = 0, ratSum = 0, perfSum = 0, partialScore = 0,
                playCnt = 0\<rparr>) (\<lambda>s.
      let adjs = sort (adj s);
          ratAvg = (if playCnt s \<le> 0 then of_int (sint (rating p))
                    else rd (ratSum s / of_nat (playCnt s)));
          perfAvg = (if playCnt s \<le> 0 then performanceRating p
                     else rd (perfSum s / of_nat (playCnt s)));
          ge = bool_rat (c_round (rawScore p * 2) \<ge> of_nat rounds);
          le = bool_rat (c_round (rawScore p * 2) \<le> of_nat rounds)
      in
      ebind (if rounds < 2 then Inr 0
             else if rounds < 9 then
               ebind (nth_chk adjs 0) (\<lambda>front.
               ebind (nth_chk adjs (sz_sub (length adjs) 1)) (\<lambda>back.
               Inr (adjSum s - ge * front - le * back)))
             else
               ebind (nth_chk adjs 0) (\<lambda>a0.
               ebind (nth_chk adjs 1) (\<lambda>a1.
               ebind (nth_chk adjs (rounds - 2)) (\<lambda>b0.
               ebind (nth_chk adjs (rounds - 1)) (\<lambda>b1.
               Inr (adjSum s - ge * (a0 + a1) - le * (b0 + b1))))))) (\<lambda>m.
      ebind (if rounds \<le> 2 then Inr 0
             else if rounds < 9 then
               ebind (nth_chk adjs 0) (\<lambda>front.
               ebind (nth_chk adjs (sz_sub (length adjs) 1)) (\<lambda>back.
               Inr (adjSum s - front - back)))
             else
               ebind (nth_chk adjs 0) (\<lambda>a0.
               ebind (nth_chk adjs 1) (\<lambda>a1.
               ebind (nth_chk adjs (rounds - 2)) (\<lambda>b0.
               ebind (nth_chk adjs (rounds - 1)) (\<lambda>b1.
               Inr (adjSum s - a0 - a1 - b0 - b1)))))) (\<lambda>b.
      Inr (p\<lparr>tiebreak_code := tiebreak_code p @ ''MSCBHTKROPAWLZ'',
             tiebreak_value := tiebreak_value p @
               [m, adjSum s, cumScore p, b, head2head p, of_int (sint (blackCnt p)),
                of_int (sint (kashdan p)), partialScore s, cumSum s, perfAvg, ratAvg,
                of_int (sint (winCnt p)), of_nat (firstLossRound p), coinFlip p]\<rparr>)))))"

text \<open>The first loop of \<^verbatim>\<open>TiebreakCalculation\<close> at the entry \<open>x\<close> of the map; \<^verbatim>\<open>bye\<close> is the
  index of the entry it points to.\<close>

definition calc_step ::
  "string \<Rightarrow> nat \<Rightarrow> PlayerResultMap \<times> nat list \<times> nat option
   \<Rightarrow> error + (PlayerResultMap \<times> nat list \<times> nat option)" where
  "calc_step byeKey x st =
     (case st of (prm, rands, bye) \<Rightarrow>
      case prm ! x of (k, p) \<Rightarrow>
      ebind (ASSERT (k = player p)) (\<lambda>_.
      ebind (TiebreakPlayer p byeKey) (\<lambda>p1.
      ebind (TiebreakCoinFlip (prm[x := (k, p1)]) p1 byeKey rands) (\<lambda>(p2, rands').
      if player p2 = byeKey
      then ebind (ASSERT (bye = None)) (\<lambda>_. Inr (prm[x := (k, p2)], rands', Some x))
      else Inr (prm[x := (k, p2)], rands', bye)))))"

definition update_step ::
  "(PlayerResultMap \<Rightarrow> PlayerResult \<Rightarrow> error + PlayerResult) \<Rightarrow> nat \<Rightarrow> PlayerResultMap
   \<Rightarrow> error + PlayerResultMap" where
  "update_step f x prm =
     (case prm ! x of (k, p) \<Rightarrow> ebind (f prm p) (\<lambda>p'. Inr (prm[x := (k, p')])))"

definition TiebreakCalculation ::
  "(rat \<Rightarrow> rat) \<Rightarrow> PlayerResultMap \<Rightarrow> string \<Rightarrow> nat list
   \<Rightarrow> error + (PlayerResultMap \<times> nat list)" where
  "TiebreakCalculation rd prm byeKey rands =
     (let idx = [0 ..< length prm] in
      ebind (efold (calc_step byeKey) idx (prm, rands, None)) (\<lambda>(prm1, rands', bye).
      case bye of None \<Rightarrow> Inl AssertionFailed
      | Some b \<Rightarrow>
      ebind (ASSERT (player (snd (prm1 ! b)) = byeKey)) (\<lambda>_.
      ebind (efold (update_step (\<lambda>m p. TiebreakPerformance rd m p byeKey)) idx prm1) (\<lambda>prm2.
      ebind (efold (update_step (\<lambda>m p. TiebreakOpponent rd m p byeKey)) idx prm2) (\<lambda>prm3.
      let v = tiebreak_value (snd (prm3 ! b)) in
      ebind (ASSERT (list_all (\<lambda>t. t = 0) (butlast v))) (\<lambda>_.
      ebind (ASSERT (last v = - 1)) (\<lambda>_.
      Inr (prm3, rands'))))))))"

text \<open>An example: one round, the first player beat the second with White.\<close>

definition example_result :: "string \<Rightarrow> int \<Rightarrow> string list \<Rightarrow> string \<Rightarrow> string \<Rightarrow> PlayerResult" where
  "example_result key rtg opps cols ress =
     \<lparr> player = key, rating = of_int rtg, opponent = opps, color = cols, result = ress,
       rawScore = 0, adjScore = 0, cumScore = 0, byeScore = 0, head2head = 0, byeCnt = 0,
       blackCnt = 0, kashdan = 0, winCnt = 0, firstLossRound = 0, performanceRating = 0,
       coinFlip = 0, tiebreak_code = [], tiebreak_value = [] \<rparr>"

definition example_results :: PlayerResultMap where
  "example_results =
     [(''0_0'', example_result ''0_0'' 0 [] [] []),
      (''1_0'', example_result ''1_0'' 1500 [''2_0''] ''W'' ''W''),
      (''2_0'', example_result ''2_0'' 1400 [''1_0''] ''B'' ''L'')]"

text \<open>What the first loop of \<^verbatim>\<open>TiebreakCalculation\<close> has established when it has gone
  through the first \<open>n\<close> entries of a map with the keys \<open>ks\<close>.\<close>

definition calc_inv ::
  "string \<Rightarrow> string list \<Rightarrow> nat \<Rightarrow> PlayerResultMap \<times> nat list \<times> nat option \<Rightarrow> bool" where
  "calc_inv byeKey ks n st =
     (case st of (prm, rands, bye) \<Rightarrow>
        map fst prm = ks
      \<and> (\<forall>i < n. player (snd (prm ! i)) = ks ! i
                 \<and> (if ks ! i = byeKey then coinFlip (snd (prm ! i)) = - 1
                     else coinFlip (snd (prm ! i)) \<ge> 0))
      \<and> distinct (map (\<lambda>e. coinFlip (snd e)) (take n prm))
      \<and> (case bye of None \<Rightarrow> True | Some b \<Rightarrow> b < n \<and> ks ! b = byeKey))"

section \<open>Properties of the round-robin tables\<close>

text \<open>
  Claim C6, as the specification states it: in round 3 of a four-player round robin from
  which player 2 withdrew, the lookup gives the pairing "1-2 3-4" and applies the colour
  reversal "2-1", so that player 2 plays Black.

  The table row for size 4 and withdrawn player 2 holds the reversal "4-3", not "2-1"
  (the row of withdrawn player 3).  No reversal touches the game of players 1 and 2:
  for player 2 against opponent 1 the reversal loop leaves the colour Black of the pairing
  "1-2" and \<^verbatim>\<open>isReversed\<close> false.
\<close>

theorem CrenshawBerger_4_3_withdrawn_2_no_reversal_2_1:
  "reversals_rows False 4 2 3 2 1 roundRobinReversals (CHR ''B'', False) = Inr (CHR ''B'', False)
   \<and> reversals_rows False 4 2 3 1 2 roundRobinReversals (CHR ''W'', False) = Inr (CHR ''W'', False)"
  by code_simp

text \<open>
  Claim C6, amended: in round 3 of a four-player round robin from which player 2 withdrew,
  the lookup gives the pairing "1-2 3-4" (players 1 and 2 on board 1, players 3 and 4 on
  board 2) and applies the colour reversal "4-3": player 4 plays White and player 3 Black.
  Board 1 keeps the colours of the pairing, so player 1 plays White and player 2 Black.
\<close>

theorem CrenshawBerger_4_3_withdrawn_2:
  "CrenshawBergerLookup 4 3 1 2 = Inr (1, CHR ''W'')
   \<and> CrenshawBergerLookup 4 3 2 2 = Inr (1, CHR ''B'')
   \<and> CrenshawBergerLookup 4 3 3 2 = Inr (2, CHR ''B'')
   \<and> CrenshawBergerLookup 4 3 4 2 = Inr (2, CHR ''W'')
   \<and> reversals_rows False 4 2 3 4 3 roundRobinReversals (CHR ''B'', False) = Inr (CHR ''W'', True)
   \<and> reversals_rows False 4 2 3 3 4 roundRobinReversals (CHR ''W'', False) = Inr (CHR ''B'', True)"
  by code_simp

section \<open>Properties of the cost order\<close>

lemma lex_less_spec_Cons:
  "lex_less_spec (x # xs) (y # ys) = (x <s y \<or> (x = y \<and> lex_less_spec xs ys))"
proof -
  have "(\<exists>k < Suc n. P k) = (P 0 \<or> (\<exists>j < n. P (Suc j)))" for n and P :: "nat \<Rightarrow> bool"
    by (simp add: less_Suc_eq_0_disj ex_disj_distrib conj_disj_distribR) blast
  then show ?thesis
    by (simp add: lex_less_spec_def) blast
qed

lemma word_sless_total: "x \<noteq> y \<Longrightarrow> x <s y \<or> y <s (x :: CostValue)"
  by (metis linorder_neqE_linordered_idom signed_word_eqI word_sless_alt)

lemma words_less_lex:
  "length xs = length ys \<Longrightarrow> words_less xs ys = lex_less_spec xs ys"
proof (induction xs ys rule: list_induct2)
  case Nil
  then show ?case by (simp add: lex_less_spec_def)
next
  case (Cons x xs y ys)
  have asym: "\<not> (x <s y \<and> y <s x)"
    by (simp add: word_sless_alt)
  show ?case
  proof (cases "x = y")
    case True
    with Cons show ?thesis by (simp add: lex_less_spec_Cons)
  next
    case False
    with word_sless_total [OF False] asym Cons show ?thesis
      by (simp add: lex_less_spec_Cons) blast
  qed
qed

lemma words_less_append_equal:
  "length xs = length ys \<Longrightarrow> words_less (xs @ [p]) (ys @ [p]) = words_less xs ys"
  by (induction xs ys rule: list_induct2) simp_all

text \<open>On records with the same \<^verbatim>\<open>players\<close> value, as all the costs of one section are,
  \<^verbatim>\<open>operator<\<close> is the lexicographic order over the 26 counters.\<close>

lemma Cost_less_same_players:
  assumes "players c1 = players c2"
  shows "Cost_less c1 c2 = lex_less_spec (cost_counters c1) (cost_counters c2)"
proof -
  have len: "length (cost_counters c1) = length (cost_counters c2)"
    by (simp add: cost_counters_def)
  have "Cost_less c1 c2 = words_less (cost_counters c1) (cost_counters c2)"
    using assms words_less_append_equal [OF len] by (simp add: Cost_less_def cost_words_def)
  also have "\<dots> = lex_less_spec (cost_counters c1) (cost_counters c2)"
    by (rule words_less_lex [OF len])
  finally show ?thesis .
qed

text \<open>
  Claim C2: for any two Cost records, \<^verbatim>\<open>c1 < c2\<close> is the lexicographic order over the 26
  counters in the declared priority sequence.

  The loop of \<^verbatim>\<open>operator<\<close> runs over \<^verbatim>\<open>sizeof(c1)/sizeof(c1.COST_BEGIN)\<close> = 27 words and so
  compares the debugging field \<^verbatim>\<open>players\<close> after the 26 counters.  Two records whose
  counters are all equal (here all zero) and whose \<^verbatim>\<open>players\<close> are 1 and 2 are ordered by
  \<^verbatim>\<open>operator<\<close>, though no counter differs; \<^verbatim>\<open>IsZero\<close> does leave \<^verbatim>\<open>players\<close> out.
\<close>

theorem Cost_less_compares_players:
  "Cost_less (Cost_init\<lparr>players := 1\<rparr>) (Cost_init\<lparr>players := 2\<rparr>)
   \<and> cost_counters (Cost_init\<lparr>players := 1\<rparr>) = cost_counters (Cost_init\<lparr>players := 2\<rparr>)
   \<and> \<not> lex_less_spec (cost_counters (Cost_init\<lparr>players := 1\<rparr>))
         (cost_counters (Cost_init\<lparr>players := 2\<rparr>))
   \<and> IsZero (Cost_init\<lparr>players := 1\<rparr>) \<and> IsZero (Cost_init\<lparr>players := 2\<rparr>)"
  by (simp add: Cost_less_def cost_words_def cost_counters_def Cost_init_def word_sless_alt
      lex_less_spec_def IsZero_def)

section \<open>Properties of the team-majority short cut\<close>

lemma count_list_insort: "count_list (insort x xs) v = count_list (x # xs) (v :: int)"
  by (induction xs) auto

lemma count_list_sort: "count_list (sort xs) v = count_list xs (v :: int)"
  by (induction xs) (simp_all add: count_list_insort)

lemma count_list_map_filter:
  "count_list (map f xs) v = length (filter (\<lambda>x. f x = v) xs)"
  by (induction xs) auto

lemma count_list_two: "v \<noteq> w \<Longrightarrow> count_list xs v + count_list xs w \<le> length xs"
  by (induction xs) auto

lemma count_list_append1: "count_list (xs @ [e]) v = count_list xs v + (if e = v then 1 else 0)"
  by (induction xs) auto

lemma sorted_le_last: "sorted xs \<Longrightarrow> x \<in> set xs \<Longrightarrow> x \<le> last (xs :: int list)"
proof (induction xs)
  case Nil
  then show ?case by simp
next
  case (Cons a xs)
  show ?case
  proof (cases "xs = []")
    case True
    with Cons.prems show ?thesis by simp
  next
    case False
    then have "last xs \<in> set xs" by simp
    with Cons False show ?thesis by auto
  qed
qed

lemma mode_loop:
  assumes "sorted xs"
  shows "\<exists>mode nxt modeCnt nextCnt.
           foldl mode_step (0, 0, 0, 0) xs = (mode, nxt, modeCnt, nextCnt)
           \<and> nextCnt = count_list xs nxt \<and> (xs \<noteq> [] \<longrightarrow> nxt = last xs)
           \<and> modeCnt = count_list xs mode \<and> (\<forall>v. count_list xs v \<le> modeCnt)"
  using assms
proof (induction xs rule: rev_induct)
  case Nil
  then show ?case by simp
next
  case (snoc e xs)
  from snoc.prems have srt: "sorted xs" and le: "\<forall>y \<in> set xs. y \<le> e"
    by (auto simp: sorted_append)
  from snoc.IH [OF srt] obtain mode nxt modeCnt nextCnt where
    st: "foldl mode_step (0, 0, 0, 0) xs = (mode, nxt, modeCnt, nextCnt)"
    and nc: "nextCnt = count_list xs nxt" and lst: "xs \<noteq> [] \<longrightarrow> nxt = last xs"
    and mc: "modeCnt = count_list xs mode" and mx: "\<forall>v. count_list xs v \<le> modeCnt"
    by blast
  have fresh: "e \<noteq> nxt \<Longrightarrow> count_list xs e = 0"
  proof (cases "xs = []")
    case True
    then show ?thesis by simp
  next
    case False
    assume ne: "e \<noteq> nxt"
    have "e \<notin> set xs"
    proof
      assume "e \<in> set xs"
      with srt have "e \<le> last xs" by (rule sorted_le_last)
      moreover from False le have "last xs \<le> e" by simp
      ultimately show False using ne lst False by simp
    qed
    then show ?thesis by (simp add: count_list_0_iff)
  qed
  define nextCnt1 where "nextCnt1 = (if e = nxt then nextCnt + 1 else 1)"
  have nc1: "nextCnt1 = count_list (xs @ [e]) e"
    using nc fresh by (auto simp: nextCnt1_def count_list_append1)
  show ?case
  proof (cases "nextCnt1 > modeCnt")
    case True
    then have "foldl mode_step (0, 0, 0, 0) (xs @ [e]) = (e, e, nextCnt1, nextCnt1)"
      by (auto simp: st mode_step_def nextCnt1_def)
    moreover have "\<forall>v. count_list (xs @ [e]) v \<le> nextCnt1"
    proof
      fix v
      show "count_list (xs @ [e]) v \<le> nextCnt1"
      proof (cases "v = e")
        case True
        then show ?thesis using nc1 by simp
      next
        case False
        then have "count_list (xs @ [e]) v = count_list xs v"
          by (simp add: count_list_append1)
        moreover from mx have "count_list xs v \<le> modeCnt" by blast
        ultimately show ?thesis using True by simp
      qed
    qed
    ultimately show ?thesis using nc1 by simp
  next
    case False
    then have step: "foldl mode_step (0, 0, 0, 0) (xs @ [e]) = (mode, e, modeCnt, nextCnt1)"
      by (auto simp: st mode_step_def nextCnt1_def)
    have "mode \<noteq> e"
    proof
      assume "mode = e"
      then have "count_list (xs @ [e]) e = modeCnt + 1"
        using mc by (simp add: count_list_append1)
      with nc1 False show False by simp
    qed
    then have "modeCnt = count_list (xs @ [e]) mode"
      using mc by (simp add: count_list_append1)
    moreover have "\<forall>v. count_list (xs @ [e]) v \<le> modeCnt"
    proof
      fix v
      show "count_list (xs @ [e]) v \<le> modeCnt"
      proof (cases "v = e")
        case True
        then show ?thesis using nc1 False by simp
      next
        case False
        then show ?thesis using mx by (simp add: count_list_append1)
      qed
    qed
    ultimately show ?thesis using step nc1 by simp
  qed
qed

lemma mode_loop_majority:
  assumes "sorted xs" and "2 * count_list xs t > length xs"
  shows "\<exists>nxt modeCnt nextCnt.
           foldl mode_step (0, 0, 0, 0) xs = (t, nxt, modeCnt, nextCnt) \<and> 2 * modeCnt \<ge> length xs"
proof -
  from mode_loop [OF assms(1)] obtain mode nxt modeCnt nextCnt where
    st: "foldl mode_step (0, 0, 0, 0) xs = (mode, nxt, modeCnt, nextCnt)"
    and mc: "modeCnt = count_list xs mode" and mx: "\<forall>v. count_list xs v \<le> modeCnt"
    by blast
  from mx have ge: "count_list xs t \<le> modeCnt" by blast
  have "mode = t"
  proof (rule ccontr)
    assume "mode \<noteq> t"
    from count_list_two [OF this, of xs] mc ge assms(2) show False by simp
  qed
  with st ge assms(2) show ?thesis by auto
qed

lemma IsOneTeamMajority_majority:
  assumes "pl \<noteq> []" and "play_id (last pl) = BYE_ID"
    and "list_all (\<lambda>p. play_id p \<noteq> BYE_ID) (butlast pl)"
    and "t \<noteq> 0"
    and "2 * length (filter (\<lambda>p. team_id p = t) (butlast pl)) > length (butlast pl)"
  shows "IsOneTeamMajority pl = Inr True"
proof -
  let ?team = "sort (map team_id (butlast pl))"
  have "2 * count_list ?team t > length ?team"
    using assms(5) by (simp add: count_list_sort count_list_map_filter)
  from mode_loop_majority [OF _ this] obtain nxt modeCnt nextCnt where
    "foldl mode_step (0, 0, 0, 0) ?team = (t, nxt, modeCnt, nextCnt)" "2 * modeCnt \<ge> length ?team"
    by auto
  with assms(1-4) show ?thesis
    by (simp add: IsOneTeamMajority_def ASSERT_def ebind_def)
qed

text \<open>
  Claim C5: when the members of one team are an absolute majority of the active players
  of the section (the players in front of the sentinel bye), \<^verbatim>\<open>PairableCost\<close> with
  \<^verbatim>\<open>isTeam = true\<close> takes the short cut and returns 1, whatever the candidate pairing, for
  every positive number of remaining rounds.  A team is a team number other than 0: the
  source tests \<^verbatim>\<open>mode != 0\<close>, 0 being the number of the players without a team.  The player
  vector is canonical, as \<^verbatim>\<open>IsOneTeamMajority\<close> asserts: not empty, the bye last and
  only there.  The result does not depend on the fuel, since the search is never started.
\<close>

theorem PairableCost_team_majority:
  assumes "pl \<noteq> []" and "play_id (last pl) = BYE_ID"
    and "list_all (\<lambda>p. play_id p \<noteq> BYE_ID) (butlast pl)"
    and "t \<noteq> 0"
    and "2 * length (filter (\<lambda>p. team_id p = t) (butlast pl)) > length (butlast pl)"
    and "remainingRounds > 0"
  shows "PairableCost fuel wCode pl pair remainingRounds True = Inr (1, pl)"
  using IsOneTeamMajority_majority [OF assms(1-5)] assms(6)
  by (simp add: PairableCost_def ebind_def)

theorem PairableCost_team_majority_witness:
  "[example_player 1 7 1500 0, example_player 2 7 1500 1, example_player 3 7 1500 2,
    example_player 4 0 1500 3, example_player 0 0 0 4] \<noteq> []
   \<and> play_id (last [example_player 1 7 1500 0, example_player 2 7 1500 1,
        example_player 3 7 1500 2, example_player 4 0 1500 3, example_player 0 0 0 4]) = BYE_ID
   \<and> (7::int) \<noteq> 0 \<and> (1::nat) > 0
   \<and> PairableCost 0 (CHR ''A'')
        [example_player 1 7 1500 0, example_player 2 7 1500 1, example_player 3 7 1500 2,
         example_player 4 0 1500 3, example_player 0 0 0 4] [0, 1, 2, 3] 1 True
      = Inr (1, [example_player 1 7 1500 0, example_player 2 7 1500 1,
                 example_player 3 7 1500 2, example_player 4 0 1500 3, example_player 0 0 0 4])"
  using PairableCost_team_majority [of
      "[example_player 1 7 1500 0, example_player 2 7 1500 1, example_player 3 7 1500 2,
        example_player 4 0 1500 3, example_player 0 0 0 4]" 7 1 0 "CHR ''A''" "[0, 1, 2, 3]"]
  by (simp add: example_player_def BYE_ID_def)

section \<open>Properties of the round-robin short cut\<close>

lemma ebind_Inr: "ebind m f = Inr r \<longleftrightarrow> (\<exists>v. m = Inr v \<and> f v = Inr r)"
  by (cases m) (simp_all add: ebind_def)

lemma ASSERT_Inr: "ASSERT b = Inr u \<longleftrightarrow> b"
  by (simp add: ASSERT_def)

lemma emap_Inr:
  "emap f xs = Inr ys \<Longrightarrow> length ys = length xs \<and> (\<forall>i < length xs. f (xs ! i) = Inr (ys ! i))"
proof (induction xs arbitrary: ys)
  case Nil
  then show ?case by simp
next
  case (Cons x xs)
  from Cons.prems obtain y ys' where y: "f x = Inr y" and ys': "emap f xs = Inr ys'"
    and eq: "ys = y # ys'"
    by (auto simp: ebind_Inr)
  from Cons.IH [OF ys'] have "length ys' = length xs"
    and nth: "\<forall>i < length xs. f (xs ! i) = Inr (ys' ! i)"
    by simp_all
  with y eq show ?case
    by (auto simp: nth_Cons split: nat.splits)
qed

lemma set_insort_by: "set (insort_by lt x xs) = insert x (set xs)"
  by (induction xs) auto

lemma set_sort_by: "set (sort_by lt xs) = set xs"
  by (induction xs) (simp_all add: sort_by_def set_insort_by)

lemma length_insort_by: "length (insort_by lt x xs) = Suc (length xs)"
  by (induction xs) auto

lemma length_sort_by: "length (sort_by lt xs) = length xs"
  by (induction xs) (simp_all add: sort_by_def length_insort_by)

lemma Player_lt_bye: "play_id b = BYE_ID \<Longrightarrow> play_id p \<noteq> BYE_ID \<Longrightarrow> Player_lt p b \<and> \<not> Player_lt b p"
  by (simp add: Player_lt_def)

lemma hd_insort_by_nonbye:
  assumes "(\<exists>p \<in> set xs. play_id p \<noteq> BYE_ID) \<longrightarrow> play_id (hd xs) \<noteq> BYE_ID"
    and "\<exists>p \<in> set (x # xs). play_id p \<noteq> BYE_ID"
  shows "play_id (hd (insort_by Player_lt x xs)) \<noteq> BYE_ID"
proof (cases xs)
  case Nil
  with assms(2) show ?thesis by simp
next
  case (Cons y ys)
  show ?thesis
  proof (cases "Player_lt y x")
    case True
    have "play_id y \<noteq> BYE_ID"
    proof (cases "\<exists>p \<in> set xs. play_id p \<noteq> BYE_ID")
      case True
      with assms(1) Cons show ?thesis by simp
    next
      case False
      with assms(2) Cons have "play_id x \<noteq> BYE_ID" and "play_id y = BYE_ID" by auto
      with Player_lt_bye [of y x] \<open>Player_lt y x\<close> show ?thesis by simp
    qed
    with True Cons show ?thesis by simp
  next
    case False
    have "play_id x \<noteq> BYE_ID"
    proof
      assume bx: "play_id x = BYE_ID"
      with assms(2) have "\<exists>p \<in> set xs. play_id p \<noteq> BYE_ID" by auto
      with assms(1) Cons have "play_id y \<noteq> BYE_ID" by simp
      with Player_lt_bye [OF bx this] False show False by simp
    qed
    with False Cons show ?thesis by simp
  qed
qed

lemma hd_sort_by_nonbye:
  "\<exists>p \<in> set xs. play_id p \<noteq> BYE_ID \<Longrightarrow> play_id (hd (sort_by Player_lt xs)) \<noteq> BYE_ID"
proof (induction xs)
  case Nil
  then show ?case by simp
next
  case (Cons x xs)
  have "(\<exists>p \<in> set (sort_by Player_lt xs). play_id p \<noteq> BYE_ID)
        \<longrightarrow> play_id (hd (sort_by Player_lt xs)) \<noteq> BYE_ID"
    using Cons.IH by (simp add: set_sort_by)
  moreover from Cons.prems have "\<exists>p \<in> set (x # sort_by Player_lt xs). play_id p \<noteq> BYE_ID"
    by (simp add: set_sort_by)
  ultimately have "play_id (hd (insort_by Player_lt x (sort_by Player_lt xs))) \<noteq> BYE_ID"
    by (rule hd_insort_by_nonbye)
  then show ?case by (simp add: sort_by_def)
qed

lemma SetRanks_fields:
  assumes "SetRanks pl = Inr pl1"
  shows "length pl1 = length pl"
    and "\<forall>i < length pl. play_id (pl1 ! i) = play_id (pl ! i) \<and> trn_type (pl1 ! i) = trn_type (pl ! i)"
proof -
  from assms obtain pl0 where
    em: "emap (\<lambda>(x, p).
              ebind (ASSERT (if x = length pl - 1 then play_id p = BYE_ID else play_id p \<noteq> BYE_ID))
                (\<lambda>_. ebind (DueColor (color_history p) (multiround p))
                (\<lambda>dc. Inr (p\<lparr>rank := int x, due_color := dc\<rparr>))))
            (enumerate 0 pl) = Inr pl0"
    and pl1: "pl1 = map (\<lambda>p. p\<lparr>opponent_ranks := lookup_ranks pl0 (map atoi (opponents p)),
                       teammate_ranks := lookup_ranks pl0 (teammates p)\<rparr>) pl0"
    by (auto simp: SetRanks_def ebind_Inr)
  from emap_Inr [OF em] have len: "length pl0 = length pl"
    and nth: "\<forall>i < length pl. (\<lambda>(x, p).
              ebind (ASSERT (if x = length pl - 1 then play_id p = BYE_ID else play_id p \<noteq> BYE_ID))
                (\<lambda>_. ebind (DueColor (color_history p) (multiround p))
                (\<lambda>dc. Inr (p\<lparr>rank := int x, due_color := dc\<rparr>)))) (enumerate 0 pl ! i) = Inr (pl0 ! i)"
    by simp_all
  show "length pl1 = length pl" using len pl1 by simp
  show "\<forall>i < length pl. play_id (pl1 ! i) = play_id (pl ! i) \<and> trn_type (pl1 ! i) = trn_type (pl ! i)"
  proof (intro allI impI)
    fix i assume i: "i < length pl"
    with nth have "ebind (ASSERT (if i = length pl - 1 then play_id (pl ! i) = BYE_ID else play_id (pl ! i) \<noteq> BYE_ID))
                (\<lambda>_. ebind (DueColor (color_history (pl ! i)) (multiround (pl ! i)))
                (\<lambda>dc. Inr ((pl ! i)\<lparr>rank := int i, due_color := dc\<rparr>))) = Inr (pl0 ! i)"
      by (simp add: nth_enumerate_eq)
    then obtain dc where "(pl ! i)\<lparr>rank := int i, due_color := dc\<rparr> = pl0 ! i"
      by (auto simp: ebind_Inr)
    then have "play_id (pl0 ! i) = play_id (pl ! i) \<and> trn_type (pl0 ! i) = trn_type (pl ! i)"
      by (metis Player.select_convs(1) Player.select_convs(5) Player.surjective
          Player.update_convs(21) Player.update_convs(28))
    with i len pl1 show "play_id (pl1 ! i) = play_id (pl ! i) \<and> trn_type (pl1 ! i) = trn_type (pl ! i)"
      by simp
  qed
qed

lemma nth_update_bye_request:
  "play_id (xs[j := (xs ! j)\<lparr>bye_request := b\<rparr>] ! i) = play_id (xs ! i)
   \<and> trn_type (xs[j := (xs ! j)\<lparr>bye_request := b\<rparr>] ! i) = trn_type (xs ! i)"
proof -
  have "xs[j := v] ! i = (if i = j \<and> j < length xs then v else xs ! i)" for v
    by (cases "j < length xs"; cases "i = j") (simp_all add: not_less list_update_beyond)
  then show ?thesis by simp
qed

lemma house_player_fields:
  "length (fst (house_player pl)) = length pl
   \<and> (\<forall>i < length pl. play_id (fst (house_player pl) ! i) = play_id (pl ! i)
        \<and> trn_type (fst (house_player pl) ! i) = trn_type (pl ! i))"
  by (simp add: house_player_def Let_def nth_update_bye_request)

lemma append_bye_nonbye:
  assumes "p \<in> set (append_bye pl)" and "play_id p \<noteq> BYE_ID"
  shows "p \<in> set pl"
  using assms by (auto simp: append_bye_def Let_def BYE_ID_def split: if_splits)

lemma append_bye_set: "set pl \<subseteq> set (append_bye pl)"
  by (auto simp: append_bye_def Let_def)

lemma Canonical_hd:
  assumes "CanonicalPlayerVector plh = Inr plc"
    and "\<exists>p \<in> set plh. play_id p \<noteq> BYE_ID"
    and "\<forall>p \<in> set plh. play_id p \<noteq> BYE_ID \<longrightarrow> trn_type p = CHR ''R'' \<or> trn_type p = CHR ''D''"
  shows "trn_type (hd plc) = CHR ''R'' \<or> trn_type (hd plc) = CHR ''D''"
proof -
  let ?s = "sort_by Player_lt (append_bye plh)"
  from assms(1) have sr: "SetRanks ?s = Inr plc"
    by (auto simp: CanonicalPlayerVector_def Let_def ebind_Inr)
  from assms(2) append_bye_set have ex: "\<exists>p \<in> set (append_bye plh). play_id p \<noteq> BYE_ID"
    by blast
  then have nb: "play_id (hd ?s) \<noteq> BYE_ID" by (rule hd_sort_by_nonbye)
  from ex have ne: "?s \<noteq> []"
    by (metis empty_iff list.set(1) set_sort_by)
  then have "hd ?s \<in> set ?s" by simp
  then have "hd ?s \<in> set (append_bye plh)" by (simp add: set_sort_by)
  from append_bye_nonbye [OF this nb] have "hd ?s \<in> set plh" .
  with nb assms(3) have t: "trn_type (hd ?s) = CHR ''R'' \<or> trn_type (hd ?s) = CHR ''D''" by blast
  from SetRanks_fields [OF sr] ne have "length plc = length ?s"
    and "trn_type (plc ! 0) = trn_type (?s ! 0)"
    by simp_all
  moreover from this ne have "plc \<noteq> []" by auto
  ultimately show ?thesis using ne t by (simp add: hd_conv_nth)
qed

lemma RoundRobinPairings_cost:
  "RoundRobinPairings pl totalRounds firstBoardNum = Inr (pl', c) \<Longrightarrow> c = Cost_init"
  by (auto simp: RoundRobinPairings_def Let_def ebind_Inr)

text \<open>Claim C10.  When the first player of the canonical vector is of type \<open>R\<close> or \<open>D\<close>
  (here: every player of the section is), \<^verbatim>\<open>FindPairings\<close> takes the round-robin short
  cut: whenever it returns, the cost it returns is the \<^verbatim>\<open>Cost\<close> record with every
  counter zero, the pairing vector is left empty, and the players are those that
  \<^verbatim>\<open>RoundRobinPairings\<close> returns for the canonical vector.  The cost function and the
  depth do not matter: the optimiser is not run.\<close>

theorem FindPairings_round_robin:
  assumes "FindPairings fuel cf pl totalRounds firstBoardNum depth useFirstPairings skipOptimize
           = Inr (pl', pair', c)"
    and "\<exists>p \<in> set pl. play_id p \<noteq> BYE_ID"
    and "\<forall>p \<in> set pl. play_id p \<noteq> BYE_ID \<longrightarrow> trn_type p = CHR ''R'' \<or> trn_type p = CHR ''D''"
  shows "c = Cost_init \<and> pair' = []
         \<and> (\<exists>plc. CanonicalPlayerVector (fst (house_player pl)) = Inr plc
                \<and> RoundRobinPairings plc totalRounds firstBoardNum = Inr (pl', Cost_init))"
proof -
  obtain plh n where hp: "house_player pl = (plh, n)" by (cases "house_player pl")
  from assms(1) hp obtain plc where can: "CanonicalPlayerVector plh = Inr plc"
    and rest: "(if trn_type (hd plc) = CHR ''R'' \<or> trn_type (hd plc) = CHR ''D''
        then ebind (RoundRobinPairings plc totalRounds firstBoardNum) (\<lambda>(pl', c). Inr (pl', [], c))
        else
          let firstBoardNum' = (if firstBoardNum = 0 then lowBoard plc else firstBoardNum);
              remainingRounds = to_size_t (totalRounds - rnd (hd plc))
          in
          ebind (HintPairings plc True) (\<lambda>pair0.
          ebind (check_ends plc pair0 n) (\<lambda>_.
          ebind (if useFirstPairings then FirstPairings plc pair0 n else Inr pair0) (\<lambda>pair1.
          ebind (check_ends plc pair1 n) (\<lambda>_.
          ebind (if skipOptimize
                 then ebind (cf plc pair1 remainingRounds 0 ((n + 1) div 2 * 2) True True)
                        (\<lambda>(c, cp, codes). Inr (set_warn_codes plc codes, pair1, c))
                 else ebind (MinimizePairingCost fuel cf plc pair1 remainingRounds depth 0 n)
                        (\<lambda>(pl', pair', c, trace). Inr (pl', pair', c))) (\<lambda>(pl2, pair2, cost).
          ebind (set_boards_and_colors pl2 pair2 firstBoardNum') (\<lambda>(pl3, pair3).
          Inr (pl3, pair3, cost)))))))) = Inr (pl', pair', c)"
    by (auto simp: FindPairings_def ebind_Inr)
  from house_player_fields [of pl] hp have len: "length plh = length pl"
    and fld: "\<forall>i < length pl. play_id (plh ! i) = play_id (pl ! i) \<and> trn_type (plh ! i) = trn_type (pl ! i)"
    by simp_all
  have ex: "\<exists>p \<in> set plh. play_id p \<noteq> BYE_ID"
    using assms(2) len fld by (metis in_set_conv_nth)
  have ty: "\<forall>p \<in> set plh. play_id p \<noteq> BYE_ID \<longrightarrow> trn_type p = CHR ''R'' \<or> trn_type p = CHR ''D''"
    using assms(3) len fld by (metis in_set_conv_nth)
  from Canonical_hd [OF can ex ty] rest
  have "ebind (RoundRobinPairings plc totalRounds firstBoardNum) (\<lambda>(pl', c). Inr (pl', [], c))
        = Inr (pl', pair', c)"
    by simp
  then obtain c0 where rr: "RoundRobinPairings plc totalRounds firstBoardNum = Inr (pl', c0)"
    and "pair' = []" and "c = c0"
    by (auto simp: ebind_Inr)
  moreover from RoundRobinPairings_cost [OF rr] have "c0 = Cost_init" .
  ultimately show ?thesis using can hp by simp
qed

theorem FindPairings_round_robin_witness:
  "\<exists>pl'. FindPairings 0 no_cost example_robin_section 3 1 1 False False
           = Inr (pl', [], Cost_init)
         \<and> boards_and_colors pl'
           = [(1, 1, CHR ''W''), (2, 2, CHR ''W''), (3, 2, CHR ''B''), (0, 1, CHR ''B'')]"
proof -
  have ev: "map_sum id (\<lambda>(pl, pair, c). boards_and_colors pl)
              (FindPairings 0 no_cost example_robin_section 3 1 1 False False)
            = Inr [(1, 1, CHR ''W''), (2, 2, CHR ''W''), (3, 2, CHR ''B''), (0, 1, CHR ''B'')]"
    by code_simp
  then obtain pl' pair' c where
    r: "FindPairings 0 no_cost example_robin_section 3 1 1 False False = Inr (pl', pair', c)"
    and b: "boards_and_colors pl'
            = [(1, 1, CHR ''W''), (2, 2, CHR ''W''), (3, 2, CHR ''B''), (0, 1, CHR ''B'')]"
    by (cases "FindPairings 0 no_cost example_robin_section 3 1 1 False False") auto
  have h2: "\<exists>p \<in> set example_robin_section. play_id p \<noteq> BYE_ID"
    by (simp add: example_robin_section_def example_robin_def example_player_def BYE_ID_def)
  have h3: "\<forall>p \<in> set example_robin_section.
              play_id p \<noteq> BYE_ID \<longrightarrow> trn_type p = CHR ''R'' \<or> trn_type p = CHR ''D''"
    by (simp add: example_robin_section_def example_robin_def example_player_def)
  from FindPairings_round_robin [OF r h2 h3] have "c = Cost_init \<and> pair' = []" by simp
  with r b h2 h3 show ?thesis by simp
qed

section \<open>Properties of the optimiser\<close>

lemma words_less_trans:
  "words_less xs ys \<Longrightarrow> words_less ys zs \<Longrightarrow> words_less xs zs"
proof (induction xs ys arbitrary: zs rule: words_less.induct)
  case (1 a as b bs)
  show ?case
  proof (cases zs)
    case Nil
    with "1.prems" show ?thesis by simp
  next
    case (Cons c cs)
    have ab: "a <s b \<or> (a = b \<and> words_less as bs)"
      using "1.prems"(1) by (auto split: if_splits simp: word_sless_alt intro: signed_word_eqI)
    have bc: "b <s c \<or> (b = c \<and> words_less bs cs)"
      using "1.prems"(2) Cons by (auto split: if_splits simp: word_sless_alt intro: signed_word_eqI)
    have irr: "\<not> x <s x" for x :: CostValue by (simp add: word_sless_alt)
    have asym: "x <s y \<Longrightarrow> \<not> y <s x" for x y :: CostValue by (simp add: word_sless_alt)
    have tr: "x <s y \<Longrightarrow> y <s z \<Longrightarrow> x <s z" for x y z :: CostValue
      by (simp add: word_sless_alt)
    from ab bc consider "a <s c" | "a = c" "a = b" "words_less as bs" "words_less bs cs"
      using tr by blast
    then show ?thesis
    proof cases
      case 1
      with Cons show ?thesis by simp
    next
      case 2
      with "1.IH" [of cs] irr have "words_less as cs" by simp
      with 2 Cons irr show ?thesis by simp
    qed
  qed
qed simp_all

lemma Cost_less_trans: "Cost_less a b \<Longrightarrow> Cost_less b c \<Longrightarrow> Cost_less a c"
  unfolding Cost_less_def by (rule words_less_trans)

lemma efold_preserves:
  assumes "\<And>x s s'. P s \<Longrightarrow> f x s = Inr s' \<Longrightarrow> P s'"
  shows "P s \<Longrightarrow> efold f xs s = Inr s' \<Longrightarrow> P s'"
proof (induction xs arbitrary: s)
  case Nil
  then show ?case by simp
next
  case (Cons x xs)
  from Cons.prems(2) obtain s1 where "f x s = Inr s1" and "efold f xs s1 = Inr s'"
    by (auto simp: ebind_Inr)
  with Cons.IH [of s1] assms [of s x s1] Cons.prems(1) show ?case by blast
qed

lemma accept_trace:
  assumes "trace_ok st" and "Cost_less testCost (bestCost st)"
  shows "trace_ok (st\<lparr>bestPair := testPair, bestCost := testCost,
                       bestCostPlayers := testCostPlayers, isFoundBetter := True,
                       accepted := testCost # accepted st\<rparr>)
         \<and> last (testCost # accepted st) = last (accepted st)"
proof -
  from assms(1) have ne: "accepted st \<noteq> []" and hd: "hd (accepted st) = bestCost st"
    and srt: "sorted_wrt Cost_less (accepted st)"
    by (simp_all add: trace_ok_def)
  have "\<forall>c \<in> set (accepted st). Cost_less testCost c"
  proof
    fix c assume c: "c \<in> set (accepted st)"
    from ne obtain h t where ht: "accepted st = h # t" by (cases "accepted st") auto
    with hd assms(2) have h: "Cost_less testCost h" by simp
    show "Cost_less testCost c"
    proof (cases "c = h")
      case True
      with h show ?thesis by simp
    next
      case False
      with c ht srt have "Cost_less h c" by auto
      with h show ?thesis by (rule Cost_less_trans)
    qed
  qed
  with srt ne show ?thesis by (simp add: trace_ok_def)
qed

lemma try_candidate_trace:
  assumes "trace_ok st"
    and "try_candidate cf pl remainingRounds pBegin pEnd usePairableCost testPair0 st = Inr st'"
  shows "trace_ok st' \<and> last (accepted st') = last (accepted st)"
  using assms(2) accept_trace [OF assms(1)] assms(1)
  by (auto simp: try_candidate_def ebind_Inr split: if_splits)

lemma move_step_trace:
  assumes "trace_ok st"
    and "move_step cf pl remainingRounds pBegin pEnd usePairableCost hasBye d iv s st = Inr st'"
  shows "trace_ok st' \<and> last (accepted st') = last (accepted st)"
proof -
  from assms(2) obtain r where
    r: "(case r of None \<Rightarrow> Inr st
         | Some testPair \<Rightarrow> try_candidate cf pl remainingRounds pBegin pEnd usePairableCost testPair st)
        = Inr st'"
    by (auto simp: move_step_def ebind_Inr)
  show ?thesis
  proof (cases r)
    case None
    with r assms(1) show ?thesis by simp
  next
    case (Some testPair)
    with r try_candidate_trace [OF assms(1)] show ?thesis by simp
  qed
qed

lemma moves_trace:
  assumes "trace_ok st"
    and "efold (move_step cf pl remainingRounds pBegin pEnd usePairableCost hasBye d iv) ss st = Inr st'"
  shows "trace_ok st' \<and> last (accepted st') = last (accepted st)"
proof -
  have "trace_ok st \<and> last (accepted st) = last (accepted st)"
    using assms(1) by simp
  from efold_preserves [where P = "\<lambda>s. trace_ok s \<and> last (accepted s) = last (accepted st)",
      OF _ this assms(2)]
  show ?thesis using move_step_trace by metis
qed

lemma search_while_trace:
  "trace_ok st \<Longrightarrow>
   search_while fuel cf pl remainingRounds pBegin pEnd usePairableCost hasBye d iv st = Inr st' \<Longrightarrow>
   trace_ok st' \<and> last (accepted st') = last (accepted st)"
proof (induction fuel arbitrary: iv st)
  case 0
  then show ?case by simp
next
  case (Suc fuel)
  show ?case
  proof (cases "IsZero (bestCost st)")
    case True
    with Suc.prems show ?thesis by simp
  next
    case False
    with Suc.prems(2) obtain iv' where
      r1: "(if iv' = replicate (2 * nat d) pBegin then Inr st
            else ebind (skip_tuple d (bestPair st) (bestCostPlayers st) None iv') (\<lambda>skip.
              if skip
              then search_while fuel cf pl remainingRounds pBegin pEnd usePairableCost hasBye d iv' st
              else ebind (efold (move_step cf pl remainingRounds pBegin pEnd usePairableCost hasBye d iv')
                            [0 ..< (if maxChange iv' \<le> 2 then 1 else 8)] st) (\<lambda>st'.
                   search_while fuel cf pl remainingRounds pBegin pEnd usePairableCost hasBye d iv' st')))
           = Inr st'"
      by (auto simp: ebind_Inr)
    show ?thesis
    proof (cases "iv' = replicate (2 * nat d) pBegin")
      case True
      with r1 Suc.prems(1) show ?thesis by simp
    next
      case False
      with r1 obtain skip where
        r2: "(if skip
              then search_while fuel cf pl remainingRounds pBegin pEnd usePairableCost hasBye d iv' st
              else ebind (efold (move_step cf pl remainingRounds pBegin pEnd usePairableCost hasBye d iv')
                            [0 ..< (if maxChange iv' \<le> 2 then 1 else 8)] st) (\<lambda>st'.
                   search_while fuel cf pl remainingRounds pBegin pEnd usePairableCost hasBye d iv' st'))
             = Inr st'"
        by (auto simp: ebind_Inr)
      show ?thesis
      proof (cases skip)
        case True
        with r2 Suc.IH [OF Suc.prems(1)] show ?thesis by simp
      next
        case False
        with r2 obtain st1 where
          m: "efold (move_step cf pl remainingRounds pBegin pEnd usePairableCost hasBye d iv')
                [0 ..< (if maxChange iv' \<le> 2 then 1 else 8)] st = Inr st1"
          and w: "search_while fuel cf pl remainingRounds pBegin pEnd usePairableCost hasBye d iv' st1
                  = Inr st'"
          by (auto simp: ebind_Inr)
        from moves_trace [OF Suc.prems(1) m] have "trace_ok st1"
          and "last (accepted st1) = last (accepted st)" by simp_all
        with Suc.IH [OF _ w] show ?thesis by simp
      qed
    qed
  qed
qed

lemma search_depth_trace:
  "trace_ok st \<Longrightarrow>
   search_depth fuel fw cf pl remainingRounds pBegin pEnd usePairableCost hasBye depth d st = Inr st' \<Longrightarrow>
   trace_ok st' \<and> last (accepted st') = last (accepted st)"
proof (induction fuel arbitrary: d st)
  case 0
  then show ?case by simp
next
  case (Suc fuel)
  show ?case
  proof (cases "pBegin < pEnd \<and> d \<le> depth")
    case False
    with Suc.prems show ?thesis by auto
  next
    case True
    with Suc.prems(2) obtain st1 where
      w: "search_while fw cf pl remainingRounds pBegin pEnd usePairableCost hasBye d
            (replicate (2 * nat d) pBegin) (st\<lparr>isFoundBetter := False\<rparr>) = Inr st1"
      and r: "search_depth fuel fw cf pl remainingRounds pBegin pEnd usePairableCost hasBye depth
                (if isFoundBetter st1 then d else d + 1) st1 = Inr st'"
      by (auto simp: ebind_Inr)
    from Suc.prems(1) have "trace_ok (st\<lparr>isFoundBetter := False\<rparr>)"
      by (simp add: trace_ok_def)
    from search_while_trace [OF this w] have "trace_ok st1"
      and "last (accepted st1) = last (accepted st)" by simp_all
    with Suc.IH [OF _ r] show ?thesis by simp
  qed
qed

lemma minimize_pass_trace:
  assumes "minimize_pass fuel cf pl pair remainingRounds depth pBegin pEndConst usePairableCost
           = Inr (st, pEnd)"
  shows "trace_ok st"
proof -
  from assms obtain pEnd' c cp codes where
    "search_depth fuel fuel cf pl remainingRounds pBegin pEnd' usePairableCost (pEndConst mod 2 \<noteq> 0)
       depth 1 \<lparr>bestPair = pair, bestCost = c, bestCostPlayers = cp, isFoundBetter = False,
                accepted = [c]\<rparr> = Inr st"
    by (auto simp: minimize_pass_def Let_def ebind_Inr)
  moreover have "trace_ok \<lparr>bestPair = pair, bestCost = c, bestCostPlayers = cp,
                           isFoundBetter = False, accepted = [c]\<rparr>"
    by (simp add: trace_ok_def)
  ultimately show ?thesis using search_depth_trace by blast
qed

lemma minimize_pass_sorted:
  assumes "minimize_pass fuel cf pl pair remainingRounds depth pBegin pEndConst usePairableCost
           = Inr (st, pEnd)"
  shows "sorted_wrt (\<lambda>a b. Cost_less b a) (rev (accepted st))"
  using minimize_pass_trace [OF assms] by (simp add: trace_ok_def sorted_wrt_rev)

text \<open>Claim C3, as the code has it.  When the pairable lookahead changes the cost of the
  result of the search, \<^verbatim>\<open>MinimizePairingCost\<close> searches again with the lookahead, from
  that result, whose cost it computes anew.  On the example section, with a cost function
  whose counter \<^verbatim>\<open>cantPairPlayers\<close> depends on the lookahead, the first search accepts
  pairings of the costs \<open>(0, 1)\<close> and \<open>(0, 0)\<close> (\<^verbatim>\<open>cantPairPlayers\<close> and \<^verbatim>\<open>pairingCard\<close>) after the
  cost \<open>(0, 2)\<close> of the start; the second search starts with the cost \<open>(1, 0)\<close> and accepts
  a pairing of the cost \<open>(0, 1)\<close>, which is more than the cost \<open>(0, 0)\<close> accepted before.
  The costs of the accepted pairings of the whole run are not strictly decreasing.\<close>

theorem MinimizePairingCost_restart_not_decreasing:
  "map (map cost_key) (result_trace example_lookahead_run)
     = [[(0, 2), (0, 1), (0, 0)], [(1, 0), (0, 1)]]
   \<and> \<not> strictly_decreasing (concat (result_trace example_lookahead_run))
   \<and> Cost_less (last (hd (result_trace example_lookahead_run)))
        (last (last (result_trace example_lookahead_run)))"
  by code_simp

text \<open>Claim C3, corrected.  \<^verbatim>\<open>MinimizePairingCost\<close> adopts a candidate as the best pairing
  only when its cost is less than the best cost under \<^verbatim>\<open>operator<\<close> of \<^verbatim>\<open>Cost\<close>.  Hence,
  in every search that a returning call makes (the search without the pairable lookahead
  and, if the call searches again, the search with it), the costs of the pairings held as
  the best one, from the pairing the search starts with to the last candidate it accepts,
  are strictly decreasing.\<close>

theorem MinimizePairingCost_accepts_strictly_less:
  assumes "MinimizePairingCost fuel cf pl pair remainingRounds depth pBegin pEndConst
           = Inr (pl', pair', c, trace)"
  shows "\<forall>t \<in> set trace. sorted_wrt (\<lambda>a b. Cost_less b a) t"
  using assms
  by (auto simp: MinimizePairingCost_def ebind_Inr split: if_splits dest: minimize_pass_sorted)

theorem MinimizePairingCost_accepts_strictly_less_witness:
  "\<exists>pl pair pl' pair' c trace.
     CanonicalPlayerVector example_swiss_section = Inr pl
     \<and> HintPairings pl True = Inr pair
     \<and> MinimizePairingCost 1000 example_lookahead_cost pl pair 3 1 0 4 = Inr (pl', pair', c, trace)
     \<and> map (map cost_key) trace = [[(0, 2), (0, 1), (0, 0)], [(1, 0), (0, 1)]]
     \<and> list_all (sorted_wrt (\<lambda>a b. Cost_less b a)) trace"
proof -
  have ev: "map_sum id (\<lambda>(pl, pair, c, trace). map (map cost_key) trace)
              (ebind (CanonicalPlayerVector example_swiss_section) (\<lambda>pl.
               ebind (HintPairings pl True) (\<lambda>pair.
               MinimizePairingCost 1000 example_lookahead_cost pl pair 3 1 0 4)))
            = Inr [[(0, 2), (0, 1), (0, 0)], [(1, 0), (0, 1)]]"
    by code_simp
  then obtain r where
    r: "ebind (CanonicalPlayerVector example_swiss_section) (\<lambda>pl.
        ebind (HintPairings pl True) (\<lambda>pair.
        MinimizePairingCost 1000 example_lookahead_cost pl pair 3 1 0 4)) = Inr r"
    and t: "(\<lambda>(pl, pair, c, trace). map (map cost_key) trace) r
            = [[(0, 2), (0, 1), (0, 0)], [(1, 0), (0, 1)]]"
    by (cases "ebind (CanonicalPlayerVector example_swiss_section) (\<lambda>pl.
        ebind (HintPairings pl True) (\<lambda>pair.
        MinimizePairingCost 1000 example_lookahead_cost pl pair 3 1 0 4))") auto
  obtain pl' pair' c trace where r': "r = (pl', pair', c, trace)" by (cases r) auto
  from r obtain pl pair where
    c: "CanonicalPlayerVector example_swiss_section = Inr pl"
    and h: "HintPairings pl True = Inr pair"
    and m: "MinimizePairingCost 1000 example_lookahead_cost pl pair 3 1 0 4
            = Inr (pl', pair', c, trace)"
    unfolding r' ebind_Inr by blast
  from MinimizePairingCost_accepts_strictly_less [OF m]
  have "list_all (sorted_wrt (\<lambda>a b. Cost_less b a)) trace" by (simp add: list_all_iff)
  with c h m t r' show ?thesis by auto
qed

section \<open>Properties of the tiebreaks\<close>

lemma efold_append: "efold f (xs @ ys) s = ebind (efold f xs s) (efold f ys)"
proof (induction xs arbitrary: s)
  case Nil
  show ?case by (simp add: ebind_def)
next
  case (Cons x xs)
  show ?case by (cases "f x s") (simp_all add: ebind_def Cons.IH)
qed

lemma efold_upt_Suc:
  "efold f [0 ..< Suc n] s = Inr s' \<longleftrightarrow> (\<exists>s1. efold f [0 ..< n] s = Inr s1 \<and> f n s1 = Inr s')"
proof -
  have r: "ebind m Inr = m" for m :: "error + 'b"
    by (cases m) (simp_all add: ebind_def)
  have e: "efold f [] = Inr" by (rule ext) simp
  have "efold f [n] = f n" by (rule ext) (simp add: r e)
  then have "efold f [0 ..< Suc n] s = ebind (efold f [0 ..< n] s) (f n)"
    by (simp add: efold_append)
  then show ?thesis by (simp add: ebind_Inr)
qed

lemma player_step_fields:
  "player_step x p = Inr p' \<Longrightarrow> player p' = player p \<and> coinFlip p' = coinFlip p"
  unfolding player_step_def Let_def ebind_Inr
  by (elim exE conjE) (auto split: if_splits)

lemma TiebreakPlayer_fields:
  assumes "TiebreakPlayer p byeKey = Inr p1"
  shows "player p1 = player p \<and> coinFlip p1 = - 1"
proof (cases "player p = byeKey")
  case True
  with assms show ?thesis
    by (auto simp: TiebreakPlayer_def Let_def ebind_Inr)
next
  case False
  define p0 where "p0 = p\<lparr>rawScore := 0, adjScore := 0, cumScore := 0, byeScore := 0, kashdan := 0,
                 byeCnt := 0, blackCnt := 0, winCnt := 0, firstLossRound := 0,
                 coinFlip := - 1\<rparr>"
  from assms False obtain q where
    q: "efold player_step [0 ..< length (color p)] p0 = Inr q"
    and p1: "p1 = q\<lparr>cumScore := cumScore q - byeScore q, firstLossRound := firstLossRound q + 1\<rparr>"
    by (auto simp: TiebreakPlayer_def Let_def ebind_Inr p0_def)
  have "player p0 = player p \<and> coinFlip p0 = - 1" by (simp add: p0_def)
  from efold_preserves [where P = "\<lambda>q. player q = player p \<and> coinFlip q = - 1", OF _ this q]
  have "player q = player p \<and> coinFlip q = - 1"
    using player_step_fields by metis
  with p1 show ?thesis by simp
qed

lemma coin_flip_loop_fresh:
  "coin_flip_loop prm p rands = Inr (p2, rands') \<Longrightarrow>
   \<exists>r. p2 = p\<lparr>coinFlip := of_nat r\<rparr>
      \<and> \<not> list_ex (\<lambda>(k, q). coinFlip q = of_nat r)
            (takeWhile (\<lambda>(k, q). player q \<noteq> player p) prm)"
proof (induction rands)
  case Nil
  then show ?case by simp
next
  case (Cons r rands)
  show ?case
  proof (cases "list_ex (\<lambda>(k, q). coinFlip q = of_nat r)
                  (takeWhile (\<lambda>(k, q). player q \<noteq> player p) prm)")
    case True
    with Cons show ?thesis by simp
  next
    case False
    with Cons.prems have "p2 = p\<lparr>coinFlip := of_nat r\<rparr>" by simp
    with False show ?thesis by blast
  qed
qed

lemma calc_step_inv:
  assumes inv: "calc_inv byeKey ks n st"
    and d: "distinct ks"
    and n: "n < length ks"
    and step: "calc_step byeKey n st = Inr st'"
  shows "calc_inv byeKey ks (Suc n) st'"
proof -
  obtain prm rands bye where st: "st = (prm, rands, bye)" by (cases st) auto
  from inv st have ks: "map fst prm = ks"
    and ent: "\<And>i. i < n \<Longrightarrow> player (snd (prm ! i)) = ks ! i
                 \<and> (if ks ! i = byeKey then coinFlip (snd (prm ! i)) = - 1
                     else coinFlip (snd (prm ! i)) \<ge> 0)"
    and dist: "distinct (map (\<lambda>e. coinFlip (snd e)) (take n prm))"
    and bye: "case bye of None \<Rightarrow> True | Some b \<Rightarrow> b < n \<and> ks ! b = byeKey"
    by (simp_all add: calc_inv_def)
  from ks n have len: "n < length prm" by (metis length_map)
  obtain k p where kp: "prm ! n = (k, p)" by (cases "prm ! n") auto
  from ks len kp have k: "k = ks ! n" by (metis fst_conv nth_map)
  from step st kp obtain p1 p2 rands' where
    kpl: "k = player p"
    and tp: "TiebreakPlayer p byeKey = Inr p1"
    and cf: "TiebreakCoinFlip (prm[n := (k, p1)]) p1 byeKey rands = Inr (p2, rands')"
    and res: "(if player p2 = byeKey
               then ebind (ASSERT (bye = None)) (\<lambda>_. Inr (prm[n := (k, p2)], rands', Some n))
               else Inr (prm[n := (k, p2)], rands', bye)) = Inr st'"
    by (auto simp: calc_step_def ebind_Inr ASSERT_Inr)
  from TiebreakPlayer_fields [OF tp] kpl have p1: "player p1 = k" "coinFlip p1 = - 1" by simp_all
  define prm' where "prm' = prm[n := (k, p2)]"
  have tk: "take n prm' = take n prm" by (simp add: prm'_def)
  have nth': "prm' ! n = (k, p2)" using len by (simp add: prm'_def)
  have old: "i < n \<Longrightarrow> prm' ! i = prm ! i" for i by (simp add: prm'_def)
  have ks': "map fst prm' = ks"
    using ks kp len unfolding prm'_def
    by (metis fst_conv list_update_id map_update)
  have tks: "take (Suc n) prm' = take n prm @ [(k, p2)]"
    using len nth' tk by (metis length_list_update prm'_def take_Suc_conv_app_nth)
  have earlier: "i < n \<Longrightarrow> ks ! i \<noteq> k" for i
    using d n k by (metis less_trans nat_neq_iff nth_eq_iff_index_eq)
  have p2: "player p2 = k
            \<and> (if k = byeKey then coinFlip p2 = - 1 else coinFlip p2 \<ge> 0)
            \<and> coinFlip p2 \<notin> set (map (\<lambda>e. coinFlip (snd e)) (take n prm))"
  proof (cases "k = byeKey")
    case True
    with cf p1 have "p2 = p1" by (simp add: TiebreakCoinFlip_def)
    moreover have "- 1 \<notin> set (map (\<lambda>e. coinFlip (snd e)) (take n prm))"
    proof
      assume "- 1 \<in> set (map (\<lambda>e. coinFlip (snd e)) (take n prm))"
      then obtain i where i: "i < n" and "coinFlip (snd (prm ! i)) = - 1"
        using len by (auto simp: in_set_conv_nth)
      moreover from ent [OF i] earlier [OF i] True have "coinFlip (snd (prm ! i)) \<ge> 0"
        by (simp split: if_splits)
      ultimately show False by simp
    qed
    ultimately show ?thesis using p1 True by simp
  next
    case False
    with cf p1 have "coin_flip_loop (prm[n := (k, p1)]) p1 rands = Inr (p2, rands')"
      by (simp add: TiebreakCoinFlip_def)
    from coin_flip_loop_fresh [OF this] obtain r where
      r: "p2 = p1\<lparr>coinFlip := of_nat r\<rparr>"
      and fresh: "\<not> list_ex (\<lambda>(k, q). coinFlip q = of_nat r)
                     (takeWhile (\<lambda>(k, q). player q \<noteq> player p1) (prm[n := (k, p1)]))"
      by blast
    have "takeWhile (\<lambda>(k, q). player q \<noteq> player p1) (prm[n := (k, p1)])
          = take n (prm[n := (k, p1)])"
    proof (rule takeWhile_eq_take_P_nth)
      fix i assume i: "i < n" and "i < length (prm[n := (k, p1)])"
      from ent [OF i] earlier [OF i] p1 have "player (snd (prm ! i)) \<noteq> player p1" by simp
      with i show "case prm[n := (k, p1)] ! i of (k, q) \<Rightarrow> player q \<noteq> player p1"
        by (simp add: case_prod_beta)
    next
      assume "n < length (prm[n := (k, p1)])"
      then show "\<not> (case prm[n := (k, p1)] ! n of (k, q) \<Rightarrow> player q \<noteq> player p1)"
        using p1 by simp
    qed
    with fresh have "\<not> list_ex (\<lambda>(k, q). coinFlip q = of_nat r) (take n prm)" by simp
    then have "of_nat r \<notin> set (map (\<lambda>e. coinFlip (snd e)) (take n prm))"
      by (auto simp: list_ex_iff)
    with r p1 False show ?thesis by simp
  qed
  from res p2 have st': "st' = (prm', rands', if k = byeKey then Some n else bye)"
    and byeNone: "k = byeKey \<Longrightarrow> bye = None"
    by (auto simp: ebind_Inr ASSERT_Inr prm'_def split: if_splits)
  have e': "i < Suc n \<Longrightarrow> player (snd (prm' ! i)) = ks ! i
                 \<and> (if ks ! i = byeKey then coinFlip (snd (prm' ! i)) = - 1
                     else coinFlip (snd (prm' ! i)) \<ge> 0)" for i
  proof (cases "i = n")
    case True
    with nth' p2 k show ?thesis by simp
  next
    case False
    assume "i < Suc n"
    with False have "i < n" by simp
    with ent [OF this] old show ?thesis by simp
  qed
  have d': "distinct (map (\<lambda>e. coinFlip (snd e)) (take (Suc n) prm'))"
    using dist p2 by (simp add: tks)
  have b': "case (if k = byeKey then Some n else bye) of None \<Rightarrow> True
            | Some b \<Rightarrow> b < Suc n \<and> ks ! b = byeKey"
    using bye k by (auto split: option.splits)
  show ?thesis
    unfolding st' calc_inv_def using ks' e' d' b' by simp
qed

lemma calc_loop_inv:
  assumes d: "distinct (map fst prm)"
  shows "n \<le> length prm \<Longrightarrow> efold (calc_step byeKey) [0 ..< n] (prm, rands, None) = Inr st \<Longrightarrow>
         calc_inv byeKey (map fst prm) n st"
proof (induction n arbitrary: st)
  case 0
  then show ?case by (auto simp: calc_inv_def)
next
  case (Suc n)
  from Suc.prems(2) obtain s1 where
    s1: "efold (calc_step byeKey) [0 ..< n] (prm, rands, None) = Inr s1"
    and step: "calc_step byeKey n s1 = Inr st"
    unfolding efold_upt_Suc by blast
  from Suc.IH [OF _ s1] Suc.prems(1) have "calc_inv byeKey (map fst prm) n s1" by simp
  from calc_step_inv [OF this d _ step] Suc.prems(1) show ?case by simp
qed

lemma update_loop:
  assumes f: "\<And>m p p'. f m p = Inr p' \<Longrightarrow> Q p p'"
  shows "n \<le> length prm \<Longrightarrow> efold (update_step f) [0 ..< n] prm = Inr prm' \<Longrightarrow>
         length prm' = length prm
         \<and> (\<forall>i < n. fst (prm' ! i) = fst (prm ! i) \<and> Q (snd (prm ! i)) (snd (prm' ! i)))
         \<and> (\<forall>i \<ge> n. i < length prm \<longrightarrow> prm' ! i = prm ! i)"
proof (induction n arbitrary: prm')
  case 0
  then show ?case by simp
next
  case (Suc n)
  from Suc.prems(2) obtain m where
    m: "efold (update_step f) [0 ..< n] prm = Inr m"
    and step: "update_step f n m = Inr prm'"
    unfolding efold_upt_Suc by blast
  from Suc.IH [OF _ m] Suc.prems(1) have
    len: "length m = length prm"
    and lo: "\<And>i. i < n \<Longrightarrow> fst (m ! i) = fst (prm ! i) \<and> Q (snd (prm ! i)) (snd (m ! i))"
    and hi: "\<And>i. i \<ge> n \<Longrightarrow> i < length prm \<Longrightarrow> m ! i = prm ! i"
    by simp_all
  obtain k p where kp: "m ! n = (k, p)" by (cases "m ! n") auto
  from step kp obtain p' where fp: "f m p = Inr p'" and prm': "prm' = m[n := (k, p')]"
    by (auto simp: update_step_def ebind_Inr)
  from Suc.prems(1) have n: "n < length prm" by simp
  from hi [of n] n kp have orig: "prm ! n = (k, p)" by simp
  have "length prm' = length prm" by (simp add: prm' len)
  moreover have "fst (prm' ! i) = fst (prm ! i) \<and> Q (snd (prm ! i)) (snd (prm' ! i))"
    if "i < Suc n" for i
  proof (cases "i = n")
    case True
    with prm' len n orig f [OF fp] show ?thesis by simp
  next
    case False
    with that have "i < n" by simp
    with lo [OF this] prm' show ?thesis by simp
  qed
  moreover have "prm' ! i = prm ! i" if "i \<ge> Suc n" "i < length prm" for i
    using that hi [of i] prm' by simp
  ultimately show ?case by blast
qed

lemma TiebreakPerformance_fields:
  "TiebreakPerformance rd m p byeKey = Inr p' \<Longrightarrow>
   player p' = player p \<and> coinFlip p' = coinFlip p"
  by (auto simp: TiebreakPerformance_def ebind_Inr)

lemma TiebreakOpponent_fields:
  "TiebreakOpponent rd m p byeKey = Inr p' \<Longrightarrow>
   player p' = player p \<and> tiebreak_value p' \<noteq> [] \<and> last (tiebreak_value p') = coinFlip p"
  by (auto simp: TiebreakOpponent_def Let_def ebind_Inr)

text \<open>Claim C9.  When \<^verbatim>\<open>TiebreakCalculation\<close> completes on a map (its keys are pairwise
  different, as in every map), the map has an entry under the bye key, the tiebreak
  values of that entry are all zero except the last one, the coin flip, which is \<open>-1\<close>,
  and the last tiebreak values, the coin flips, of the entries of the map are pairwise
  different.  This holds for every sequence of numbers that \<^verbatim>\<open>rand()\<close> returns and for
  every rounding of the quotients.\<close>

theorem TiebreakCalculation_bye_and_coin_flips:
  assumes run: "TiebreakCalculation rd prm byeKey rands = Inr (prm', rands')"
    and keys: "distinct (map fst prm)"
  shows "(\<exists>p. map_of prm' byeKey = Some p \<and> tiebreak_value p \<noteq> []
              \<and> (\<forall>v \<in> set (butlast (tiebreak_value p)). v = 0)
              \<and> last (tiebreak_value p) = - 1)
         \<and> distinct (map (\<lambda>e. last (tiebreak_value (snd e))) prm')"
proof -
  let ?n = "length prm"
  from run obtain prm1 rands1 b prm2 where
    l1: "efold (calc_step byeKey) [0 ..< ?n] (prm, rands, None) = Inr (prm1, rands1, Some b)"
    and l2: "efold (update_step (\<lambda>m p. TiebreakPerformance rd m p byeKey)) [0 ..< ?n] prm1
             = Inr prm2"
    and l3: "efold (update_step (\<lambda>m p. TiebreakOpponent rd m p byeKey)) [0 ..< ?n] prm2
             = Inr prm'"
    and z: "list_all (\<lambda>t. t = 0) (butlast (tiebreak_value (snd (prm' ! b))))"
    and m1: "last (tiebreak_value (snd (prm' ! b))) = - 1"
    by (auto simp: TiebreakCalculation_def Let_def ebind_Inr ASSERT_Inr split: option.splits)
  from calc_loop_inv [OF keys _ l1] have
    ks1: "map fst prm1 = map fst prm"
    and ent: "\<And>i. i < ?n \<Longrightarrow> player (snd (prm1 ! i)) = map fst prm ! i"
    and dist: "distinct (map (\<lambda>e. coinFlip (snd e)) (take ?n prm1))"
    and b: "b < ?n" "map fst prm ! b = byeKey"
    by (simp_all add: calc_inv_def)
  from ks1 have len1: "length prm1 = ?n" by (metis length_map)
  from update_loop [where f = "\<lambda>m p. TiebreakPerformance rd m p byeKey"
      and Q = "\<lambda>p p'. player p' = player p \<and> coinFlip p' = coinFlip p", OF _ _ l2]
    TiebreakPerformance_fields len1
  have len2: "length prm2 = ?n"
    and e2: "\<And>i. i < ?n \<Longrightarrow> fst (prm2 ! i) = fst (prm1 ! i)
               \<and> player (snd (prm2 ! i)) = player (snd (prm1 ! i))
               \<and> coinFlip (snd (prm2 ! i)) = coinFlip (snd (prm1 ! i))"
    by auto
  from update_loop [where f = "\<lambda>m p. TiebreakOpponent rd m p byeKey"
      and Q = "\<lambda>p p'. player p' = player p \<and> tiebreak_value p' \<noteq> []
                 \<and> last (tiebreak_value p') = coinFlip p", OF _ _ l3]
    TiebreakOpponent_fields len2
  have len3: "length prm' = ?n"
    and e3: "\<And>i. i < ?n \<Longrightarrow> fst (prm' ! i) = fst (prm2 ! i)
               \<and> player (snd (prm' ! i)) = player (snd (prm2 ! i))
               \<and> tiebreak_value (snd (prm' ! i)) \<noteq> []
               \<and> last (tiebreak_value (snd (prm' ! i))) = coinFlip (snd (prm2 ! i))"
    by auto
  have fst3: "map fst prm' = map fst prm"
  proof (rule nth_equalityI)
    show "length (map fst prm') = length (map fst prm)" by (simp add: len3)
  next
    fix i assume "i < length (map fst prm')"
    then have i: "i < ?n" by (simp add: len3)
    with e3 [OF i] e2 [OF i] len1 len3 ks1 show "map fst prm' ! i = map fst prm ! i"
      by (metis length_map nth_map)
  qed
  have flips: "map (\<lambda>e. last (tiebreak_value (snd e))) prm' = map (\<lambda>e. coinFlip (snd e)) prm1"
  proof (rule nth_equalityI)
    show "length (map (\<lambda>e. last (tiebreak_value (snd e))) prm')
          = length (map (\<lambda>e. coinFlip (snd e)) prm1)"
      by (simp add: len3 len1)
  next
    fix i assume "i < length (map (\<lambda>e. last (tiebreak_value (snd e))) prm')"
    then have i: "i < ?n" by (simp add: len3)
    with e3 [OF i] e2 [OF i] len1 len3
    show "map (\<lambda>e. last (tiebreak_value (snd e))) prm' ! i = map (\<lambda>e. coinFlip (snd e)) prm1 ! i"
      by simp
  qed
  from dist len1 have d: "distinct (map (\<lambda>e. last (tiebreak_value (snd e))) prm')"
    by (simp add: flips)
  from fst3 keys have dk: "distinct (map fst prm')" by simp
  from b fst3 len3 have kb: "fst (prm' ! b) = byeKey" by (metis length_map nth_map)
  from b len3 have "prm' ! b \<in> set prm'" by simp
  with kb have "(byeKey, snd (prm' ! b)) \<in> set prm'" by (metis prod.collapse)
  with dk have "map_of prm' byeKey = Some (snd (prm' ! b))" by simp
  moreover from e3 [OF b(1)] have "tiebreak_value (snd (prm' ! b)) \<noteq> []" by simp
  moreover from z have "\<forall>v \<in> set (butlast (tiebreak_value (snd (prm' ! b)))). v = 0"
    by (simp add: list_all_iff)
  ultimately show ?thesis using m1 d by blast
qed

theorem TiebreakCalculation_bye_and_coin_flips_witness:
  "\<exists>prm' rands'.
     TiebreakCalculation (\<lambda>x. x) example_results ''0_0'' [7, 7, 3, 9] = Inr (prm', rands')
     \<and> map (\<lambda>e. (fst e, tiebreak_value (snd e))) prm'
       = [(''0_0'', [0, 0, 0, 0, 0, 0, 0, 0, 0, 0, 0, 0, 0, - 1]),
          (''1_0'', [0, 0, 1, 0, 0, 0, 4, 0, 0, 1100, 1400, 1, 2, 7]),
          (''2_0'', [0, 1, 0, 0, 0, 1, 1, 0, 1, 1800, 1500, 0, 1, 3])]
     \<and> (\<exists>p. map_of prm' ''0_0'' = Some p \<and> tiebreak_value p \<noteq> []
             \<and> list_all (\<lambda>v. v = 0) (butlast (tiebreak_value p))
             \<and> last (tiebreak_value p) = - 1)
     \<and> distinct (map (\<lambda>e. last (tiebreak_value (snd e))) prm')"
proof -
  have ev: "map_sum id (\<lambda>(prm, rs). map (\<lambda>e. (fst e, tiebreak_value (snd e))) prm)
              (TiebreakCalculation (\<lambda>x. x) example_results ''0_0'' [7, 7, 3, 9])
            = Inr [(''0_0'', [0, 0, 0, 0, 0, 0, 0, 0, 0, 0, 0, 0, 0, - 1]),
                   (''1_0'', [0, 0, 1, 0, 0, 0, 4, 0, 0, 1100, 1400, 1, 2, 7]),
                   (''2_0'', [0, 1, 0, 0, 0, 1, 1, 0, 1, 1800, 1500, 0, 1, 3])]"
    by code_simp
  then obtain prm' rands' where
    r: "TiebreakCalculation (\<lambda>x. x) example_results ''0_0'' [7, 7, 3, 9] = Inr (prm', rands')"
    and v: "map (\<lambda>e. (fst e, tiebreak_value (snd e))) prm'
       = [(''0_0'', [0, 0, 0, 0, 0, 0, 0, 0, 0, 0, 0, 0, 0, - 1]),
          (''1_0'', [0, 0, 1, 0, 0, 0, 4, 0, 0, 1100, 1400, 1, 2, 7]),
          (''2_0'', [0, 1, 0, 0, 0, 1, 1, 0, 1, 1800, 1500, 0, 1, 3])]"
    by (cases "TiebreakCalculation (\<lambda>x. x) example_results ''0_0'' [7, 7, 3, 9]") auto
  have k: "distinct (map fst example_results)"
    by (simp add: example_results_def)
  from TiebreakCalculation_bye_and_coin_flips [OF r k]
  have c1: "\<exists>p. map_of prm' ''0_0'' = Some p \<and> tiebreak_value p \<noteq> []
             \<and> list_all (\<lambda>v. v = 0) (butlast (tiebreak_value p))
             \<and> last (tiebreak_value p) = - 1"
    and c2: "distinct (map (\<lambda>e. last (tiebreak_value (snd e))) prm')"
    by (simp_all add: list_all_iff)
  show ?thesis
    by (rule exI [of _ prm'], rule exI [of _ rands']) (intro conjI r v c1 c2)
qed

section \<open>Properties of the pairing vector\<close>

lemma swap_mset: "swap i j xs = Inr ys \<Longrightarrow> mset ys = mset xs"
  by (auto simp: swap_def mset_swap split: if_splits)

lemma efold_mset:
  assumes "\<And>z xs ys. f z xs = Inr ys \<Longrightarrow> mset ys = mset xs"
    and "efold f zs xs = Inr ys"
  shows "mset ys = mset xs"
  using efold_preserves [where P = "\<lambda>s. mset s = mset xs" and f = f, OF _ _ assms(2)] assms(1)
  by simp

lemma rot_swap_mset: "rot_swap shift z z' xs = Inr ys \<Longrightarrow> mset ys = mset xs"
  by (auto simp: rot_swap_def ebind_Inr dest: swap_mset)

lemma down_loop_mset: "down_loop shift a b xs = Inr ys \<Longrightarrow> mset ys = mset xs"
  unfolding down_loop_def by (rule efold_mset [OF rot_swap_mset])

lemma down_loop_lt_mset: "down_loop_lt shift a b xs = Inr ys \<Longrightarrow> mset ys = mset xs"
  unfolding down_loop_lt_def by (rule efold_mset [OF rot_swap_mset])

lemma up_loop_mset: "up_loop shift a b xs = Inr ys \<Longrightarrow> mset ys = mset xs"
  unfolding up_loop_def by (rule efold_mset [OF rot_swap_mset])

lemma RotatePairDown_mset:
  "RotatePairDown xs x0 y0 pBegin0 pEnd0 oddDropDown oddPullUp shift = Inr ys \<Longrightarrow> mset ys = mset xs"
  unfolding RotatePairDown_def ebind_Inr
  by (elim exE conjE)
     (auto simp: ebind_Inr split: if_splits
           dest!: swap_mset down_loop_mset down_loop_lt_mset)

lemma RotatePairUp_mset:
  "RotatePairUp xs x0 y0 pBegin0 pEnd0 oddDropDown oddPullUp shift = Inr ys \<Longrightarrow> mset ys = mset xs"
  unfolding RotatePairUp_def ebind_Inr
  by (elim exE conjE)
     (auto simp: ebind_Inr split: if_splits
           dest!: swap_mset up_loop_mset)

lemma color_step_mset:
  "color_step pl isFlipX col pBegin pEnd lo v z st = Inr st' \<Longrightarrow> mset (fst st') = mset (fst st)"
  by (cases st) (auto simp: color_step_def ebind_Inr split: if_splits dest!: swap_mset)

lemma efold_mset_fst:
  assumes "\<And>z s s'. f z s = Inr s' \<Longrightarrow> mset (fst s') = mset (fst s)"
    and "efold f zs s = Inr s'"
  shows "mset (fst s') = mset (fst s)"
  using efold_preserves [where P = "\<lambda>t. mset (fst t) = mset (fst s)" and f = f, OF _ _ assms(2)]
    assms(1)
  by simp

lemma efold_swap_mset:
  "efold (\<lambda>z. swap (g z) (h z)) zs xs = Inr ys \<Longrightarrow> mset ys = mset xs"
  by (rule efold_mset [where f = "\<lambda>z. swap (g z) (h z)"]) (auto dest: swap_mset)

lemma efold_assert_swap_mset:
  "efold (\<lambda>z pr. ebind (ASSERT (b z)) (\<lambda>_. swap (g z) (h z) pr)) zs xs = Inr ys \<Longrightarrow>
   mset ys = mset xs"
  by (rule efold_mset [where f = "\<lambda>z pr. ebind (ASSERT (b z)) (\<lambda>_. swap (g z) (h z) pr)"])
     (auto simp: ebind_Inr dest: swap_mset)

lemma efold_color_step_mset:
  "efold (\<lambda>z. color_step pl isFlipX col pBegin pEnd (g z) (h z) z) zs s = Inr s' \<Longrightarrow>
   mset (fst s') = mset (fst s)"
  by (rule efold_mset_fst [where f = "\<lambda>z. color_step pl isFlipX col pBegin pEnd (g z) (h z) z"])
     (auto dest: color_step_mset)

lemma rotate_color_top_mset:
  "rotate_color_top pl xs x y oddPullUp isFlipX xColor px = Inr (Some (t, p2)) \<Longrightarrow> mset p2 = mset xs"
  unfolding rotate_color_top_def
  by (auto simp: ebind_Inr split: if_splits dest!: swap_mset efold_swap_mset)

lemma rotate_color_bottom_mset:
  "rotate_color_bottom pl x y pBegin pEnd oddDropDown isFlipX xColor yColor topz p2 = Inr (ch, ys) \<Longrightarrow>
   mset ys = mset p2"
  unfolding rotate_color_bottom_def
  by (auto simp: ebind_Inr split: if_splits
        dest!: swap_mset efold_assert_swap_mset efold_color_step_mset)

lemma RotateColor_mset:
  "RotateColor pl xs x y pBegin pEnd oddDropDown oddPullUp = Inr (ch, ys) \<Longrightarrow> mset ys = mset xs"
  unfolding RotateColor_def Let_def
  by (auto simp: ebind_Inr split: if_splits option.splits
        dest!: rotate_color_top_mset rotate_color_bottom_mset)

lemma apply_move_mset:
  "apply_move pl d s pBegin pEnd hasBye ij xs = Inr (Some ys) \<Longrightarrow> mset ys = mset xs"
  unfolding apply_move_def Let_def
  by (cases ij)
     (auto simp: ebind_Inr split: if_splits
        dest!: swap_mset RotatePairDown_mset RotatePairUp_mset RotateColor_mset)

lemma apply_moves_mset:
  "apply_moves pl d s pBegin pEnd hasBye iv xs = Inr (Some ys) \<Longrightarrow> mset ys = mset xs"
proof (induction pl d s pBegin pEnd hasBye iv xs rule: apply_moves.induct)
  case (1 pl d s pBegin pEnd hasBye i0 i1 rest testPair)
  from "1.prems" obtain r where
    r: "apply_move pl d s pBegin pEnd hasBye (i0, i1) testPair = Inr r"
    and c: "(case r of None \<Rightarrow> Inr None
             | Some t \<Rightarrow> apply_moves pl d s pBegin pEnd hasBye rest t) = Inr (Some ys)"
    by (auto simp: ebind_Inr)
  from c obtain t where t: "r = Some t" by (cases r) auto
  with c have "apply_moves pl d s pBegin pEnd hasBye rest t = Inr (Some ys)" by simp
  with "1.IH" have "mset ys = mset t" by blast
  moreover from r t have "mset t = mset testPair" by (auto dest: apply_move_mset)
  ultimately show ?case by simp
qed simp_all

lemma order_ranks_mset: "order_ranks xs = Inr ys \<Longrightarrow> mset ys = mset xs"
proof (induction xs arbitrary: ys rule: order_ranks.induct)
  case (1 a b rest)
  then show ?case by (auto simp: ebind_Inr)
qed simp_all

lemma insert_board_mset: "insert_board pl k xs = Inr ys \<Longrightarrow> mset ys = mset xs"
proof (induction k arbitrary: xs)
  case 0
  then show ?case by simp
next
  case (Suc k)
  from Suc.prems show ?case
    by (auto simp: Let_def ebind_Inr split: if_splits dest!: Suc.IH swap_mset)
qed

lemma SortBoards_mset: "SortBoards pl xs = Inr ys \<Longrightarrow> mset ys = mset xs"
proof -
  assume a: "SortBoards pl xs = Inr ys"
  have "sort_board_step pl k zs = Inr zs' \<Longrightarrow> mset zs' = mset zs" for k zs zs'
    by (auto simp: sort_board_step_def ebind_Inr dest: insert_board_mset)
  from efold_mset [of "sort_board_step pl", OF this] a show ?thesis
    by (auto simp: SortBoards_def ebind_Inr split: if_splits)
qed

lemma try_candidate_cases:
  assumes "try_candidate cf pl remainingRounds pBegin pEnd usePairableCost testPair0 st = Inr st'"
  shows "st' = st \<or> (\<exists>t1 t c cp. order_ranks testPair0 = Inr t1 \<and> SortBoards pl t1 = Inr t
            \<and> st' = st\<lparr>bestPair := t, bestCost := c, bestCostPlayers := cp,
                         isFoundBetter := True, accepted := c # accepted st\<rparr>)"
  using assms by (auto simp: try_candidate_def ebind_Inr split: if_splits)

lemma move_step_mset:
  assumes "move_step cf pl remainingRounds pBegin pEnd usePairableCost hasBye d iv s st = Inr st'"
  shows "mset (bestPair st') = mset (bestPair st)"
proof -
  from assms obtain r where
    m: "apply_moves pl d s pBegin pEnd hasBye iv (bestPair st) = Inr r"
    and c: "(case r of None \<Rightarrow> Inr st
         | Some testPair \<Rightarrow> try_candidate cf pl remainingRounds pBegin pEnd usePairableCost testPair st)
        = Inr st'"
    by (auto simp: move_step_def ebind_Inr)
  show ?thesis
  proof (cases r)
    case None
    with c show ?thesis by simp
  next
    case (Some testPair)
    with m have t: "mset testPair = mset (bestPair st)" by (auto dest: apply_moves_mset)
    from c Some try_candidate_cases [of cf pl remainingRounds pBegin pEnd usePairableCost testPair st st']
    show ?thesis using t by (auto dest!: order_ranks_mset SortBoards_mset)
  qed
qed

lemma moves_mset:
  assumes "efold (move_step cf pl remainingRounds pBegin pEnd usePairableCost hasBye d iv) ss st = Inr st'"
  shows "mset (bestPair st') = mset (bestPair st)"
  using efold_preserves [where P = "\<lambda>s. mset (bestPair s) = mset (bestPair st)", OF _ _ assms]
    move_step_mset
  by metis

lemma search_while_mset:
  "search_while fuel cf pl remainingRounds pBegin pEnd usePairableCost hasBye d iv st = Inr st' \<Longrightarrow>
   mset (bestPair st') = mset (bestPair st)"
proof (induction fuel arbitrary: iv st)
  case 0
  then show ?case by simp
next
  case (Suc fuel)
  show ?case
  proof (cases "IsZero (bestCost st)")
    case True
    with Suc.prems show ?thesis by simp
  next
    case False
    with Suc.prems obtain iv' where
      r1: "(if iv' = replicate (2 * nat d) pBegin then Inr st
            else ebind (skip_tuple d (bestPair st) (bestCostPlayers st) None iv') (\<lambda>skip.
              if skip
              then search_while fuel cf pl remainingRounds pBegin pEnd usePairableCost hasBye d iv' st
              else ebind (efold (move_step cf pl remainingRounds pBegin pEnd usePairableCost hasBye d iv')
                            [0 ..< (if maxChange iv' \<le> 2 then 1 else 8)] st) (\<lambda>st'.
                   search_while fuel cf pl remainingRounds pBegin pEnd usePairableCost hasBye d iv' st')))
           = Inr st'"
      by (auto simp: ebind_Inr)
    show ?thesis
    proof (cases "iv' = replicate (2 * nat d) pBegin")
      case True
      with r1 show ?thesis by simp
    next
      case False
      with r1 obtain skip where
        r2: "(if skip
              then search_while fuel cf pl remainingRounds pBegin pEnd usePairableCost hasBye d iv' st
              else ebind (efold (move_step cf pl remainingRounds pBegin pEnd usePairableCost hasBye d iv')
                            [0 ..< (if maxChange iv' \<le> 2 then 1 else 8)] st) (\<lambda>st'.
                   search_while fuel cf pl remainingRounds pBegin pEnd usePairableCost hasBye d iv' st'))
             = Inr st'"
        by (auto simp: ebind_Inr)
      show ?thesis
      proof (cases skip)
        case True
        with r2 Suc.IH show ?thesis by simp
      next
        case False
        with r2 obtain st1 where
          m: "efold (move_step cf pl remainingRounds pBegin pEnd usePairableCost hasBye d iv')
                [0 ..< (if maxChange iv' \<le> 2 then 1 else 8)] st = Inr st1"
          and w: "search_while fuel cf pl remainingRounds pBegin pEnd usePairableCost hasBye d iv' st1
                  = Inr st'"
          by (auto simp: ebind_Inr)
        from moves_mset [OF m] Suc.IH [OF w] show ?thesis by simp
      qed
    qed
  qed
qed

lemma search_depth_mset:
  "search_depth fuel fw cf pl remainingRounds pBegin pEnd usePairableCost hasBye depth d st = Inr st' \<Longrightarrow>
   mset (bestPair st') = mset (bestPair st)"
proof (induction fuel arbitrary: d st)
  case 0
  then show ?case by simp
next
  case (Suc fuel)
  show ?case
  proof (cases "pBegin < pEnd \<and> d \<le> depth")
    case False
    with Suc.prems show ?thesis by auto
  next
    case True
    with Suc.prems obtain st1 where
      w: "search_while fw cf pl remainingRounds pBegin pEnd usePairableCost hasBye d
            (replicate (2 * nat d) pBegin) (st\<lparr>isFoundBetter := False\<rparr>) = Inr st1"
      and r: "search_depth fuel fw cf pl remainingRounds pBegin pEnd usePairableCost hasBye depth
                (if isFoundBetter st1 then d else d + 1) st1 = Inr st'"
      by (auto simp: ebind_Inr)
    from search_while_mset [OF w] Suc.IH [OF r] show ?thesis by simp
  qed
qed

lemma minimize_pass_mset:
  assumes "minimize_pass fuel cf pl pair remainingRounds depth pBegin pEndConst usePairableCost
           = Inr (st, pEnd)"
  shows "mset (bestPair st) = mset pair"
proof -
  from assms obtain pEnd' c cp codes where
    "search_depth fuel fuel cf pl remainingRounds pBegin pEnd' usePairableCost (pEndConst mod 2 \<noteq> 0)
       depth 1 \<lparr>bestPair = pair, bestCost = c, bestCostPlayers = cp, isFoundBetter = False,
                accepted = [c]\<rparr> = Inr st"
    by (auto simp: minimize_pass_def Let_def ebind_Inr)
  from search_depth_mset [OF this] show ?thesis by simp
qed

lemma MinimizePairingCost_result:
  assumes "MinimizePairingCost fuel cf pl pair remainingRounds depth pBegin pEndConst
           = Inr (pl', pair', c, trace)"
  shows "mset pair' = mset pair \<and> (\<exists>codes. pl' = set_warn_codes pl codes)"
  using assms
  by (auto simp: MinimizePairingCost_def ebind_Inr split: if_splits dest!: minimize_pass_mset)

lemma normalise_ranks_mset: "normalise_ranks pl xs = Inr ys \<Longrightarrow> mset ys = mset xs"
proof (induction pl xs arbitrary: ys rule: normalise_ranks.induct)
  case (1 pl a b rest)
  from "1.prems" obtain r where "normalise_ranks pl rest = Inr r"
    and "ys = (if rank (pl ! a) > rank (pl ! b) then b # a # r else a # b # r)"
    by (auto simp: ebind_Inr nth_chk_def split: if_splits)
  with "1.IH" show ?case by auto
qed simp_all

lemma rank_board_down_mset: "rank_board_down pl k xs = Inr ys \<Longrightarrow> mset ys = mset xs"
proof (induction k arbitrary: xs)
  case 0
  then show ?case by simp
next
  case (Suc k)
  from Suc.prems obtain stop where
    "(if stop then Inr xs
      else ebind (swap (2 * Suc k) (2 * Suc k - 2) xs) (\<lambda>pair1.
           ebind (swap (2 * Suc k + 1) (2 * Suc k - 1) pair1) (\<lambda>pair2.
           rank_board_down pl k pair2))) = Inr ys"
    unfolding rank_board_down.simps Let_def ebind_Inr by blast
  then show ?case
    by (cases stop) (auto simp: ebind_Inr dest!: Suc.IH swap_mset)
qed

lemma sort_by_rank_mset: "sort_by_rank pl xs = Inr ys \<Longrightarrow> mset ys = mset xs"
  unfolding sort_by_rank_def by (rule efold_mset [OF rank_board_down_mset])

lemma service_one_players:
  assumes "to_size_t (rank p1) = x" and "x \<noteq> bye"
  shows "(case service_one cb bye p1 acc of (p, s, oth) \<Rightarrow> mset (filter (\<lambda>i. i \<noteq> bye) (p @ s @ oth)))
         = (case acc of (p, s, oth) \<Rightarrow> mset (filter (\<lambda>i. i \<noteq> bye) (p @ s @ oth))) + {#x#}"
  using assms by (cases acc) (simp add: service_one_def)

lemma service_two_players:
  assumes "to_size_t (rank p1) = x" and "x \<noteq> bye" and "to_size_t (rank p2) = y" and "y \<noteq> bye"
  shows "(case service_two p1 p2 acc of (p, s, oth) \<Rightarrow> mset (filter (\<lambda>i. i \<noteq> bye) (p @ s @ oth)))
         = (case acc of (p, s, oth) \<Rightarrow> mset (filter (\<lambda>i. i \<noteq> bye) (p @ s @ oth))) + {#x, y#}"
  using assms by (cases acc) (simp add: service_two_def)

lemma hint_loop_players:
  "(\<forall>e \<in> set es. to_size_t (rank (pl ! snd e)) = snd e \<and> snd e \<noteq> bye) \<Longrightarrow>
   (case hint_loop pl cb bye es acc of (p, s, oth) \<Rightarrow> mset (filter (\<lambda>i. i \<noteq> bye) (p @ s @ oth)))
   = (case acc of (p, s, oth) \<Rightarrow> mset (filter (\<lambda>i. i \<noteq> bye) (p @ s @ oth))) + mset (map snd es)"
proof (induction pl cb bye es acc rule: hint_loop.induct)
  case (1 pl cb bye acc)
  then show ?case by simp
next
  case (2 pl cb bye e1 acc)
  then have "to_size_t (rank (pl ! snd e1)) = snd e1" "snd e1 \<noteq> bye" by simp_all
  from service_one_players [OF this] show ?case by simp
next
  case (3 pl cb bye e1 e2 rest acc)
  let ?p1 = "pl ! snd e1" and ?p2 = "pl ! snd e2"
  from "3.prems" have e1: "to_size_t (rank ?p1) = snd e1" "snd e1 \<noteq> bye"
    and e2: "to_size_t (rank ?p2) = snd e2" "snd e2 \<noteq> bye"
    and r: "\<forall>e \<in> set rest. to_size_t (rank (pl ! snd e)) = snd e \<and> snd e \<noteq> bye"
    by simp_all
  define c where "c \<longleftrightarrow> board_num ?p2 \<noteq> board_num ?p1 \<or> paired ?p2 \<noteq> paired ?p1
         \<or> (\<not> paired ?p1 \<and> (bye_request ?p1 \<or> bye_request ?p2))"
  have eq: "hint_loop pl cb bye (e1 # e2 # rest) acc
            = (if c then hint_loop pl cb bye (e2 # rest) (service_one cb bye ?p1 acc)
               else hint_loop pl cb bye rest (service_two ?p1 ?p2 acc))"
    unfolding c_def by (simp only: hint_loop.simps Let_def)
  show ?case
  proof (cases c)
    case True
    then have t: "board_num ?p2 \<noteq> board_num ?p1 \<or> paired ?p2 \<noteq> paired ?p1
         \<or> (\<not> paired ?p1 \<and> (bye_request ?p1 \<or> bye_request ?p2))"
      unfolding c_def by blast
    from "3.prems" have "\<forall>e \<in> set (e2 # rest). to_size_t (rank (pl ! snd e)) = snd e \<and> snd e \<noteq> bye"
      by simp
    from "3.IH"(1) [OF refl refl t this] service_one_players [OF e1, of cb acc]
    show ?thesis by (simp only: eq True if_True) simp
  next
    case False
    then have f: "\<not> (board_num ?p2 \<noteq> board_num ?p1 \<or> paired ?p2 \<noteq> paired ?p1
         \<or> (\<not> paired ?p1 \<and> (bye_request ?p1 \<or> bye_request ?p2)))"
      unfolding c_def by blast
    from "3.IH"(2) [OF refl refl f r] service_two_players [OF e1 e2, of acc]
    show ?thesis by (simp only: eq False if_False) simp
  qed
qed

lemma map_snd_filter_key:
  "map snd (filter (\<lambda>e. fst e \<noteq> k) (map (\<lambda>x. (f x, x)) xs)) = filter (\<lambda>x. f x \<noteq> k) xs"
  by (induction xs) simp_all

lemma hint_map_snd:
  "mset (map snd (hint_map pl))
   = mset (filter (\<lambda>x. board_num (pl ! x) \<noteq> - 1) [0 ..< length pl - 1])"
proof -
  have "mset (map snd (hint_map pl))
        = mset (map snd (filter (\<lambda>e. fst e \<noteq> - 1)
                     (map (\<lambda>x. (board_num (pl ! x), x)) [0 ..< length pl - 1])))"
    unfolding hint_map_def by simp
  then show ?thesis by (simp only: map_snd_filter_key)
qed

lemma hint_map_set: "e \<in> set (hint_map pl) \<Longrightarrow> snd e < length pl - 1"
  by (auto simp: hint_map_def)

lemma to_size_t_nat: "x < 2 ^ 64 \<Longrightarrow> to_size_t (int x) = x"
proof -
  assume "x < 2 ^ 64"
  then have "int x < 2 ^ 64" by (metis of_nat_less_iff of_nat_numeral of_nat_power)
  then show ?thesis by (simp add: to_size_t_def)
qed

lemma HintPairings_players:
  assumes h: "HintPairings pl cb = Inr pair" and sz: "length pl \<le> 2 ^ 64"
  shows "mset (filter (\<lambda>i. i \<noteq> length pl - 1) pair)
         = mset (filter (\<lambda>x. board_num (pl ! x) \<noteq> - 1) [0 ..< length pl - 1])"
proof -
  let ?bye = "length pl - 1"
  obtain p s oth where hl: "hint_loop pl cb ?bye (hint_map pl) ([], [], []) = (p, s, oth)"
    by (cases "hint_loop pl cb ?bye (hint_map pl) ([], [], [])") auto
  define pair2 where "pair2 = (if length (p @ s) mod 2 \<noteq> 0 then (p @ s) @ [?bye] else p @ s) @ oth"
  from h hl have ranks: "list_all (\<lambda>(x, p). rank p = int x) (enumerate 0 pl)"
    and "\<exists>pair3. normalise_ranks pl pair2 = Inr pair3 \<and> SortBoards pl pair3 = Inr pair"
    by (auto simp: HintPairings_def Let_def ebind_Inr ASSERT_Inr pair2_def)
  then obtain pair3 where n: "normalise_ranks pl pair2 = Inr pair3"
    and sb: "SortBoards pl pair3 = Inr pair"
    by blast
  note p2 = pair2_def
  have rk: "rank (pl ! x) = int x" if "x < length pl" for x
  proof -
    from that have "(x, pl ! x) \<in> set (enumerate 0 pl)"
      by (auto simp: in_set_enumerate_eq)
    with ranks show ?thesis by (auto simp: list_all_iff)
  qed
  have "\<forall>e \<in> set (hint_map pl). to_size_t (rank (pl ! snd e)) = snd e \<and> snd e \<noteq> ?bye"
  proof
    fix e assume "e \<in> set (hint_map pl)"
    then have l: "snd e < length pl - 1" by (rule hint_map_set)
    with sz have "snd e < 2 ^ 64" by simp
    with l rk [of "snd e"] show "to_size_t (rank (pl ! snd e)) = snd e \<and> snd e \<noteq> ?bye"
      by (simp add: to_size_t_nat)
  qed
  from hint_loop_players [OF this, of cb "([], [], [])"] hl
  have "mset (filter (\<lambda>i. i \<noteq> ?bye) (p @ s @ oth)) = mset (map snd (hint_map pl))" by simp
  then have f2: "mset (filter (\<lambda>i. i \<noteq> ?bye) pair2) = mset (map snd (hint_map pl))"
    by (simp add: pair2_def ac_simps)
  have "mset pair3 = mset pair2" using n by (rule normalise_ranks_mset)
  moreover have "mset pair = mset pair3" using sb by (rule SortBoards_mset)
  ultimately have "mset pair = mset pair2" by simp
  then have "filter_mset (\<lambda>i. i \<noteq> ?bye) (mset pair) = filter_mset (\<lambda>i. i \<noteq> ?bye) (mset pair2)"
    by simp
  then have "mset (filter (\<lambda>i. i \<noteq> ?bye) pair) = mset (filter (\<lambda>i. i \<noteq> ?bye) pair2)"
    by simp
  with f2 show ?thesis by (simp only: hint_map_snd)
qed

lemma upd_Inr: "upd i f xs = Inr ys \<longleftrightarrow> i < length xs \<and> ys = xs[i := f (xs ! i)]"
  by (auto simp: upd_def)

lemma nth_chk_Inr: "nth_chk xs i = Inr v \<longleftrightarrow> i < length xs \<and> v = xs ! i"
  by (auto simp: nth_chk_def)

lemma AllocateColor_bye:
  "play_id x = BYE_ID \<Longrightarrow> play_id y \<noteq> BYE_ID \<Longrightarrow> AllocateColor x y b = Inr c \<Longrightarrow> c = CHR ''B''"
  by (simp add: AllocateColor_def)

lemma FlipColor_B: "FlipColor (CHR ''B'') = CHR ''W''"
  by (simp add: FlipColor_def toupper_c_def)

lemma set_board_step:
  assumes "set_board pair fb k pl = Inr pl'"
  shows "2 * k + 1 < length pair \<and> pair ! (2 * k) < length pl \<and> pair ! (2 * k + 1) < length pl
         \<and> pair ! (2 * k) \<noteq> pair ! (2 * k + 1)
         \<and> play_id (pl ! (pair ! (2 * k))) \<noteq> BYE_ID
         \<and> length pl' = length pl
         \<and> (\<forall>i. i \<noteq> pair ! (2 * k) \<and> i \<noteq> pair ! (2 * k + 1) \<longrightarrow> pl' ! i = pl ! i)
         \<and> (\<forall>i < length pl. play_id (pl' ! i) = play_id (pl ! i))
         \<and> board_num (pl' ! (pair ! (2 * k))) = board_number fb k
         \<and> board_num (pl' ! (pair ! (2 * k + 1))) = board_number fb k
         \<and> ((board_color (pl' ! (pair ! (2 * k))) = CHR ''W''
              \<and> board_color (pl' ! (pair ! (2 * k + 1))) = CHR ''B'')
             \<or> (board_color (pl' ! (pair ! (2 * k))) = CHR ''B''
                 \<and> board_color (pl' ! (pair ! (2 * k + 1))) = CHR ''W''))
         \<and> (play_id (pl ! (pair ! (2 * k + 1))) = BYE_ID \<longrightarrow>
              board_color (pl' ! (pair ! (2 * k))) = CHR ''W''
              \<and> board_color (pl' ! (pair ! (2 * k + 1))) = CHR ''B'')"
proof -
  let ?i0 = "pair ! (2 * k)" and ?i1 = "pair ! (2 * k + 1)"
  let ?n = "board_number fb k"
  from assms have "\<exists>i0 p0 i1 pl1 pl2 c pl3.
      nth_chk pair (2 * k) = Inr i0 \<and> nth_chk pl i0 = Inr p0 \<and> play_id p0 \<noteq> BYE_ID
      \<and> nth_chk pair (2 * k + 1) = Inr i1
      \<and> upd i1 (\<lambda>p. p\<lparr>board_num := board_number fb k\<rparr>) pl = Inr pl1
      \<and> upd i0 (\<lambda>p. p\<lparr>board_num := board_number fb k\<rparr>) pl1 = Inr pl2
      \<and> AllocateColor (pl2 ! i1) (pl2 ! i0) (k mod 2 = 0) = Inr c
      \<and> upd i1 (\<lambda>p. p\<lparr>board_color := c\<rparr>) pl2 = Inr pl3
      \<and> upd i0 (\<lambda>p. p\<lparr>board_color := FlipColor c\<rparr>) pl3 = Inr pl'
      \<and> board_num (pl' ! i0) = board_num (pl' ! i1)
      \<and> ((board_color (pl' ! i0) = CHR ''W'' \<and> board_color (pl' ! i1) = CHR ''B'')
           \<or> (board_color (pl' ! i0) = CHR ''B'' \<and> board_color (pl' ! i1) = CHR ''W''))"
    unfolding set_board_def ebind_Inr ASSERT_Inr sum.inject by blast
  then obtain pl1 pl2 c pl3 where
    b0: "2 * k < length pair" and b1: "2 * k + 1 < length pair"
    and l0: "?i0 < length pl" and nb: "play_id (pl ! ?i0) \<noteq> BYE_ID"
    and u1: "upd ?i1 (\<lambda>p. p\<lparr>board_num := board_number fb k\<rparr>) pl = Inr pl1"
    and u2: "upd ?i0 (\<lambda>p. p\<lparr>board_num := board_number fb k\<rparr>) pl1 = Inr pl2"
    and ac: "AllocateColor (pl2 ! ?i1) (pl2 ! ?i0) (k mod 2 = 0) = Inr c"
    and u3: "upd ?i1 (\<lambda>p. p\<lparr>board_color := c\<rparr>) pl2 = Inr pl3"
    and u4: "upd ?i0 (\<lambda>p. p\<lparr>board_color := FlipColor c\<rparr>) pl3 = Inr pl'"
    and bn: "board_num (pl' ! ?i0) = board_num (pl' ! ?i1)"
    and col: "(board_color (pl' ! ?i0) = CHR ''W'' \<and> board_color (pl' ! ?i1) = CHR ''B'')
              \<or> (board_color (pl' ! ?i0) = CHR ''B'' \<and> board_color (pl' ! ?i1) = CHR ''W'')"
    unfolding nth_chk_Inr by blast
  from u1 have l1: "?i1 < length pl" and pl1_def: "pl1 = pl[?i1 := (pl ! ?i1)\<lparr>board_num := ?n\<rparr>]"
    by (simp_all add: upd_Inr)
  from u2 have pl2_def: "pl2 = pl1[?i0 := (pl1 ! ?i0)\<lparr>board_num := ?n\<rparr>]"
    by (simp add: upd_Inr)
  from u3 have pl3_def: "pl3 = pl2[?i1 := (pl2 ! ?i1)\<lparr>board_color := c\<rparr>]"
    by (simp add: upd_Inr)
  from u4 have pl': "pl' = pl3[?i0 := (pl3 ! ?i0)\<lparr>board_color := FlipColor c\<rparr>]"
    by (simp add: upd_Inr)
  from col have ne: "?i0 \<noteq> ?i1" by auto
  have len: "length pl' = length pl" by (simp add: pl' pl3_def pl2_def pl1_def)
  have other: "pl' ! i = pl ! i" if "i \<noteq> ?i0" "i \<noteq> ?i1" for i
    using that by (simp add: pl' pl3_def pl2_def pl1_def)
  have ids: "play_id (pl' ! i) = play_id (pl ! i)" if "i < length pl" for i
    using that l0 l1 by (simp add: pl' pl3_def pl2_def pl1_def nth_list_update)
  have n0: "board_num (pl' ! ?i0) = ?n"
    using l0 l1 ne by (simp add: pl' pl3_def pl2_def pl1_def)
  have bye: "board_color (pl' ! ?i0) = CHR ''W'' \<and> board_color (pl' ! ?i1) = CHR ''B''"
    if "play_id (pl ! ?i1) = BYE_ID"
  proof -
    from that l0 l1 ne have "play_id (pl2 ! ?i1) = BYE_ID" by (simp add: pl2_def pl1_def)
    moreover from nb l0 l1 ne have "play_id (pl2 ! ?i0) \<noteq> BYE_ID" by (simp add: pl2_def pl1_def)
    ultimately have "c = CHR ''B''" using ac by (rule AllocateColor_bye)
    with l0 l1 ne show ?thesis by (simp add: pl' pl3_def pl2_def pl1_def FlipColor_B)
  qed
  from n0 bn have n1: "board_num (pl' ! ?i1) = ?n" by simp
  show ?thesis
    using b1 l0 l1 ne nb len other ids n0 n1 col bye by (intro conjI allI impI) blast+
qed

lemma distinct_filter_nth:
  "distinct (filter P xs) \<Longrightarrow> a < length xs \<Longrightarrow> b < length xs \<Longrightarrow> a \<noteq> b \<Longrightarrow>
   xs ! a = xs ! b \<Longrightarrow> \<not> P (xs ! a)"
proof (induction xs arbitrary: a b)
  case Nil
  then show ?case by simp
next
  case (Cons x xs)
  show ?case
  proof (cases a)
    case 0
    with Cons.prems obtain b' where b: "b = Suc b'" by (cases b) auto
    with 0 Cons.prems have "x \<in> set xs" by (metis nth_Cons_0 nth_Cons_Suc nth_mem Suc_less_eq length_Cons)
    with Cons.prems(1) 0 show ?thesis by (auto split: if_splits)
  next
    case (Suc a')
    show ?thesis
    proof (cases b)
      case 0
      with Suc Cons.prems have "x \<in> set xs" by (metis nth_Cons_0 nth_Cons_Suc nth_mem Suc_less_eq length_Cons)
      with Cons.prems(1,5) 0 show ?thesis by (auto split: if_splits)
    next
      case (Suc b')
      from Cons.prems(1) have "distinct (filter P xs)" by (auto split: if_splits)
      from Cons.IH [OF this, of a' b'] Cons.prems \<open>a = Suc a'\<close> Suc show ?thesis by simp
    qed
  qed
qed

lemma set_board_loop:
  assumes D: "distinct (filter (\<lambda>i. play_id (pl ! i) \<noteq> BYE_ID) pair)"
  shows "j \<le> length pair div 2 \<Longrightarrow> efold (set_board pair fb) [0 ..< j] pl = Inr pl' \<Longrightarrow>
         length pl' = length pl
         \<and> (\<forall>i < length pl. play_id (pl' ! i) = play_id (pl ! i))
         \<and> (\<forall>i. i \<notin> set pair \<longrightarrow> pl' ! i = pl ! i)
         \<and> (\<forall>k < j. board_numbered pl' pair fb k \<and> board_coloured pl' pair k)"
proof (induction j arbitrary: pl')
  case 0
  then show ?case by simp
next
  case (Suc j)
  from Suc.prems(2) obtain q where
    q: "efold (set_board pair fb) [0 ..< j] pl = Inr q"
    and step: "set_board pair fb j q = Inr pl'"
    unfolding efold_upt_Suc by blast
  from Suc.IH [OF _ q] Suc.prems(1) have
    lenq: "length q = length pl"
    and idq: "\<And>i. i < length pl \<Longrightarrow> play_id (q ! i) = play_id (pl ! i)"
    and othq: "\<And>i. i \<notin> set pair \<Longrightarrow> q ! i = pl ! i"
    and okq: "\<And>k. k < j \<Longrightarrow> board_numbered q pair fb k \<and> board_coloured q pair k"
    by simp_all
  let ?j0 = "pair ! (2 * j)" and ?j1 = "pair ! (2 * j + 1)"
  from set_board_step [OF step] have
    b1: "2 * j + 1 < length pair" and l0: "?j0 < length q" and l1: "?j1 < length q"
    and ne: "?j0 \<noteq> ?j1" and nb: "play_id (q ! ?j0) \<noteq> BYE_ID"
    and len: "length pl' = length q"
    and oth: "\<And>i. i \<noteq> ?j0 \<Longrightarrow> i \<noteq> ?j1 \<Longrightarrow> pl' ! i = q ! i"
    and ids: "\<And>i. i < length q \<Longrightarrow> play_id (pl' ! i) = play_id (q ! i)"
    and n0: "board_num (pl' ! ?j0) = board_number fb j"
    and n1: "board_num (pl' ! ?j1) = board_number fb j"
    and col: "(board_color (pl' ! ?j0) = CHR ''W'' \<and> board_color (pl' ! ?j1) = CHR ''B'')
              \<or> (board_color (pl' ! ?j0) = CHR ''B'' \<and> board_color (pl' ! ?j1) = CHR ''W'')"
    and bye: "play_id (q ! ?j1) = BYE_ID \<Longrightarrow>
              board_color (pl' ! ?j0) = CHR ''W'' \<and> board_color (pl' ! ?j1) = CHR ''B''"
    by blast+
  have ids': "play_id (pl' ! i) = play_id (pl ! i)" if "i < length pl" for i
    using that ids [of i] idq [of i] lenq by simp
  have mem: "?j0 \<in> set pair" "?j1 \<in> set pair" using b1 by simp_all
  have oth': "pl' ! i = pl ! i" if "i \<notin> set pair" for i
    using that oth [of i] othq [of i] mem by metis
  have nodup: "pair ! a \<noteq> pair ! b"
    if "a < length pair" "b < length pair" "a \<noteq> b" "play_id (pl ! (pair ! a)) \<noteq> BYE_ID" for a b
    using distinct_filter_nth [OF D that(1,2,3)] that(4) by blast
  have new: "board_numbered pl' pair fb j \<and> board_coloured pl' pair j"
    using l0 l1 ne nb len n0 n1 col bye ids [OF l0] ids [OF l1]
    by (simp add: board_numbered_def board_coloured_def Let_def)
  have old: "board_numbered pl' pair fb k \<and> board_coloured pl' pair k" if k: "k < j" for k
  proof -
    let ?k0 = "pair ! (2 * k)" and ?k1 = "pair ! (2 * k + 1)"
    from okq [OF k] have
      k0: "?k0 < length q" and k1: "?k1 < length q" and kne: "?k0 \<noteq> ?k1"
      and knb: "play_id (q ! ?k0) \<noteq> BYE_ID"
      and kn0: "board_num (q ! ?k0) = board_number fb k"
      and kn1: "play_id (q ! ?k1) \<noteq> BYE_ID \<Longrightarrow> board_num (q ! ?k1) = board_number fb k"
      and kcol: "(board_color (q ! ?k0) = CHR ''W'' \<and> board_color (q ! ?k1) = CHR ''B'')
                 \<or> (board_color (q ! ?k0) = CHR ''B'' \<and> board_color (q ! ?k1) = CHR ''W'')"
      and kbye: "play_id (q ! ?k1) = BYE_ID \<Longrightarrow>
                 board_color (q ! ?k0) = CHR ''W'' \<and> board_color (q ! ?k1) = CHR ''B''"
      by (simp_all add: board_numbered_def board_coloured_def Let_def)
    from k b1 have kb: "2 * k < length pair" "2 * k + 1 < length pair" by simp_all
    from knb k0 lenq idq [of ?k0] have pnb: "play_id (pl ! ?k0) \<noteq> BYE_ID" by simp
    from k have "2 * k \<noteq> 2 * j" "2 * k \<noteq> 2 * j + 1" by simp_all
    with nodup [OF kb(1) _ _ pnb] b1 have "?k0 \<noteq> ?j0" "?k0 \<noteq> ?j1" by simp_all
    with oth have same0: "pl' ! ?k0 = q ! ?k0" by simp
    have id1: "play_id (pl' ! ?k1) = play_id (q ! ?k1)" using ids [OF k1] .
    show ?thesis
    proof (cases "play_id (q ! ?k1) = BYE_ID")
      case False
      with k1 lenq idq [of ?k1] have "play_id (pl ! ?k1) \<noteq> BYE_ID" by simp
      moreover from k have "2 * k + 1 \<noteq> 2 * j" "2 * k + 1 \<noteq> 2 * j + 1" by presburger+
      ultimately have "?k1 \<noteq> ?j0" "?k1 \<noteq> ?j1" using nodup [OF kb(2)] b1 by simp_all
      with oth have "pl' ! ?k1 = q ! ?k1" by simp
      with same0 okq [OF k] len show ?thesis
        by (simp add: board_numbered_def board_coloured_def Let_def)
    next
      case True
      have c1: "board_color (pl' ! ?k1) = CHR ''B''"
      proof (cases "?k1 = ?j1")
        case True
        with \<open>play_id (q ! ?k1) = BYE_ID\<close> bye show ?thesis by simp
      next
        case False
        moreover from True nb have "?k1 \<noteq> ?j0" by auto
        ultimately have "pl' ! ?k1 = q ! ?k1" using oth by simp
        with kbye [OF True] show ?thesis by simp
      qed
      from kbye [OF True] same0 have c0: "board_color (pl' ! ?k0) = CHR ''W''" by simp
      from k0 k1 kne knb kn0 same0 id1 True c0 c1 len show ?thesis
        by (simp add: board_numbered_def board_coloured_def Let_def)
    qed
  qed
  have "\<forall>k < Suc j. board_numbered pl' pair fb k \<and> board_coloured pl' pair k"
    using new old less_Suc_eq by blast
  with len lenq ids' oth' show ?case by simp
qed

lemma mset_filter_distinct:
  assumes "mset ys = mset xs" and "distinct (filter P xs)"
  shows "distinct (filter P ys)"
proof -
  from assms(1) have "mset (filter P ys) = mset (filter P xs)" by simp
  with assms(2) show ?thesis by (metis mset_eq_imp_distinct_iff)
qed

lemma set_boards_and_colors_boards:
  assumes run: "set_boards_and_colors pl pair0 fb = Inr (pl', pair)"
    and D: "distinct (filter (\<lambda>i. play_id (pl ! i) \<noteq> BYE_ID) pair0)"
  shows "mset pair = mset pair0 \<and> length pair mod 2 = 0 \<and> length pl' = length pl
         \<and> (\<forall>i < length pl. play_id (pl' ! i) = play_id (pl ! i))
         \<and> (\<forall>i. i \<notin> set pair \<and> i \<noteq> length pl - 1 \<longrightarrow> pl' ! i = pl ! i)
         \<and> (\<forall>k < length pair div 2. board_numbered pl' pair fb k \<and> board_coloured pl' pair k)"
proof -
  from run obtain pl1 where
    ev0: "length pair0 mod 2 = 0"
    and sr: "sort_by_rank pl pair0 = Inr pair"
    and loop: "efold (set_board pair fb) [0 ..< length pair div 2] pl = Inr pl1"
    and last: "play_id (last pl1) = BYE_ID"
    and pl': "pl' = pl1[length pl1 - 1 := (last pl1)\<lparr>board_num := - 1\<rparr>]"
    by (auto simp: set_boards_and_colors_def ebind_Inr ASSERT_Inr)
  from sr have ms: "mset pair = mset pair0" by (rule sort_by_rank_mset)
  then have "length pair = length pair0" by (metis size_mset)
  with ev0 have ev: "length pair mod 2 = 0" by simp
  from mset_filter_distinct [OF ms D]
  have D': "distinct (filter (\<lambda>i. play_id (pl ! i) \<noteq> BYE_ID) pair)" .
  from set_board_loop [OF D' _ loop] have
    len1: "length pl1 = length pl"
    and id1: "\<And>i. i < length pl \<Longrightarrow> play_id (pl1 ! i) = play_id (pl ! i)"
    and oth1: "\<And>i. i \<notin> set pair \<Longrightarrow> pl1 ! i = pl ! i"
    and ok1: "\<And>k. k < length pair div 2 \<Longrightarrow> board_numbered pl1 pair fb k \<and> board_coloured pl1 pair k"
    by simp_all
  have len: "length pl' = length pl" by (simp add: pl' len1)
  have nth': "pl' ! i = (if i = length pl1 - 1 \<and> pl1 \<noteq> [] then (last pl1)\<lparr>board_num := - 1\<rparr>
                         else pl1 ! i)" for i
    by (cases "pl1 = []") (simp_all add: pl' nth_list_update)
  have lastn: "pl1 \<noteq> [] \<Longrightarrow> last pl1 = pl1 ! (length pl1 - 1)"
    by (simp add: last_conv_nth)
  have ids: "play_id (pl' ! i) = play_id (pl ! i)" if "i < length pl" for i
    using that id1 [OF that] lastn by (auto simp: nth')
  have oth: "pl' ! i = pl ! i" if "i \<notin> set pair" "i \<noteq> length pl - 1" for i
    using that oth1 [of i] len1 by (simp add: nth')
  have ok: "board_numbered pl' pair fb k \<and> board_coloured pl' pair k" if k: "k < length pair div 2" for k
  proof -
    let ?k0 = "pair ! (2 * k)" and ?k1 = "pair ! (2 * k + 1)"
    from ok1 [OF k] have
      k0: "?k0 < length pl1" and k1: "?k1 < length pl1" and kne: "?k0 \<noteq> ?k1"
      and knb: "play_id (pl1 ! ?k0) \<noteq> BYE_ID"
      and kn0: "board_num (pl1 ! ?k0) = board_number fb k"
      and kn1: "play_id (pl1 ! ?k1) \<noteq> BYE_ID \<Longrightarrow> board_num (pl1 ! ?k1) = board_number fb k"
      and kcol: "(board_color (pl1 ! ?k0) = CHR ''W'' \<and> board_color (pl1 ! ?k1) = CHR ''B'')
                 \<or> (board_color (pl1 ! ?k0) = CHR ''B'' \<and> board_color (pl1 ! ?k1) = CHR ''W'')"
      and kbye: "play_id (pl1 ! ?k1) = BYE_ID \<Longrightarrow>
                 board_color (pl1 ! ?k0) = CHR ''W'' \<and> board_color (pl1 ! ?k1) = CHR ''B''"
      by (simp_all add: board_numbered_def board_coloured_def Let_def)
    from k0 have ne1: "pl1 \<noteq> []" by auto
    from knb last lastn [OF ne1] have n0: "?k0 \<noteq> length pl1 - 1" by auto
    have same: "board_color (pl' ! i) = board_color (pl1 ! i) \<and> play_id (pl' ! i) = play_id (pl1 ! i)"
      for i using lastn by (simp add: nth')
    have num1: "play_id (pl' ! ?k1) \<noteq> BYE_ID \<Longrightarrow> board_num (pl' ! ?k1) = board_number fb k"
      using kn1 last lastn [OF ne1] by (auto simp: nth')
    from n0 have num0: "board_num (pl' ! ?k0) = board_number fb k" using kn0 by (simp add: nth')
    from k0 k1 kne knb num0 num1 kcol kbye same len len1 show ?thesis
      by (simp add: board_numbered_def board_coloured_def Let_def)
  qed
  from ms ev len ids oth ok show ?thesis by blast
qed

lemma set_warn_codes_nth:
  "length (set_warn_codes pl codes) = length pl
   \<and> (\<forall>i < length pl. \<exists>w. set_warn_codes pl codes ! i = (pl ! i)\<lparr>warn_codes := w\<rparr>)"
  by (auto simp: set_warn_codes_def)

lemma append_bye_trn:
  assumes "p \<in> set (append_bye pl)"
  shows "p \<in> set pl \<or> trn_type p = CHR 0x00"
  using assms by (auto simp: append_bye_def Let_def Player_zero_def split: if_splits)

lemma append_bye_length: "append_bye pl \<noteq> [] \<and> length (append_bye pl) \<le> length pl + 1"
  by (auto simp: append_bye_def Let_def)

lemma Canonical_facts:
  assumes "CanonicalPlayerVector plh = Inr pl"
  shows "pl \<noteq> [] \<and> play_id (last pl) = BYE_ID
         \<and> (\<forall>i < length pl - 1. play_id (pl ! i) \<noteq> BYE_ID)
         \<and> length pl \<le> length plh + 1
         \<and> (\<forall>i < length pl. \<exists>q \<in> set (append_bye plh). trn_type (pl ! i) = trn_type q)"
proof -
  let ?s = "sort_by Player_lt (append_bye plh)"
  from assms have sr: "SetRanks ?s = Inr pl"
    and lb: "play_id (last pl) = BYE_ID"
    and nb: "list_all (\<lambda>p. play_id p \<noteq> BYE_ID) (butlast pl)"
    by (auto simp: CanonicalPlayerVector_def Let_def ebind_Inr ASSERT_Inr)
  from SetRanks_fields [OF sr] have len: "length pl = length ?s"
    and f: "\<And>i. i < length ?s \<Longrightarrow> trn_type (pl ! i) = trn_type (?s ! i)"
    by simp_all
  from len append_bye_length [of plh] have ne: "pl \<noteq> []" and le: "length pl \<le> length plh + 1"
    by (auto simp: length_sort_by)
  have "play_id (pl ! i) \<noteq> BYE_ID" if "i < length pl - 1" for i
  proof -
    from that have "butlast pl ! i \<in> set (butlast pl)" by simp
    with nb have "play_id (butlast pl ! i) \<noteq> BYE_ID" by (simp add: list_all_iff)
    with that show ?thesis by (simp add: nth_butlast)
  qed
  moreover have "\<exists>q \<in> set (append_bye plh). trn_type (pl ! i) = trn_type q" if "i < length pl" for i
  proof -
    from that len have "?s ! i \<in> set ?s" by simp
    then have "?s ! i \<in> set (append_bye plh)" by (simp add: set_sort_by)
    with f [of i] that len show ?thesis by auto
  qed
  ultimately show ?thesis using ne lb le by blast
qed

lemma house_player_trn:
  assumes "p \<in> set (fst (house_player pl))"
  shows "\<exists>q \<in> set pl. trn_type p = trn_type q"
proof -
  from assms obtain i where i: "i < length (fst (house_player pl))" and p: "p = fst (house_player pl) ! i"
    by (auto simp: in_set_conv_nth)
  with house_player_fields [of pl] have "i < length pl" "trn_type p = trn_type (pl ! i)" by simp_all
  then show ?thesis by auto
qed

lemma swiss_hd:
  assumes c: "CanonicalPlayerVector (fst (house_player pl0)) = Inr pl"
    and s: "\<forall>p \<in> set pl0. trn_type p \<noteq> CHR ''R'' \<and> trn_type p \<noteq> CHR ''D''"
  shows "\<not> (trn_type (hd pl) = CHR ''R'' \<or> trn_type (hd pl) = CHR ''D'')"
proof -
  from Canonical_facts [OF c] have ne: "pl \<noteq> []"
    and t: "\<And>i. i < length pl \<Longrightarrow> \<exists>q \<in> set (append_bye (fst (house_player pl0))). trn_type (pl ! i) = trn_type q"
    by simp_all
  from ne t [of 0] obtain q where q: "q \<in> set (append_bye (fst (house_player pl0)))"
    and h: "trn_type (hd pl) = trn_type q"
    by (auto simp: hd_conv_nth)
  from append_bye_trn [OF q] show ?thesis
  proof
    assume "q \<in> set (fst (house_player pl0))"
    from house_player_trn [OF this] s h show ?thesis by auto
  next
    assume "trn_type q = CHR 0x00"
    with h show ?thesis by simp
  qed
qed

lemma set_chk_Inr: "set_chk i v xs = Inr ys \<longleftrightarrow> i < length xs \<and> ys = xs[i := v]"
  by (auto simp: set_chk_def)

lemma efold_map: "efold f (map g xs) s = efold (\<lambda>x. f (g x)) xs s"
  by (induction xs arbitrary: s) (simp_all add: ebind_def split: sum.splits)

text \<open>The value that the loop over the boards of a score group writes at the position
  \<open>x + j\<close>.\<close>

lemma halves_nth:
  "m \<le> n div 2 \<Longrightarrow> efold (halves_step x n) (map (\<lambda>k. 2 * k) [0 ..< m]) pair = Inr pair' \<Longrightarrow>
   length pair' = length pair \<and> (0 < m \<longrightarrow> x + 2 * m \<le> length pair)
   \<and> (\<forall>i < length pair. pair' ! i =
         (if x \<le> i \<and> i < x + 2 * m
          then (if even (i - x) then x + (i - x) div 2 else x + n div 2 + (i - x) div 2)
          else pair ! i))"
proof (induction m arbitrary: pair')
  case 0
  then show ?case by simp
next
  case (Suc m)
  from Suc.prems(2) obtain q where
    q: "efold (halves_step x n) (map (\<lambda>k. 2 * k) [0 ..< m]) pair = Inr q"
    and st: "halves_step x n (2 * m) q = Inr pair'"
    by (simp only: efold_map efold_upt_Suc) blast
  from Suc.IH [OF _ q] Suc.prems(1) have
    lq: "length q = length pair"
    and nq: "\<And>i. i < length pair \<Longrightarrow> q ! i =
         (if x \<le> i \<and> i < x + 2 * m
          then (if even (i - x) then x + (i - x) div 2 else x + n div 2 + (i - x) div 2)
          else pair ! i)"
    by simp_all
  from st have b: "x + 2 * m + 1 < length q"
    and p': "pair' = q[x + 2 * m := x + m, x + 2 * m + 1 := x + n div 2 + m]"
    by (auto simp: halves_step_def ebind_Inr set_chk_Inr)
  have len: "length pair' = length pair" by (simp add: p' lq)
  from b lq have bound: "x + 2 * Suc m \<le> length pair" by simp
  have "pair' ! i =
         (if x \<le> i \<and> i < x + 2 * Suc m
          then (if even (i - x) then x + (i - x) div 2 else x + n div 2 + (i - x) div 2)
          else pair ! i)" if i: "i < length pair" for i
  proof -
    consider "i = x + 2 * m" | "i = x + 2 * m + 1" | "i \<noteq> x + 2 * m" "i \<noteq> x + 2 * m + 1"
      by blast
    then show ?thesis
    proof cases
      case 1
      with b show ?thesis by (simp add: p')
    next
      case 2
      with b show ?thesis by (simp add: p')
    next
      case 3
      then have "pair' ! i = q ! i" by (simp add: p')
      with nq [OF i] 3 show ?thesis by (auto simp: less_Suc_eq)
    qed
  qed
  with len bound show ?case by blast
qed

lemma halves_block:
  assumes h: "halves x N pair = Inr pair1"
  shows "length pair1 = length pair
         \<and> (\<forall>i < length pair. i < x \<or> x + 2 * (N div 2) \<le> i \<longrightarrow> pair1 ! i = pair ! i)
         \<and> (\<forall>i. x \<le> i \<and> i < x + 2 * (N div 2) \<longrightarrow>
                x \<le> pair1 ! i \<and> pair1 ! i < x + 2 * (N div 2))
         \<and> (\<forall>v. x \<le> v \<and> v < x + 2 * (N div 2) \<longrightarrow>
                (\<exists>i. x \<le> i \<and> i < x + 2 * (N div 2) \<and> pair1 ! i = v))"
proof -
  let ?h = "N div 2"
  from halves_nth [OF le_refl, of x N pair pair1] h have
    len: "length pair1 = length pair"
    and bound: "0 < ?h \<Longrightarrow> x + 2 * ?h \<le> length pair"
    and nth: "\<And>i. i < length pair \<Longrightarrow> pair1 ! i =
         (if x \<le> i \<and> i < x + 2 * ?h
          then (if even (i - x) then x + (i - x) div 2 else x + ?h + (i - x) div 2)
          else pair ! i)"
    by (simp_all add: halves_def)
  have out: "pair1 ! i = pair ! i" if "i < length pair" "i < x \<or> x + 2 * ?h \<le> i" for i
    using nth [OF that(1)] that(2) by auto
  have inb: "x \<le> pair1 ! i \<and> pair1 ! i < x + 2 * ?h" if "x \<le> i" "i < x + 2 * ?h" for i
  proof -
    from that have "0 < ?h" by auto
    from bound [OF this] that have i: "i < length pair" by simp
    from that have "(i - x) div 2 < ?h" by auto
    with nth [OF i] that show ?thesis by auto
  qed
  have sur: "\<exists>i. x \<le> i \<and> i < x + 2 * ?h \<and> pair1 ! i = v" if "x \<le> v" "v < x + 2 * ?h" for v
  proof (cases "v - x < ?h")
    case True
    let ?i = "x + 2 * (v - x)"
    from that have "0 < ?h" by auto
    from bound [OF this] True have i: "?i < length pair" by simp
    from True have r: "x \<le> ?i" "?i < x + 2 * ?h" by simp_all
    have "pair1 ! ?i = x + (v - x)" using nth [OF i] r by simp
    with that r show ?thesis by (intro exI [of _ ?i]) simp
  next
    case False
    let ?i = "x + 2 * (v - x - ?h) + 1"
    from that have h0: "0 < ?h" by auto
    from False that have r: "x \<le> ?i" "?i < x + 2 * ?h" by simp_all
    with bound [OF h0] have i: "?i < length pair" by simp
    have "pair1 ! ?i = x + ?h + (v - x - ?h)" using nth [OF i] r by simp
    with that False r show ?thesis by (intro exI [of _ ?i]) simp
  qed
  from len out inb sur show ?thesis by blast
qed

text \<open>The positions below \<open>x\<close> hold the ranks below \<open>x\<close>, each of them.\<close>

lemma ranks_extend:
  assumes lo: "\<forall>i < x. p ! i < x" and su: "\<forall>v < x. \<exists>i < x. p ! i = v"
    and same: "\<forall>i < x. q ! i = p ! i"
    and inb: "\<forall>i. x \<le> i \<and> i < z \<longrightarrow> x \<le> q ! i \<and> q ! i < z"
    and sur: "\<forall>v. x \<le> v \<and> v < z \<longrightarrow> (\<exists>i. x \<le> i \<and> i < z \<and> q ! i = v)"
    and xz: "x \<le> z"
  shows "(\<forall>i < z. q ! i < z) \<and> (\<forall>v < z. \<exists>i < z. q ! i = v)"
proof (intro conjI allI impI)
  fix i assume i: "i < z"
  show "q ! i < z"
  proof (cases "i < x")
    case True
    with lo same xz show ?thesis by (metis less_le_trans)
  next
    case False
    with inb i show ?thesis by simp
  qed
next
  fix v assume v: "v < z"
  show "\<exists>i < z. q ! i = v"
  proof (cases "v < x")
    case True
    with su obtain i where "i < x" "p ! i = v" by blast
    with same xz show ?thesis by (metis less_le_trans)
  next
    case False
    with sur v show ?thesis by (metis not_less)
  qed
qed

lemma first_pairings_loop_unfold:
  assumes run: "first_pairings_loop pl n x num pair = Inr pair'" and lt: "x < n"
  shows "\<exists>board_index n0 pair1. x < length pl
      \<and> n0 + (x + 1 + length (takeWhile (\<lambda>p. score p = score (pl ! x)) (drop (x + 1) (take n pl))) - x)
        = x + 1 + length (takeWhile (\<lambda>p. score p = score (pl ! x)) (drop (x + 1) (take n pl))) - x
      \<and> halves x (n0 + (x + 1 + length (takeWhile (\<lambda>p. score p = score (pl ! x)) (drop (x + 1) (take n pl))) - x)) pair = Inr pair1
      \<and> (if (n0 + (x + 1 + length (takeWhile (\<lambda>p. score p = score (pl ! x)) (drop (x + 1) (take n pl))) - x)) mod 2 = 0
          then first_pairings_loop pl n (x + 1 + length (takeWhile (\<lambda>p. score p = score (pl ! x)) (drop (x + 1) (take n pl))))
                 (num[board_index := n0 + (x + 1 + length (takeWhile (\<lambda>p. score p = score (pl ! x)) (drop (x + 1) (take n pl))) - x)]) pair1
          else if x + 1 + length (takeWhile (\<lambda>p. score p = score (pl ! x)) (drop (x + 1) (take n pl))) < n
          then ebind (set_chk (x + 1 + length (takeWhile (\<lambda>p. score p = score (pl ! x)) (drop (x + 1) (take n pl))) - 1)
                        (x + 1 + length (takeWhile (\<lambda>p. score p = score (pl ! x)) (drop (x + 1) (take n pl))) - 1) pair1) (\<lambda>pair2.
               ebind (set_chk (x + 1 + length (takeWhile (\<lambda>p. score p = score (pl ! x)) (drop (x + 1) (take n pl))))
                        (x + 1 + length (takeWhile (\<lambda>p. score p = score (pl ! x)) (drop (x + 1) (take n pl)))) pair2) (\<lambda>pair3.
               first_pairings_loop pl n (x + 1 + length (takeWhile (\<lambda>p. score p = score (pl ! x)) (drop (x + 1) (take n pl))) + 1)
                 (num[board_index := n0 + (x + 1 + length (takeWhile (\<lambda>p. score p = score (pl ! x)) (drop (x + 1) (take n pl))) - x)]) pair3))
          else ebind (set_chk (x + 1 + length (takeWhile (\<lambda>p. score p = score (pl ! x)) (drop (x + 1) (take n pl))) - 1)
                        (x + 1 + length (takeWhile (\<lambda>p. score p = score (pl ! x)) (drop (x + 1) (take n pl))) - 1) pair1) (\<lambda>pair2.
               ebind (ASSERT (x + 1 + length (takeWhile (\<lambda>p. score p = score (pl ! x)) (drop (x + 1) (take n pl))) < length pl)) (\<lambda>_.
               ebind (nth_chk pair2 (x + 1 + length (takeWhile (\<lambda>p. score p = score (pl ! x)) (drop (x + 1) (take n pl))))) (\<lambda>q.
               ebind (nth_chk pl q) (\<lambda>pq.
               ebind (ASSERT (play_id pq = BYE_ID)) (\<lambda>_.
               first_pairings_loop pl n (x + 1 + length (takeWhile (\<lambda>p. score p = score (pl ! x)) (drop (x + 1) (take n pl))))
                 (num[board_index := n0 + (x + 1 + length (takeWhile (\<lambda>p. score p = score (pl ! x)) (drop (x + 1) (take n pl))) - x)]) pair2))))))
        = Inr pair'"
  using run lt
  apply (subst (asm) first_pairings_loop.simps)
  apply (simp only: not_not if_True if_False simp_thms Let_def ebind_Inr ASSERT_Inr nth_chk_Inr)
  apply clarify
  apply (intro exI conjI; assumption)
  done

text \<open>One round of the loop of \<^verbatim>\<open>FirstPairings\<close>, for the score group from \<open>x\<close> to \<open>y\<close>.\<close>

lemma first_pairings_loop_step:
  assumes run: "first_pairings_loop pl n x num pair = Inr pair'" and lt: "x < n"
    and y: "y = x + 1 + length (takeWhile (\<lambda>p. score p = score (pl ! x)) (drop (x + 1) (take n pl)))"
  shows "\<exists>num1 pair1. halves x (y - x) pair = Inr pair1
      \<and> (if (y - x) mod 2 = 0 then first_pairings_loop pl n y num1 pair1 = Inr pair'
         else if y < n
         then y < length pair1
              \<and> first_pairings_loop pl n (y + 1) num1 (pair1[y - 1 := y - 1, y := y]) = Inr pair'
         else y - 1 < length pair1
              \<and> first_pairings_loop pl n y num1 (pair1[y - 1 := y - 1]) = Inr pair')"
proof -
  from first_pairings_loop_unfold [OF run lt, folded y] obtain board_index n0 pair1 where
    n0: "n0 + (y - x) = y - x"
    and hv: "halves x (n0 + (y - x)) pair = Inr pair1"
    and rest: "(if (n0 + (y - x)) mod 2 = 0
          then first_pairings_loop pl n y (num[board_index := n0 + (y - x)]) pair1
          else if y < n
          then ebind (set_chk (y - 1) (y - 1) pair1) (\<lambda>pair2.
               ebind (set_chk y y pair2) (\<lambda>pair3.
               first_pairings_loop pl n (y + 1) (num[board_index := n0 + (y - x)]) pair3))
          else ebind (set_chk (y - 1) (y - 1) pair1) (\<lambda>pair2.
               ebind (ASSERT (y < length pl)) (\<lambda>_.
               ebind (nth_chk pair2 y) (\<lambda>q.
               ebind (nth_chk pl q) (\<lambda>pq.
               ebind (ASSERT (play_id pq = BYE_ID)) (\<lambda>_.
               first_pairings_loop pl n y (num[board_index := n0 + (y - x)]) pair2))))))
        = Inr pair'"
    by blast
  let ?num = "num[board_index := y - x]"
  from hv n0 have hv': "halves x (y - x) pair = Inr pair1" by simp
  have "if (y - x) mod 2 = 0 then first_pairings_loop pl n y ?num pair1 = Inr pair'
         else if y < n
         then y < length pair1
              \<and> first_pairings_loop pl n (y + 1) ?num (pair1[y - 1 := y - 1, y := y]) = Inr pair'
         else y - 1 < length pair1
              \<and> first_pairings_loop pl n y ?num (pair1[y - 1 := y - 1]) = Inr pair'"
  proof (cases "(y - x) mod 2 = 0")
    case True
    with rest n0 show ?thesis by simp
  next
    case odd: False
    show ?thesis
    proof (cases "y < n")
      case True
      with odd rest n0 show ?thesis
        by (auto simp: ebind_Inr set_chk_Inr)
    next
      case False
      with odd rest n0 show ?thesis
        by (auto simp: ebind_Inr set_chk_Inr ASSERT_Inr)
    qed
  qed
  with hv' show ?thesis by blast
qed

lemma first_pairings_loop_ranks:
  assumes "first_pairings_loop pl n x num pair = Inr pair'" and "x \<le> n" and "n \<le> length pair"
    and "\<forall>i < x. pair ! i < x" and "\<forall>v < x. \<exists>i < x. pair ! i = v"
  shows "length pair' = length pair
         \<and> (\<forall>i. n \<le> i \<and> i < length pair \<longrightarrow> pair' ! i = pair ! i)
         \<and> (\<forall>i < n. pair' ! i < n) \<and> (\<forall>v < n. \<exists>i < n. pair' ! i = v)"
  using assms
proof (induction "n - x" arbitrary: x num pair rule: less_induct)
  case less
  note run = less.prems(1) and xn = less.prems(2) and nl = less.prems(3)
    and lo = less.prems(4) and su = less.prems(5)
  show ?case
  proof (cases "x < n")
    case False
    with xn have "x = n" by simp
    moreover from False run have "pair' = pair"
      by (subst (asm) first_pairings_loop.simps) simp
    ultimately show ?thesis using lo su by simp
  next
    case True
    define y where "y = x + 1 + length (takeWhile (\<lambda>p. score p = score (pl ! x)) (drop (x + 1) (take n pl)))"
    have "length (takeWhile (\<lambda>p. score p = score (pl ! x)) (drop (x + 1) (take n pl)))
          \<le> length (drop (x + 1) (take n pl))"
      by (rule length_takeWhile_le)
    with True have yn: "y \<le> n" by (simp add: y_def)
    have xy: "x < y" by (simp add: y_def)
    let ?h = "(y - x) div 2"
    from first_pairings_loop_step [OF run True y_def] obtain num1 pair1 where
      hv: "halves x (y - x) pair = Inr pair1"
      and c: "if (y - x) mod 2 = 0 then first_pairings_loop pl n y num1 pair1 = Inr pair'
         else if y < n
         then y < length pair1
              \<and> first_pairings_loop pl n (y + 1) num1 (pair1[y - 1 := y - 1, y := y]) = Inr pair'
         else y - 1 < length pair1
              \<and> first_pairings_loop pl n y num1 (pair1[y - 1 := y - 1]) = Inr pair'"
      by blast
    from halves_block [OF hv] have
      len1: "length pair1 = length pair"
      and out: "\<And>i. i < length pair \<Longrightarrow> i < x \<or> x + 2 * ?h \<le> i \<Longrightarrow> pair1 ! i = pair ! i"
      and inb: "\<forall>i. x \<le> i \<and> i < x + 2 * ?h \<longrightarrow> x \<le> pair1 ! i \<and> pair1 ! i < x + 2 * ?h"
      and sur: "\<forall>v. x \<le> v \<and> v < x + 2 * ?h \<longrightarrow> (\<exists>i. x \<le> i \<and> i < x + 2 * ?h \<and> pair1 ! i = v)"
      by blast+
    have same: "\<forall>i < x. pair1 ! i = pair ! i" using out xn nl by simp
    from ranks_extend [OF lo su same inb sur] have
      r1: "\<forall>i < x + 2 * ?h. pair1 ! i < x + 2 * ?h"
      and s1: "\<forall>v < x + 2 * ?h. \<exists>i < x + 2 * ?h. pair1 ! i = v"
      by simp_all
    show ?thesis
    proof (cases "(y - x) mod 2 = 0")
      case True
      with xy have e: "x + 2 * ?h = y" by presburger
      from c True have rec: "first_pairings_loop pl n y num1 pair1 = Inr pair'" by simp
      from xy yn have m: "n - y < n - x" by simp
      from less.hyps [OF m rec yn] nl len1 r1 s1 e have
        l': "length pair' = length pair1"
        and o': "\<And>i. n \<le> i \<Longrightarrow> i < length pair1 \<Longrightarrow> pair' ! i = pair1 ! i"
        and r': "\<forall>i < n. pair' ! i < n" and s': "\<forall>v < n. \<exists>i < n. pair' ! i = v"
        by simp_all
      have "pair' ! i = pair ! i" if "n \<le> i" "i < length pair" for i
        using o' [of i] out [of i] that len1 e yn by simp
      with l' len1 r' s' show ?thesis by simp
    next
      case odd: False
      with xy have e: "x + 2 * ?h = y - 1" by presburger
      from xy have y1: "y - 1 < y" by simp
      show ?thesis
      proof (cases "y < n")
        case True
        let ?p3 = "pair1[y - 1 := y - 1, y := y]"
        from c odd True have yl: "y < length pair1"
          and rec: "first_pairings_loop pl n (y + 1) num1 ?p3 = Inr pair'"
          by simp_all
        have same3: "\<forall>i < y - 1. ?p3 ! i = pair1 ! i" by simp
        have inb3: "\<forall>i. y - 1 \<le> i \<and> i < y + 1 \<longrightarrow> y - 1 \<le> ?p3 ! i \<and> ?p3 ! i < y + 1"
        proof (intro allI impI)
          fix i assume "y - 1 \<le> i \<and> i < y + 1"
          with xy have "i = y - 1 \<or> i = y" by auto
          with yl xy show "y - 1 \<le> ?p3 ! i \<and> ?p3 ! i < y + 1" by (auto simp: nth_list_update)
        qed
        have sur3: "\<forall>v. y - 1 \<le> v \<and> v < y + 1 \<longrightarrow> (\<exists>i. y - 1 \<le> i \<and> i < y + 1 \<and> ?p3 ! i = v)"
        proof (intro allI impI)
          fix v assume "y - 1 \<le> v \<and> v < y + 1"
          with xy have "v = y - 1 \<or> v = y" by auto
          then show "\<exists>i. y - 1 \<le> i \<and> i < y + 1 \<and> ?p3 ! i = v"
          proof
            assume "v = y - 1"
            with yl xy have "?p3 ! (y - 1) = v" by (simp add: nth_list_update)
            then show ?thesis by (intro exI [of _ "y - 1"]) simp
          next
            assume "v = y"
            with yl have "?p3 ! y = v" by simp
            then show ?thesis using xy by (intro exI [of _ y]) simp
          qed
        qed
        from r1 s1 e have r1': "\<forall>i < y - 1. pair1 ! i < y - 1"
          and s1': "\<forall>v < y - 1. \<exists>i < y - 1. pair1 ! i = v" by simp_all
        have "y - 1 \<le> y + 1" by simp
        from ranks_extend [OF r1' s1' same3 inb3 sur3 this] have
          r3: "\<forall>i < y + 1. ?p3 ! i < y + 1" and s3: "\<forall>v < y + 1. \<exists>i < y + 1. ?p3 ! i = v"
          by simp_all
        from xy True have m: "n - (y + 1) < n - x" by simp
        from True have yn1: "y + 1 \<le> n" by simp
        from nl len1 have nl3: "n \<le> length ?p3" by simp
        from less.hyps [OF m rec yn1 nl3 r3 s3] have
          l': "length pair' = length ?p3"
          and o': "\<And>i. n \<le> i \<Longrightarrow> i < length ?p3 \<Longrightarrow> pair' ! i = ?p3 ! i"
          and r': "\<forall>i < n. pair' ! i < n" and s': "\<forall>v < n. \<exists>i < n. pair' ! i = v"
          by simp_all
        have "pair' ! i = pair ! i" if "n \<le> i" "i < length pair" for i
        proof -
          from that True have "?p3 ! i = pair1 ! i" by simp
          moreover from that e True have "x + 2 * ?h \<le> i" by simp
          with that have "pair1 ! i = pair ! i" using out [of i] by blast
          ultimately show ?thesis using o' [of i] that len1 by simp
        qed
        with l' len1 r' s' show ?thesis by simp
      next
        case False
        with yn have yeq: "y = n" by simp
        let ?p2 = "pair1[y - 1 := y - 1]"
        from c odd False have yl: "y - 1 < length pair1"
          and rec: "first_pairings_loop pl n y num1 ?p2 = Inr pair'"
          by simp_all
        have same2: "\<forall>i < y - 1. ?p2 ! i = pair1 ! i" by simp
        have inb2: "\<forall>i. y - 1 \<le> i \<and> i < y \<longrightarrow> y - 1 \<le> ?p2 ! i \<and> ?p2 ! i < y"
        proof (intro allI impI)
          fix i assume "y - 1 \<le> i \<and> i < y"
          then have "i = y - 1" by auto
          with yl xy show "y - 1 \<le> ?p2 ! i \<and> ?p2 ! i < y" by simp
        qed
        have sur2: "\<forall>v. y - 1 \<le> v \<and> v < y \<longrightarrow> (\<exists>i. y - 1 \<le> i \<and> i < y \<and> ?p2 ! i = v)"
        proof (intro allI impI)
          fix v assume "y - 1 \<le> v \<and> v < y"
          then have "v = y - 1" by auto
          with yl have "?p2 ! (y - 1) = v" by simp
          then show "\<exists>i. y - 1 \<le> i \<and> i < y \<and> ?p2 ! i = v"
            using xy by (intro exI [of _ "y - 1"]) simp
        qed
        from r1 s1 e have r1': "\<forall>i < y - 1. pair1 ! i < y - 1"
          and s1': "\<forall>v < y - 1. \<exists>i < y - 1. pair1 ! i = v" by simp_all
        have "y - 1 \<le> y" by simp
        from ranks_extend [OF r1' s1' same2 inb2 sur2 this] have
          r2: "\<forall>i < y. ?p2 ! i < y" and s2: "\<forall>v < y. \<exists>i < y. ?p2 ! i = v"
          by simp_all
        from xy yn have m: "n - y < n - x" by simp
        from nl len1 have nl2: "n \<le> length ?p2" by simp
        from less.hyps [OF m rec yn nl2 r2 s2] have
          l': "length pair' = length ?p2"
          and o': "\<And>i. n \<le> i \<Longrightarrow> i < length ?p2 \<Longrightarrow> pair' ! i = ?p2 ! i"
          and r': "\<forall>i < n. pair' ! i < n" and s': "\<forall>v < n. \<exists>i < n. pair' ! i = v"
          by simp_all
        have "pair' ! i = pair ! i" if "n \<le> i" "i < length pair" for i
        proof -
          from that yeq xy have "?p2 ! i = pair1 ! i" by simp
          moreover from that e yeq have "x + 2 * ?h \<le> i" by simp
          with that have "pair1 ! i = pair ! i" using out [of i] by blast
          ultimately show ?thesis using o' [of i] that len1 by simp
        qed
        with l' len1 r' s' show ?thesis by simp
      qed
    qed
  qed
qed

lemma perm_of_ranks:
  assumes "n \<le> length p" and "\<forall>i < n. p ! i < n" and "\<forall>v < n. \<exists>i < n. p ! i = v"
  shows "mset (take n p) = mset [0 ..< n]"
proof -
  have s: "set (take n p) = {0 ..< n}"
  proof (intro equalityI subsetI)
    fix v assume "v \<in> set (take n p)"
    then obtain i where "i < length (take n p)" "take n p ! i = v" by (auto simp: in_set_conv_nth)
    with assms(1,2) show "v \<in> {0 ..< n}" by auto
  next
    fix v assume "v \<in> {0 ..< n}"
    with assms(3) obtain i where i: "i < n" "p ! i = v" by auto
    with assms(1) have "i < length (take n p)" "take n p ! i = v" by simp_all
    then show "v \<in> set (take n p)" by (metis nth_mem)
  qed
  from assms(1) have "card (set (take n p)) = length (take n p)" by (simp add: s)
  then have "distinct (take n p)" by (rule card_distinct)
  with s show ?thesis
    by (metis distinct_upt set_eq_iff_mset_eq_distinct set_upt)
qed

lemma FirstPairings_perm:
  assumes "FirstPairings pl pair0 n = Inr pair1"
  shows "n \<le> length pair0 \<and> length pair1 = length pair0 \<and> drop n pair1 = drop n pair0
         \<and> mset (take n pair1) = mset [0 ..< n]
         \<and> (\<forall>i < n. pair0 ! i < length pl \<and> play_id (pl ! (pair0 ! i)) \<noteq> BYE_ID)"
proof -
  let ?pair = "sort (take n pair0) @ drop n pair0"
  from assms obtain ps size where
    nl: "n \<le> length pair0"
    and em: "emap (nth_chk pl) (take n pair0) = Inr ps"
    and nb: "list_all (\<lambda>p. play_id p \<noteq> BYE_ID) ps"
    and loop: "first_pairings_loop pl n 0 (replicate size 0) ?pair = Inr pair1"
    unfolding FirstPairings_def Let_def ebind_Inr ASSERT_Inr by blast
  from nl have lp: "length ?pair = length pair0" by simp
  from nl lp have nl': "n \<le> length ?pair" by simp
  from first_pairings_loop_ranks [OF loop _ nl'] have
    l1: "length pair1 = length ?pair"
    and o1: "\<And>i. n \<le> i \<Longrightarrow> i < length ?pair \<Longrightarrow> pair1 ! i = ?pair ! i"
    and r1: "\<forall>i < n. pair1 ! i < n" and s1: "\<forall>v < n. \<exists>i < n. pair1 ! i = v"
    by simp_all
  from l1 lp have len: "length pair1 = length pair0" by simp
  have dr: "drop n pair1 = drop n pair0"
  proof (rule nth_equalityI)
    show "length (drop n pair1) = length (drop n pair0)" using len by simp
  next
    fix i assume "i < length (drop n pair1)"
    with len have i: "n + i < length pair0" by simp
    with o1 [of "n + i"] lp nl have "pair1 ! (n + i) = ?pair ! (n + i)" by simp
    also from nl have "\<dots> = pair0 ! (n + i)" by (simp add: nth_append)
    finally show "drop n pair1 ! i = drop n pair0 ! i" using i len by simp
  qed
  from nl len have "n \<le> length pair1" by simp
  from perm_of_ranks [OF this r1 s1] have pm: "mset (take n pair1) = mset [0 ..< n]" .
  have "pair0 ! i < length pl \<and> play_id (pl ! (pair0 ! i)) \<noteq> BYE_ID" if i: "i < n" for i
  proof -
    from emap_Inr [OF em] nl i have "length ps = n" and "nth_chk pl (pair0 ! i) = Inr (ps ! i)"
      by simp_all
    then have "pair0 ! i < length pl" and "ps ! i = pl ! (pair0 ! i)" by (simp_all add: nth_chk_Inr)
    moreover from nb \<open>length ps = n\<close> i have "play_id (ps ! i) \<noteq> BYE_ID"
      by (simp add: list_all_length)
    ultimately show ?thesis by simp
  qed
  with nl len dr pm show ?thesis by blast
qed

lemma list_all_boards_of:
  "list_all (\<lambda>(a, b). P a b) (boards_of xs)
   \<longleftrightarrow> (\<forall>k. 2 * k + 1 < length xs \<longrightarrow> P (xs ! (2 * k)) (xs ! (2 * k + 1)))"
proof (induction xs rule: boards_of.induct)
  case (1 a b rest)
  have "(\<forall>k. 2 * k + 1 < length (a # b # rest) \<longrightarrow>
              P ((a # b # rest) ! (2 * k)) ((a # b # rest) ! (2 * k + 1)))
        \<longleftrightarrow> P a b \<and> (\<forall>k. 2 * k + 1 < length rest \<longrightarrow> P (rest ! (2 * k)) (rest ! (2 * k + 1)))"
    (is "?L \<longleftrightarrow> ?R")
  proof
    assume l: ?L
    from l [rule_format, of 0] have "P a b" by simp
    moreover have "P (rest ! (2 * k)) (rest ! (2 * k + 1))" if "2 * k + 1 < length rest" for k
      using l [rule_format, of "Suc k"] that by simp
    ultimately show ?R by blast
  next
    assume r: ?R
    show ?L
    proof (intro allI impI)
      fix k assume k: "2 * k + 1 < length (a # b # rest)"
      show "P ((a # b # rest) ! (2 * k)) ((a # b # rest) ! (2 * k + 1))"
      proof (cases k)
        case 0
        with r show ?thesis by simp
      next
        case (Suc k')
        with k r show ?thesis by simp
      qed
    qed
  qed
  with 1 show ?case by simp
qed simp_all

lemma swap_Inr:
  "swap i j xs = Inr ys \<longleftrightarrow> i < length xs \<and> j < length xs \<and> ys = xs[i := xs ! j, j := xs ! i]"
  by (auto simp: swap_def)

lemma board_index: "2 * Suc k = 2 * k + 2" "2 * k + 2 + 1 = 2 * k + 3" "2 * k + 2 - 2 = 2 * k"
  "2 * k + 2 - 1 = 2 * k + 1"
  by simp_all

lemma swap_boards:
  assumes s1: "swap (2 * Suc k) (2 * Suc k - 2) pair = Inr p1"
    and s2: "swap (2 * Suc k + 1) (2 * Suc k - 1) p1 = Inr p2"
  shows "length p2 = length pair" and "2 * k + 3 < length pair"
    and "p2 ! (2 * k) = pair ! (2 * k + 2)" and "p2 ! (2 * k + 1) = pair ! (2 * k + 3)"
    and "p2 ! (2 * k + 2) = pair ! (2 * k)" and "p2 ! (2 * k + 3) = pair ! (2 * k + 1)"
    and "\<And>i. i \<noteq> 2 * k \<Longrightarrow> i \<noteq> 2 * k + 1 \<Longrightarrow> i \<noteq> 2 * k + 2 \<Longrightarrow> i \<noteq> 2 * k + 3 \<Longrightarrow> p2 ! i = pair ! i"
proof -
  from s1 [unfolded board_index swap_Inr] have b1: "2 * k + 2 < length pair"
    and p1: "p1 = pair[2 * k + 2 := pair ! (2 * k), 2 * k := pair ! (2 * k + 2)]"
    by blast+
  from s2 [unfolded board_index swap_Inr] have b2: "2 * k + 3 < length p1"
    and p2: "p2 = p1[2 * k + 3 := p1 ! (2 * k + 1), 2 * k + 1 := p1 ! (2 * k + 3)]"
    by blast+
  from b2 p1 show b3: "2 * k + 3 < length pair" by simp
  show "length p2 = length pair" by (simp add: p2 p1)
  from b3 show "p2 ! (2 * k) = pair ! (2 * k + 2)" by (simp add: p2 p1)
  from b3 show "p2 ! (2 * k + 1) = pair ! (2 * k + 3)" by (simp add: p2 p1)
  from b3 show "p2 ! (2 * k + 2) = pair ! (2 * k)" by (simp add: p2 p1)
  from b3 show "p2 ! (2 * k + 3) = pair ! (2 * k + 1)" by (simp add: p2 p1)
  show "p2 ! i = pair ! i" if "i \<noteq> 2 * k" "i \<noteq> 2 * k + 1" "i \<noteq> 2 * k + 2" "i \<noteq> 2 * k + 3" for i
    using that by (simp add: p2 p1)
qed

lemma insert_board_Suc:
  assumes "insert_board pl (Suc k) pair = Inr pair'"
  shows "\<exists>stop. 2 * k + 3 < length pair
     \<and> boards_in_order (pl ! (pair ! (2 * k))) (pl ! (pair ! (2 * k + 1)))
         (pl ! (pair ! (2 * k + 2))) (pl ! (pair ! (2 * k + 3))) = Inr stop
     \<and> (if stop then pair' = pair
         else \<exists>p1 p2. swap (2 * Suc k) (2 * Suc k - 2) pair = Inr p1
                \<and> swap (2 * Suc k + 1) (2 * Suc k - 1) p1 = Inr p2
                \<and> insert_board pl k p2 = Inr pair')"
proof -
  from assms have "\<exists>stop. (2 * Suc k + 1 < length pair
     \<and> boards_in_order (pl ! (pair ! (2 * Suc k - 2))) (pl ! (pair ! (2 * Suc k - 1)))
         (pl ! (pair ! (2 * Suc k))) (pl ! (pair ! (2 * Suc k + 1))) = Inr stop)
     \<and> (if stop then Inr pair
         else ebind (ASSERT (play_id (pl ! (pair ! (2 * Suc k))) \<noteq> BYE_ID
                        \<and> play_id (pl ! (pair ! (2 * Suc k - 2))) \<noteq> BYE_ID)) (\<lambda>_.
           ebind (swap (2 * Suc k) (2 * Suc k - 2) pair) (\<lambda>pair1.
           ebind (swap (2 * Suc k + 1) (2 * Suc k - 1) pair1) (\<lambda>pair2.
           insert_board pl k pair2)))) = Inr pair'"
    apply (simp only: insert_board.simps Let_def ebind_Inr nth_chk_Inr ASSERT_Inr)
    apply clarify
    apply (intro exI conjI; assumption)
    done
  then obtain stop where
    b: "2 * Suc k + 1 < length pair"
    and io: "boards_in_order (pl ! (pair ! (2 * Suc k - 2))) (pl ! (pair ! (2 * Suc k - 1)))
         (pl ! (pair ! (2 * Suc k))) (pl ! (pair ! (2 * Suc k + 1))) = Inr stop"
    and r: "(if stop then Inr pair
         else ebind (ASSERT (play_id (pl ! (pair ! (2 * Suc k))) \<noteq> BYE_ID
                        \<and> play_id (pl ! (pair ! (2 * Suc k - 2))) \<noteq> BYE_ID)) (\<lambda>_.
           ebind (swap (2 * Suc k) (2 * Suc k - 2) pair) (\<lambda>pair1.
           ebind (swap (2 * Suc k + 1) (2 * Suc k - 1) pair1) (\<lambda>pair2.
           insert_board pl k pair2)))) = Inr pair'"
    by blast
  from b have b': "2 * k + 3 < length pair" by simp
  from io have io': "boards_in_order (pl ! (pair ! (2 * k))) (pl ! (pair ! (2 * k + 1)))
         (pl ! (pair ! (2 * k + 2))) (pl ! (pair ! (2 * k + 3))) = Inr stop"
    unfolding board_index .
  have "if stop then pair' = pair
         else \<exists>p1 p2. swap (2 * Suc k) (2 * Suc k - 2) pair = Inr p1
                \<and> swap (2 * Suc k + 1) (2 * Suc k - 1) p1 = Inr p2
                \<and> insert_board pl k p2 = Inr pair'"
  proof (cases stop)
    case True
    with r show ?thesis by simp
  next
    case False
    with r show ?thesis by (simp add: ebind_Inr)
  qed
  with b' io' show ?thesis by blast
qed

lemma in_order_key:
  assumes "boards_in_order a2 a1 b0 b1 = Inr stop"
  shows "if stop then sort_key_of a2 a1 \<le> sort_key_of b0 b1
         else sort_key_of b0 b1 \<le> sort_key_of a2 a1"
proof -
  define R where "R \<longleftrightarrow> (Player.score a2 > Player.score b0 \<or> (Player.score a2 = Player.score b0
       \<and> (Player.score a1 > Player.score b1 \<or> (Player.score a1 = Player.score b1
       \<and> (Player.rating a2 > Player.rating b0 \<or> (Player.rating a2 = Player.rating b0
       \<and> (Player.rating a1 > Player.rating b1 \<or> (Player.rating a1 = Player.rating b1
       \<and> \<not> Player_lt b0 a2))))))))"
  from assms have "Inr (paired a2 < paired b0 \<or> (paired a2 = paired b0
       \<and> ((play_id a1 = BYE_ID) < (play_id b1 = BYE_ID)
           \<or> ((play_id a1 = BYE_ID) = (play_id b1 = BYE_ID)
       \<and> (bye_request a2 < bye_request b0 \<or> (bye_request a2 = bye_request b0 \<and> R)))))) = (Inr stop :: error + bool)"
    unfolding boards_in_order_def ebind_Inr R_def by (elim exE conjE)
  then have "stop = (paired a2 < paired b0 \<or> (paired a2 = paired b0
       \<and> ((play_id a1 = BYE_ID) < (play_id b1 = BYE_ID)
           \<or> ((play_id a1 = BYE_ID) = (play_id b1 = BYE_ID)
       \<and> (bye_request a2 < bye_request b0 \<or> (bye_request a2 = bye_request b0 \<and> R))))))"
    by (simp only: sum.inject)
  then show ?thesis
    by (cases "paired a2"; cases "paired b0"; cases "play_id a1 = BYE_ID";
        cases "play_id b1 = BYE_ID"; cases "bye_request a2"; cases "bye_request b0")
       (simp_all add: sort_key_of_def)
qed

lemma insert_board_length: "insert_board pl k pair = Inr pair' \<Longrightarrow> length pair' = length pair"
  by (metis insert_board_mset size_mset)

lemma insert_board_sorted:
  "insert_board pl k pair = Inr pair' \<Longrightarrow> k \<le> m \<Longrightarrow> 2 * m + 1 < length pair \<Longrightarrow>
   (\<forall>i j. i < j \<and> j \<le> m \<and> i \<noteq> k \<and> j \<noteq> k \<longrightarrow> board_key pl pair i \<le> board_key pl pair j) \<Longrightarrow>
   (\<forall>j. k < j \<and> j \<le> m \<longrightarrow> board_key pl pair k \<le> board_key pl pair j) \<Longrightarrow>
   (\<forall>i j. i < j \<and> j \<le> m \<longrightarrow> board_key pl pair' i \<le> board_key pl pair' j)"
proof (induction k arbitrary: pair)
  case 0
  then have e: "pair' = pair" by simp
  show ?case
  proof (intro allI impI)
    fix i j assume a: "i < j \<and> j \<le> m"
    show "board_key pl pair' i \<le> board_key pl pair' j"
    proof (cases "i = 0")
      case True
      with a "0.prems"(5) e show ?thesis by simp
    next
      case False
      with a "0.prems"(4) e show ?thesis by simp
    qed
  qed
next
  case (Suc k)
  note H1 = Suc.prems(4) [rule_format] and H4 = Suc.prems(5) [rule_format]
  let ?K = "board_key pl pair"
  from insert_board_Suc [OF Suc.prems(1)] obtain stop where
    b: "2 * k + 3 < length pair"
    and io: "boards_in_order (pl ! (pair ! (2 * k))) (pl ! (pair ! (2 * k + 1)))
         (pl ! (pair ! (2 * k + 2))) (pl ! (pair ! (2 * k + 3))) = Inr stop"
    and r: "if stop then pair' = pair
         else \<exists>p1 p2. swap (2 * Suc k) (2 * Suc k - 2) pair = Inr p1
                \<and> swap (2 * Suc k + 1) (2 * Suc k - 1) p1 = Inr p2
                \<and> insert_board pl k p2 = Inr pair'"
    by blast
  have ks: "?K (Suc k) = sort_key_of (pl ! (pair ! (2 * k + 2))) (pl ! (pair ! (2 * k + 3)))"
    unfolding board_key_def board_index ..
  have kk: "?K k = sort_key_of (pl ! (pair ! (2 * k))) (pl ! (pair ! (2 * k + 1)))"
    unfolding board_key_def ..
  from in_order_key [OF io] have
    cmp: "if stop then ?K k \<le> ?K (Suc k) else ?K (Suc k) \<le> ?K k"
    unfolding ks kk .
  show ?case
  proof (cases stop)
    case True
    with r have e: "pair' = pair" by simp
    from True cmp have le: "?K k \<le> ?K (Suc k)" by simp
    show ?thesis
    proof (intro allI impI)
      fix i j assume a: "i < j \<and> j \<le> m"
      consider "i = Suc k" | "j = Suc k" "i = k" | "j = Suc k" "i < k" | "i \<noteq> Suc k" "j \<noteq> Suc k"
        using a by linarith
      then have "?K i \<le> ?K j"
      proof cases
        case 1
        with H4 [of j] a show ?thesis by simp
      next
        case 2
        with le show ?thesis by simp
      next
        case 3
        with H1 [of i k] Suc.prems(2) have "?K i \<le> ?K k" by simp
        with le 3 show ?thesis by simp
      next
        case 4
        with H1 [of i j] a show ?thesis by simp
      qed
      with e show "board_key pl pair' i \<le> board_key pl pair' j" by simp
    qed
  next
    case False
    with r obtain p1 p2 where
      s1: "swap (2 * Suc k) (2 * Suc k - 2) pair = Inr p1"
      and s2: "swap (2 * Suc k + 1) (2 * Suc k - 1) p1 = Inr p2"
      and rec: "insert_board pl k p2 = Inr pair'"
      by auto
    from False cmp have le: "?K (Suc k) \<le> ?K k" by simp
    note sb = swap_boards [OF s1 s2]
    let ?K2 = "board_key pl p2"
    have k2k: "?K2 k = ?K (Suc k)"
      unfolding board_key_def board_index sb(3,4) ..
    have k2s: "?K2 (Suc k) = ?K k"
      unfolding board_key_def board_index sb(5,6) ..
    have k2o: "?K2 j = ?K j" if "j \<noteq> k" "j \<noteq> Suc k" for j
    proof -
      from that have "2 * j \<noteq> 2 * k" "2 * j \<noteq> 2 * k + 1" "2 * j \<noteq> 2 * k + 2" "2 * j \<noteq> 2 * k + 3"
        "2 * j + 1 \<noteq> 2 * k" "2 * j + 1 \<noteq> 2 * k + 1" "2 * j + 1 \<noteq> 2 * k + 2" "2 * j + 1 \<noteq> 2 * k + 3"
        by presburger+
      then have "p2 ! (2 * j) = pair ! (2 * j)" "p2 ! (2 * j + 1) = pair ! (2 * j + 1)"
        using sb(7) by blast+
      then show ?thesis unfolding board_key_def by (simp only:)
    qed
    from Suc.prems(2) have km: "k \<le> m" by simp
    from Suc.prems(3) sb(1) have bm: "2 * m + 1 < length p2" by simp
    have H1': "\<forall>i j. i < j \<and> j \<le> m \<and> i \<noteq> k \<and> j \<noteq> k \<longrightarrow> ?K2 i \<le> ?K2 j"
    proof (intro allI impI)
      fix i j assume a: "i < j \<and> j \<le> m \<and> i \<noteq> k \<and> j \<noteq> k"
      consider "i = Suc k" | "j = Suc k" | "i \<noteq> Suc k" "j \<noteq> Suc k" by blast
      then show "?K2 i \<le> ?K2 j"
      proof cases
        case 1
        with a have "j \<noteq> Suc k" "k < j" by simp_all
        with H1 [of k j] a 1 k2s k2o [of j] show ?thesis by simp
      next
        case 2
        with a have "i < k" by simp
        with H1 [of i k] a 2 km k2s k2o [of i] show ?thesis by simp
      next
        case 3
        with H1 [of i j] a k2o [of i] k2o [of j] show ?thesis by simp
      qed
    qed
    have H4': "\<forall>j. k < j \<and> j \<le> m \<longrightarrow> ?K2 k \<le> ?K2 j"
    proof (intro allI impI)
      fix j assume a: "k < j \<and> j \<le> m"
      show "?K2 k \<le> ?K2 j"
      proof (cases "j = Suc k")
        case True
        with le k2k k2s show ?thesis by simp
      next
        case False
        with a have "Suc k < j" by simp
        with H4 [of j] a k2k k2o [of j] False show ?thesis by simp
      qed
    qed
    from Suc.IH [OF rec km bm H1' H4'] show ?thesis .
  qed
qed

lemma sort_board_steps_sorted:
  "m \<le> length pair div 2 \<Longrightarrow> efold (sort_board_step pl) [0 ..< m] pair = Inr q \<Longrightarrow>
   length q = length pair \<and> (\<forall>i j. i < j \<and> j < m \<longrightarrow> board_key pl q i \<le> board_key pl q j)"
proof (induction m arbitrary: q)
  case 0
  then show ?case by simp
next
  case (Suc m)
  from Suc.prems(2) obtain q0 where
    q0: "efold (sort_board_step pl) [0 ..< m] pair = Inr q0"
    and st: "sort_board_step pl m q0 = Inr q"
    unfolding efold_upt_Suc by blast
  from Suc.IH [OF _ q0] Suc.prems(1) have l0: "length q0 = length pair"
    and s0: "\<forall>i j. i < j \<and> j < m \<longrightarrow> board_key pl q0 i \<le> board_key pl q0 j"
    by simp_all
  from st have ib: "insert_board pl m q0 = Inr q"
    by (auto simp: sort_board_step_def ebind_Inr)
  from Suc.prems(1) l0 have b: "2 * m + 1 < length q0" by simp
  have H1: "\<forall>i j. i < j \<and> j \<le> m \<and> i \<noteq> m \<and> j \<noteq> m \<longrightarrow> board_key pl q0 i \<le> board_key pl q0 j"
    using s0 by simp
  have H4: "\<forall>j. m < j \<and> j \<le> m \<longrightarrow> board_key pl q0 m \<le> board_key pl q0 j" by simp
  from insert_board_sorted [OF ib le_refl b H1 H4]
  have "\<forall>i j. i < j \<and> j < Suc m \<longrightarrow> board_key pl q i \<le> board_key pl q j" by simp
  with insert_board_length [OF ib] l0 show ?case by simp
qed

lemma SortBoards_sorted:
  assumes "SortBoards pl pair = Inr pair'"
  shows "boards_sorted pl pair'"
proof -
  from assms have "efold (sort_board_step pl) [0 ..< length pair div 2] pair = Inr pair'"
    by (auto simp: SortBoards_def ebind_Inr)
  from sort_board_steps_sorted [OF le_refl this] have l: "length pair' = length pair"
    and s: "\<And>i j. i < j \<Longrightarrow> j < length pair div 2 \<Longrightarrow> board_key pl pair' i \<le> board_key pl pair' j"
    by simp_all
  have "board_key pl pair' i \<le> board_key pl pair' j" if "i < j" "j < length pair' div 2" for i j
    using s [of i j] that l by simp
  then show ?thesis
    unfolding boards_sorted_def sorted_wrt_iff_nth_less by simp
qed

lemma boards_sorted_nth:
  "boards_sorted pl pair \<Longrightarrow> i \<le> j \<Longrightarrow> j < length pair div 2 \<Longrightarrow>
   board_key pl pair i \<le> board_key pl pair j"
proof (cases "i = j")
  case True
  then show ?thesis by simp
next
  case False
  assume a: "boards_sorted pl pair" "i \<le> j" "j < length pair div 2"
  with False have ij: "i < j" by simp
  from a(1) have "\<forall>i j. i < j \<longrightarrow> j < length (map (board_key pl pair) [0 ..< length pair div 2]) \<longrightarrow>
      map (board_key pl pair) [0 ..< length pair div 2] ! i
      \<le> map (board_key pl pair) [0 ..< length pair div 2] ! j"
    unfolding boards_sorted_def sorted_wrt_iff_nth_less .
  from this [rule_format, of i j] ij a(3) show ?thesis by simp
qed

lemma insert_board_form:
  "insert_board pl k pair = Inr pair' \<Longrightarrow>
   (\<forall>j. 2 * j + 1 < length pair \<longrightarrow> P (pair ! (2 * j)) (pair ! (2 * j + 1))) \<Longrightarrow>
   (\<forall>j. 2 * j + 1 < length pair' \<longrightarrow> P (pair' ! (2 * j)) (pair' ! (2 * j + 1)))"
proof (induction k arbitrary: pair)
  case 0
  then show ?case by simp
next
  case (Suc k)
  note H = Suc.prems(2) [rule_format]
  from insert_board_Suc [OF Suc.prems(1)] obtain stop where
    b: "2 * k + 3 < length pair"
    and r: "if stop then pair' = pair
         else \<exists>p1 p2. swap (2 * Suc k) (2 * Suc k - 2) pair = Inr p1
                \<and> swap (2 * Suc k + 1) (2 * Suc k - 1) p1 = Inr p2
                \<and> insert_board pl k p2 = Inr pair'"
    by blast
  show ?case
  proof (cases stop)
    case True
    with r Suc.prems(2) show ?thesis by simp
  next
    case False
    with r obtain p1 p2 where
      s1: "swap (2 * Suc k) (2 * Suc k - 2) pair = Inr p1"
      and s2: "swap (2 * Suc k + 1) (2 * Suc k - 1) p1 = Inr p2"
      and rec: "insert_board pl k p2 = Inr pair'"
      by auto
    note sb = swap_boards [OF s1 s2]
    have "\<forall>j. 2 * j + 1 < length p2 \<longrightarrow> P (p2 ! (2 * j)) (p2 ! (2 * j + 1))"
    proof (intro allI impI)
      fix j assume j: "2 * j + 1 < length p2"
      consider "j = k" | "j = Suc k" | "j \<noteq> k" "j \<noteq> Suc k" by blast
      then show "P (p2 ! (2 * j)) (p2 ! (2 * j + 1))"
      proof cases
        case 1
        from H [of "Suc k"] b have "P (pair ! (2 * k + 2)) (pair ! (2 * k + 3))"
          unfolding board_index by blast
        with 1 sb(3,4) show ?thesis by (simp only:)
      next
        case 2
        from H [of k] b have "P (pair ! (2 * k)) (pair ! (2 * k + 1))" by simp
        then have "P (p2 ! (2 * Suc k)) (p2 ! (2 * Suc k + 1))" unfolding board_index sb(5,6) .
        with 2 show ?thesis by (simp only:)
      next
        case 3
        then have "2 * j \<noteq> 2 * k" "2 * j \<noteq> 2 * k + 1" "2 * j \<noteq> 2 * k + 2" "2 * j \<noteq> 2 * k + 3"
          "2 * j + 1 \<noteq> 2 * k" "2 * j + 1 \<noteq> 2 * k + 1" "2 * j + 1 \<noteq> 2 * k + 2" "2 * j + 1 \<noteq> 2 * k + 3"
          by presburger+
        then have "p2 ! (2 * j) = pair ! (2 * j)" "p2 ! (2 * j + 1) = pair ! (2 * j + 1)"
          using sb(7) by blast+
        with H [of j] j sb(1) show ?thesis by simp
      qed
    qed
    from Suc.IH [OF rec this] show ?thesis .
  qed
qed

lemma SortBoards_form:
  assumes "SortBoards pl pair = Inr pair'"
    and "\<forall>j. 2 * j + 1 < length pair \<longrightarrow> P (pair ! (2 * j)) (pair ! (2 * j + 1))"
  shows "\<forall>j. 2 * j + 1 < length pair' \<longrightarrow> P (pair' ! (2 * j)) (pair' ! (2 * j + 1))"
proof -
  from assms(1) have e: "efold (sort_board_step pl) [0 ..< length pair div 2] pair = Inr pair'"
    by (auto simp: SortBoards_def ebind_Inr)
  have step: "\<And>z s s'. (\<forall>j. 2 * j + 1 < length s \<longrightarrow> P (s ! (2 * j)) (s ! (2 * j + 1))) \<Longrightarrow>
      sort_board_step pl z s = Inr s' \<Longrightarrow>
      (\<forall>j. 2 * j + 1 < length s' \<longrightarrow> P (s' ! (2 * j)) (s' ! (2 * j + 1)))"
  proof -
    fix z s s'
    assume a: "\<forall>j. 2 * j + 1 < length s \<longrightarrow> P (s ! (2 * j)) (s ! (2 * j + 1))"
      and st: "sort_board_step pl z s = Inr s'"
    from st have "insert_board pl z s = Inr s'"
      by (auto simp: sort_board_step_def ebind_Inr)
    from insert_board_form [OF this a]
    show "\<forall>j. 2 * j + 1 < length s' \<longrightarrow> P (s' ! (2 * j)) (s' ! (2 * j + 1))" .
  qed
  show ?thesis
    by (rule efold_preserves [where P = "\<lambda>s. \<forall>j. 2 * j + 1 < length s \<longrightarrow> P (s ! (2 * j)) (s ! (2 * j + 1))"
      and f = "sort_board_step pl", OF step assms(2) e])
qed

lemma boards_of_append:
  "length xs mod 2 = 0 \<Longrightarrow> boards_of (xs @ ys) = boards_of xs @ boards_of ys"
  by (induction xs rule: boards_of.induct) simp_all

lemma boards_formed_append:
  "length xs mod 2 = 0 \<Longrightarrow>
   boards_formed pl (xs @ ys) \<longleftrightarrow> boards_formed pl xs \<and> boards_formed pl ys"
  by (simp add: boards_formed_def boards_of_append)

lemma boards_formed_wants:
  "list_all (\<lambda>i. i < length pl - 1 \<and> wants_pairing (pl ! i)) xs \<Longrightarrow> boards_formed pl xs"
  by (induction xs rule: boards_of.induct) (simp_all add: boards_formed_def board_form_def)

lemma boards_formed_wants_bye:
  "list_all (\<lambda>i. i < length pl - 1 \<and> wants_pairing (pl ! i)) xs \<Longrightarrow> length xs mod 2 \<noteq> 0 \<Longrightarrow>
   boards_formed pl (xs @ [length pl - 1])"
  by (induction xs rule: boards_of.induct) (simp_all add: boards_formed_def board_form_def)

lemma service_one_form:
  assumes x: "to_size_t (rank p1) = x" "x < length pl - 1" "p1 = pl ! x" "play_id (pl ! x) \<noteq> BYE_ID"
    and inv: "hint_form pl acc"
  shows "hint_form pl (service_one cb (length pl - 1) p1 acc)"
proof -
  obtain p s oth where acc: "acc = (p, s, oth)" by (cases acc) auto
  from inv acc have w: "list_all (\<lambda>i. i < length pl - 1 \<and> wants_pairing (pl ! i)) (p @ s)"
    and ev: "length oth mod 2 = 0" and f: "boards_formed pl oth"
    by (simp_all add: hint_form_def)
  show ?thesis
  proof (cases "paired p1 \<or> bye_request p1 \<or> \<not> cb")
    case True
    then have e: "service_one cb (length pl - 1) p1 acc = (p, s, oth @ [x, length pl - 1])"
      using x(1) by (simp add: service_one_def acc)
    have "boards_formed pl [x, length pl - 1]"
      using x(2) by (simp add: boards_formed_def board_form_def)
    with f ev have "boards_formed pl (oth @ [x, length pl - 1])"
      by (simp add: boards_formed_append)
    with w ev show ?thesis unfolding e hint_form_def by simp
  next
    case False
    then have e: "service_one cb (length pl - 1) p1 acc = (p, s @ [x], oth)"
      using x(1) by (simp add: service_one_def acc)
    from False x have "wants_pairing (pl ! x)" by (simp add: wants_pairing_def)
    with w x(2) ev f show ?thesis unfolding e hint_form_def by simp
  qed
qed

lemma service_two_form:
  assumes x: "to_size_t (rank p1) = x" "x < length pl - 1" "p1 = pl ! x" "play_id (pl ! x) \<noteq> BYE_ID"
    and y: "to_size_t (rank p2) = y" "y < length pl - 1" "p2 = pl ! y" "play_id (pl ! y) \<noteq> BYE_ID"
    and c: "paired p2 = paired p1" "\<not> (\<not> paired p1 \<and> (bye_request p1 \<or> bye_request p2))"
    and inv: "hint_form pl acc"
  shows "hint_form pl (service_two p1 p2 acc)"
proof -
  obtain p s oth where acc: "acc = (p, s, oth)" by (cases acc) auto
  from inv acc have w: "list_all (\<lambda>i. i < length pl - 1 \<and> wants_pairing (pl ! i)) (p @ s)"
    and ev: "length oth mod 2 = 0" and f: "boards_formed pl oth"
    by (simp_all add: hint_form_def)
  show ?thesis
  proof (cases "paired p1")
    case True
    then have e: "service_two p1 p2 acc = (p, s, oth @ [x, y])"
      using x(1) y(1) by (simp add: service_two_def acc)
    have "boards_formed pl [x, y]"
      using x y c True by (simp add: boards_formed_def board_form_def)
    with f ev have "boards_formed pl (oth @ [x, y])"
      by (simp add: boards_formed_append)
    with w ev show ?thesis unfolding e hint_form_def by simp
  next
    case False
    then have e: "service_two p1 p2 acc = (p @ [x, y], s, oth)"
      using x(1) y(1) by (simp add: service_two_def acc)
    from False x y c have "wants_pairing (pl ! x)" "wants_pairing (pl ! y)"
      by (simp_all add: wants_pairing_def)
    with w x(2) y(2) ev f show ?thesis unfolding e hint_form_def by simp
  qed
qed

lemma hint_loop_form:
  "(\<forall>e \<in> set es. to_size_t (rank (pl ! snd e)) = snd e \<and> snd e < length pl - 1
                  \<and> play_id (pl ! snd e) \<noteq> BYE_ID) \<Longrightarrow>
   bye = length pl - 1 \<Longrightarrow> hint_form pl acc \<Longrightarrow> hint_form pl (hint_loop pl cb bye es acc)"
proof (induction pl cb bye es acc rule: hint_loop.induct)
  case (1 pl cb bye acc)
  then show ?case by simp
next
  case (2 pl cb bye e1 acc)
  then have "to_size_t (rank (pl ! snd e1)) = snd e1" "snd e1 < length pl - 1"
    "play_id (pl ! snd e1) \<noteq> BYE_ID" by simp_all
  from service_one_form [OF this(1,2) refl this(3) "2.prems"(3)] "2.prems"(2)
  show ?case by simp
next
  case (3 pl cb bye e1 e2 rest acc)
  let ?p1 = "pl ! snd e1" and ?p2 = "pl ! snd e2"
  from "3.prems"(1) have e1: "to_size_t (rank ?p1) = snd e1" "snd e1 < length pl - 1"
      "play_id (pl ! snd e1) \<noteq> BYE_ID"
    and e2: "to_size_t (rank ?p2) = snd e2" "snd e2 < length pl - 1"
      "play_id (pl ! snd e2) \<noteq> BYE_ID"
    and r: "\<forall>e \<in> set rest. to_size_t (rank (pl ! snd e)) = snd e \<and> snd e < length pl - 1
                  \<and> play_id (pl ! snd e) \<noteq> BYE_ID"
    by simp_all
  note bye = "3.prems"(2) and inv = "3.prems"(3)
  define c where "c \<longleftrightarrow> board_num ?p2 \<noteq> board_num ?p1 \<or> paired ?p2 \<noteq> paired ?p1
         \<or> (\<not> paired ?p1 \<and> (bye_request ?p1 \<or> bye_request ?p2))"
  have eq: "hint_loop pl cb bye (e1 # e2 # rest) acc
            = (if c then hint_loop pl cb bye (e2 # rest) (service_one cb bye ?p1 acc)
               else hint_loop pl cb bye rest (service_two ?p1 ?p2 acc))"
    unfolding c_def by (simp only: hint_loop.simps Let_def)
  show ?case
  proof (cases c)
    case True
    then have t: "board_num ?p2 \<noteq> board_num ?p1 \<or> paired ?p2 \<noteq> paired ?p1
         \<or> (\<not> paired ?p1 \<and> (bye_request ?p1 \<or> bye_request ?p2))"
      unfolding c_def by blast
    from "3.prems"(1) have es: "\<forall>e \<in> set (e2 # rest). to_size_t (rank (pl ! snd e)) = snd e
          \<and> snd e < length pl - 1 \<and> play_id (pl ! snd e) \<noteq> BYE_ID"
      by simp
    from service_one_form [OF e1(1,2) refl e1(3) inv, of cb] bye
    have "hint_form pl (service_one cb bye ?p1 acc)" by simp
    from "3.IH"(1) [OF refl refl t es bye this]
    show ?thesis by (simp only: eq True if_True)
  next
    case False
    then have f: "\<not> (board_num ?p2 \<noteq> board_num ?p1 \<or> paired ?p2 \<noteq> paired ?p1
         \<or> (\<not> paired ?p1 \<and> (bye_request ?p1 \<or> bye_request ?p2)))"
      unfolding c_def by blast
    then have c1: "paired ?p2 = paired ?p1"
      and c2: "\<not> (\<not> paired ?p1 \<and> (bye_request ?p1 \<or> bye_request ?p2))" by blast+
    from service_two_form [OF e1(1,2) refl e1(3) e2(1,2) refl e2(3) c1 c2 inv]
    have "hint_form pl (service_two ?p1 ?p2 acc)" .
    from "3.IH"(2) [OF refl refl f r bye this]
    show ?thesis by (simp only: eq False if_False)
  qed
qed

lemma boards_formed_Cons2:
  "boards_formed pl (a # b # rest) \<longleftrightarrow> board_form pl a b \<and> boards_formed pl rest"
  by (simp add: boards_formed_def)

lemma normalise_ranks_form:
  "normalise_ranks pl xs = Inr ys \<Longrightarrow> boards_formed pl xs \<Longrightarrow>
   (\<forall>i < length pl. rank (pl ! i) = int i) \<Longrightarrow> boards_formed pl ys"
proof (induction pl xs arbitrary: ys rule: normalise_ranks.induct)
  case (1 pl a b rest)
  from "1.prems"(1) obtain r where r: "normalise_ranks pl rest = Inr r"
    and la: "a < length pl" and lb: "b < length pl"
    and ys: "ys = (if rank (pl ! a) > rank (pl ! b) then b # a # r else a # b # r)"
    by (auto simp: ebind_Inr nth_chk_def split: if_splits)
  from "1.prems"(2) have fab: "board_form pl a b" and fr: "boards_formed pl rest"
    by (simp_all add: boards_formed_Cons2)
  from "1.IH" [OF r fr "1.prems"(3)] have f': "boards_formed pl r" .
  show ?case
  proof (cases "rank (pl ! a) > rank (pl ! b)")
    case True
    with "1.prems"(3) la lb have "b < a" by simp
    with fab have "board_form pl b a" by (auto simp: board_form_def)
    with True f' ys show ?thesis by (simp add: boards_formed_Cons2)
  next
    case False
    with fab f' ys show ?thesis by (simp add: boards_formed_Cons2)
  qed
qed (simp_all add: boards_formed_def)

lemma HintPairings_form:
  assumes h: "HintPairings pl cb = Inr pair" and sz: "length pl \<le> 2 ^ 64"
    and nb: "\<forall>i < length pl - 1. play_id (pl ! i) \<noteq> BYE_ID"
  shows "boards_formed pl pair \<and> boards_sorted pl pair \<and> length pair mod 2 = 0"
proof -
  let ?bye = "length pl - 1"
  obtain p s oth where hl: "hint_loop pl cb ?bye (hint_map pl) ([], [], []) = (p, s, oth)"
    by (cases "hint_loop pl cb ?bye (hint_map pl) ([], [], [])") auto
  define pair2 where "pair2 = (if length (p @ s) mod 2 \<noteq> 0 then (p @ s) @ [?bye] else p @ s) @ oth"
  from h hl have ranks: "list_all (\<lambda>(x, p). rank p = int x) (enumerate 0 pl)"
    and "\<exists>pair3. normalise_ranks pl pair2 = Inr pair3 \<and> SortBoards pl pair3 = Inr pair"
    by (auto simp: HintPairings_def Let_def ebind_Inr ASSERT_Inr pair2_def)
  then obtain pair3 where n: "normalise_ranks pl pair2 = Inr pair3"
    and sb: "SortBoards pl pair3 = Inr pair"
    by blast
  have rk: "rank (pl ! x) = int x" if "x < length pl" for x
  proof -
    from that have "(x, pl ! x) \<in> set (enumerate 0 pl)"
      by (auto simp: in_set_enumerate_eq)
    with ranks show ?thesis by (auto simp: list_all_iff)
  qed
  have es: "\<forall>e \<in> set (hint_map pl). to_size_t (rank (pl ! snd e)) = snd e \<and> snd e < ?bye
              \<and> play_id (pl ! snd e) \<noteq> BYE_ID"
  proof
    fix e assume "e \<in> set (hint_map pl)"
    then have l: "snd e < length pl - 1" by (rule hint_map_set)
    with sz have "snd e < 2 ^ 64" by simp
    with l rk [of "snd e"] nb show "to_size_t (rank (pl ! snd e)) = snd e \<and> snd e < ?bye
              \<and> play_id (pl ! snd e) \<noteq> BYE_ID"
      by (simp add: to_size_t_nat)
  qed
  have "hint_form pl ([], [], [])" by (simp add: hint_form_def boards_formed_def)
  from hint_loop_form [OF es refl this, of cb] hl have hf: "hint_form pl (p, s, oth)" by simp
  then have w: "list_all (\<lambda>i. i < length pl - 1 \<and> wants_pairing (pl ! i)) (p @ s)"
    and ev: "length oth mod 2 = 0" and f: "boards_formed pl oth"
    by (simp_all add: hint_form_def)
  let ?first = "if length (p @ s) mod 2 \<noteq> 0 then (p @ s) @ [?bye] else p @ s"
  have ef: "length ?first mod 2 = 0" by (auto simp: mod_Suc)
  have ff: "boards_formed pl ?first"
    using boards_formed_wants [OF w] boards_formed_wants_bye [OF w] by auto
  from ef ff f have f2: "boards_formed pl pair2"
    unfolding pair2_def by (simp only: boards_formed_append)
  from normalise_ranks_form [OF n f2] rk have f3: "boards_formed pl pair3" by simp
  then have "\<forall>j. 2 * j + 1 < length pair3 \<longrightarrow> board_form pl (pair3 ! (2 * j)) (pair3 ! (2 * j + 1))"
    by (simp only: boards_formed_def list_all_boards_of)
  from SortBoards_form [OF sb this] have fp: "boards_formed pl pair"
    by (simp only: boards_formed_def list_all_boards_of)
  from sb have "length pair3 mod 2 = 0" by (auto simp: SortBoards_def ebind_Inr ASSERT_Inr)
  moreover from SortBoards_mset [OF sb] have "length pair = length pair3" by (metis size_mset)
  ultimately have "length pair mod 2 = 0" by simp
  with fp SortBoards_sorted [OF sb] show ?thesis by simp
qed

lemma take_wants:
  assumes form: "boards_formed pl pair0" and srt: "boards_sorted pl pair0"
    and ev: "length pair0 mod 2 = 0" and nl: "n \<le> length pair0" and n0: "0 < n"
    and lst: "\<not> bye_request (pl ! (pair0 ! (n - 1))) \<and> \<not> paired (pl ! (pair0 ! (n - 1)))"
    and nb: "\<forall>i < n. play_id (pl ! (pair0 ! i)) \<noteq> BYE_ID"
    and bye: "play_id (pl ! (length pl - 1)) = BYE_ID"
  shows "\<forall>i < n. wants_pairing (pl ! (pair0 ! i))"
proof -
  let ?a = "\<lambda>k. pair0 ! (2 * k)" and ?b = "\<lambda>k. pair0 ! (2 * k + 1)"
  define k' where "k' = (n - 1) div 2"
  from form have F: "\<And>k. 2 * k + 1 < length pair0 \<Longrightarrow> board_form pl (?a k) (?b k)"
    by (simp only: boards_formed_def list_all_boards_of)
  from n0 nl ev have bk': "2 * k' + 1 < length pair0" unfolding k'_def by presburger
  then have kl: "k' < length pair0 div 2" by simp
  from n0 have cases': "n - 1 = 2 * k' \<or> n - 1 = 2 * k' + 1" unfolding k'_def by presburger
  from lst nb n0 have wl: "wants_pairing (pl ! (pair0 ! (n - 1)))"
    by (simp add: wants_pairing_def)
  have sym: "(wants_pairing (pl ! ?a k) \<and> wants_pairing (pl ! ?b k))
             \<or> (paired (pl ! ?a k) \<and> paired (pl ! ?b k))"
    if "2 * k + 1 < n" for k
  proof -
    from that nl have "2 * k + 1 < length pair0" by simp
    from F [OF this] have "?b k = length pl - 1
          \<or> ((wants_pairing (pl ! ?a k) \<and> wants_pairing (pl ! ?b k))
                  \<or> (paired (pl ! ?a k) \<and> paired (pl ! ?b k)))"
      by (auto simp: board_form_def)
    moreover from nb that have "play_id (pl ! ?b k) \<noteq> BYE_ID" by simp
    with bye have "?b k \<noteq> length pl - 1" by auto
    ultimately show ?thesis by blast
  qed
  have wa': "wants_pairing (pl ! ?a k')"
  proof (cases "n - 1 = 2 * k'")
    case True
    with wl show ?thesis by simp
  next
    case False
    with cases' have e: "n - 1 = 2 * k' + 1" by simp
    with n0 have "2 * k' + 1 < n" by simp
    from sym [OF this] wl e show ?thesis by (auto simp: wants_pairing_def)
  qed
  then have key': "board_key pl pair0 k' < 4"
    by (simp add: board_key_def sort_key_of_def wants_pairing_def)
  have low: "wants_pairing (pl ! ?a k) \<and> wants_pairing (pl ! ?b k)" if "k < k'" for k
  proof -
    from that have "k \<le> k'" by simp
    from boards_sorted_nth [OF srt this kl] key' have "board_key pl pair0 k < 4" by simp
    then have np: "\<not> paired (pl ! ?a k)"
      by (auto simp: board_key_def sort_key_of_def split: if_splits)
    from that cases' n0 have "2 * k + 1 < n" by presburger
    from sym [OF this] np show ?thesis by blast
  qed
  show ?thesis
  proof (intro allI impI)
    fix i assume i: "i < n"
    define k where "k = i div 2"
    have ik: "i = 2 * k \<or> i = 2 * k + 1" unfolding k_def by presburger
    from i cases' n0 have "k \<le> k'" unfolding k_def by presburger
    show "wants_pairing (pl ! (pair0 ! i))"
    proof (cases "k < k'")
      case True
      from low [OF this] ik show ?thesis by auto
    next
      case False
      with \<open>k \<le> k'\<close> have kk: "k = k'" by simp
      from ik show ?thesis
      proof
        assume "i = 2 * k"
        with kk wa' show ?thesis by simp
      next
        assume e: "i = 2 * k + 1"
        with kk i cases' n0 have "i = n - 1" by presburger
        with wl show ?thesis by simp
      qed
    qed
  qed
qed

lemma strictly_sorted_nth:
  "strictly_sorted pl = Inr () \<Longrightarrow> Suc i < length pl \<Longrightarrow> Player_lt (pl ! i) (pl ! Suc i)"
proof (induction pl arbitrary: i rule: strictly_sorted.induct)
  case (1 p q rest)
  from "1.prems"(1) have lt: "Player_lt p q" and r: "strictly_sorted (q # rest) = Inr ()"
    by (auto simp: ebind_Inr ASSERT_Inr Player_less_def)
  show ?case
  proof (cases i)
    case 0
    with lt show ?thesis by simp
  next
    case (Suc i')
    with "1.prems"(2) have "Suc i' < length (q # rest)" by simp
    from "1.IH" [OF r this] Suc show ?thesis by simp
  qed
qed simp_all

lemma wants_down: "Player_lt p q \<Longrightarrow> wants_pairing q \<Longrightarrow> wants_pairing p"
  by (cases "play_id p = BYE_ID"; cases "bye_request p"; cases "paired p")
     (simp_all add: Player_lt_def wants_pairing_def)

lemma wants_prefix:
  assumes s: "strictly_sorted pl = Inr ()" and j: "j < length pl" and w: "wants_pairing (pl ! j)"
    and ij: "i \<le> j"
  shows "wants_pairing (pl ! i)"
  using ij w
proof (induction rule: inc_induct)
  case base
  then show ?case .
next
  case (step n)
  from step.hyps(2) j have "Suc n < length pl" by simp
  from strictly_sorted_nth [OF s this] step.IH [OF step.prems] show ?case
    by (rule wants_down)
qed

lemma wants_below_count:
  assumes s: "strictly_sorted pl = Inr ()" and i: "i < length pl" and w: "wants_pairing (pl ! i)"
  shows "i < length (filter wants_pairing pl)"
proof -
  have "{0 .. i} \<subseteq> {k. k < length pl \<and> wants_pairing (pl ! k)}"
    using wants_prefix [OF s i w] i by auto
  moreover have "finite {k. k < length pl \<and> wants_pairing (pl ! k)}" by simp
  ultimately have "card {0 .. i} \<le> card {k. k < length pl \<and> wants_pairing (pl ! k)}"
    by (rule card_mono [rotated])
  then show ?thesis by (simp add: length_filter_conv_card)
qed

lemma filter_update_length:
  "i < length xs \<Longrightarrow> P (xs ! i) \<Longrightarrow> \<not> P v \<Longrightarrow>
   length (filter P (xs[i := v])) = length (filter P xs) - 1"
proof -
  assume a: "i < length xs" "P (xs ! i)" "\<not> P v"
  from a(1) have "xs = take i xs @ xs ! i # drop (Suc i) xs" by (rule id_take_nth_drop)
  then have "length (filter P xs) = length (filter P (take i xs @ xs ! i # drop (Suc i) xs))"
    by simp
  moreover from a(1) have "xs[i := v] = take i xs @ v # drop (Suc i) xs"
    by (rule upd_conv_take_nth_drop)
  ultimately show ?thesis using a(2,3) by simp
qed

lemma house_player_count:
  assumes "house_player pl0 = (plh, n)"
  shows "length (filter wants_pairing plh) = n"
proof -
  let ?house = "filter (\<lambda>x. wants_pairing (pl0 ! x) \<and> bye_house (pl0 ! x)) [0 ..< length pl0]"
  show ?thesis
  proof (cases "length (filter wants_pairing pl0) mod 2 = 0 \<or> ?house = []")
    case True
    with assms show ?thesis by (auto simp: house_player_def Let_def)
  next
    case False
    then have ne: "?house \<noteq> []" by simp
    from False assms have plh: "plh = pl0[last ?house := (pl0 ! last ?house)\<lparr>bye_request := True\<rparr>]"
      and n: "n = length (filter wants_pairing pl0) - 1"
      by (auto simp: house_player_def Let_def)
    from ne have "last ?house \<in> set ?house" by (rule last_in_set)
    then have h: "last ?house < length pl0" "wants_pairing (pl0 ! last ?house)" by auto
    have "\<not> wants_pairing ((pl0 ! last ?house)\<lparr>bye_request := True\<rparr>)"
      by (simp add: wants_pairing_def)
    from filter_update_length [OF h this] plh n show ?thesis by simp
  qed
qed

lemma mset_insort_by: "mset (insort_by lt x xs) = add_mset x (mset xs)"
  by (induction xs) auto

lemma mset_sort_by: "mset (sort_by lt xs) = mset xs"
  by (induction xs) (simp_all add: sort_by_def mset_insort_by)

lemma append_bye_wants: "filter wants_pairing (append_bye pl) = filter wants_pairing pl"
  by (simp add: append_bye_def Let_def wants_pairing_def)

lemma SetRanks_wants:
  assumes "SetRanks pl = Inr pl1"
  shows "length pl1 = length pl \<and> (\<forall>i < length pl. wants_pairing (pl1 ! i) = wants_pairing (pl ! i))"
proof -
  from assms obtain pl0 where
    em: "emap (\<lambda>(x, p).
              ebind (ASSERT (if x = length pl - 1 then play_id p = BYE_ID else play_id p \<noteq> BYE_ID))
                (\<lambda>_. ebind (DueColor (color_history p) (multiround p))
                (\<lambda>dc. Inr (p\<lparr>rank := int x, due_color := dc\<rparr>))))
            (enumerate 0 pl) = Inr pl0"
    and pl1: "pl1 = map (\<lambda>p. p\<lparr>opponent_ranks := lookup_ranks pl0 (map atoi (opponents p)),
                       teammate_ranks := lookup_ranks pl0 (teammates p)\<rparr>) pl0"
    by (auto simp: SetRanks_def ebind_Inr)
  from emap_Inr [OF em] have len: "length pl0 = length pl"
    and nth: "\<forall>i < length pl. (\<lambda>(x, p).
              ebind (ASSERT (if x = length pl - 1 then play_id p = BYE_ID else play_id p \<noteq> BYE_ID))
                (\<lambda>_. ebind (DueColor (color_history p) (multiround p))
                (\<lambda>dc. Inr (p\<lparr>rank := int x, due_color := dc\<rparr>)))) (enumerate 0 pl ! i) = Inr (pl0 ! i)"
    by simp_all
  have "wants_pairing (pl1 ! i) = wants_pairing (pl ! i)" if i: "i < length pl" for i
  proof -
    from i nth have "ebind (ASSERT (if i = length pl - 1 then play_id (pl ! i) = BYE_ID else play_id (pl ! i) \<noteq> BYE_ID))
                (\<lambda>_. ebind (DueColor (color_history (pl ! i)) (multiround (pl ! i)))
                (\<lambda>dc. Inr ((pl ! i)\<lparr>rank := int i, due_color := dc\<rparr>))) = Inr (pl0 ! i)"
      by (simp add: nth_enumerate_eq)
    then obtain dc where e: "(pl ! i)\<lparr>rank := int i, due_color := dc\<rparr> = pl0 ! i"
      by (auto simp: ebind_Inr)
    have "wants_pairing (pl0 ! i) = wants_pairing (pl ! i)"
      unfolding e [symmetric] by (simp add: wants_pairing_def)
    with i len pl1 show ?thesis by (simp add: wants_pairing_def)
  qed
  with len pl1 show ?thesis by simp
qed

lemma Canonical_count:
  assumes hp: "house_player pl0 = (plh, n)" and can: "CanonicalPlayerVector plh = Inr pl"
  shows "length (filter wants_pairing pl) = n"
proof -
  let ?s = "sort_by Player_lt (append_bye plh)"
  from can have sr: "SetRanks ?s = Inr pl"
    by (auto simp: CanonicalPlayerVector_def Let_def ebind_Inr ASSERT_Inr)
  from SetRanks_wants [OF sr] have len: "length pl = length ?s"
    and w: "\<And>i. i < length ?s \<Longrightarrow> wants_pairing (pl ! i) = wants_pairing (?s ! i)"
    by simp_all
  have "{i. i < length pl \<and> wants_pairing (pl ! i)} = {i. i < length ?s \<and> wants_pairing (?s ! i)}"
    using len w by auto
  then have "length (filter wants_pairing pl) = length (filter wants_pairing ?s)"
    by (simp add: length_filter_conv_card)
  also have "\<dots> = size (filter_mset wants_pairing (mset ?s))"
    by (metis mset_filter size_mset)
  also have "\<dots> = size (filter_mset wants_pairing (mset (append_bye plh)))"
    by (simp only: mset_sort_by)
  also have "\<dots> = length (filter wants_pairing (append_bye plh))"
    by (metis mset_filter size_mset)
  also have "\<dots> = n" by (simp only: append_bye_wants house_player_count [OF hp])
  finally show ?thesis .
qed

lemma check_ends_last:
  assumes "check_ends pl pair n = Inr ()" and "0 < n"
  shows "n - 1 < length pair \<and> pair ! (n - 1) < length pl
         \<and> \<not> bye_request (pl ! (pair ! (n - 1))) \<and> \<not> paired (pl ! (pair ! (n - 1)))"
  using assms
  by (auto simp: check_ends_def player_at_def ebind_Inr ASSERT_Inr nth_chk_Inr split: if_splits)

lemma HintPairings_asserts:
  assumes "HintPairings pl cb = Inr pair"
  shows "pl \<noteq> [] \<and> play_id (pl ! (length pl - 1)) = BYE_ID \<and> strictly_sorted pl = Inr ()"
  using assms
  by (auto simp: HintPairings_def ebind_Inr ASSERT_Inr last_conv_nth)

lemma FirstPairings_mset:
  assumes h: "HintPairings pl True = Inr pair0" and ce: "check_ends pl pair0 n = Inr ()"
    and fp: "FirstPairings pl pair0 n = Inr pair1"
    and cnt: "length (filter wants_pairing pl) = n" and sz: "length pl \<le> 2 ^ 64"
    and nb: "\<forall>i < length pl - 1. play_id (pl ! i) \<noteq> BYE_ID"
  shows "mset pair1 = mset pair0"
proof -
  let ?N = "length pl - 1"
  from FirstPairings_perm [OF fp] have nl: "n \<le> length pair0"
    and len: "length pair1 = length pair0" and dr: "drop n pair1 = drop n pair0"
    and pm: "mset (take n pair1) = mset [0 ..< n]"
    and inr: "\<And>i. i < n \<Longrightarrow> pair0 ! i < length pl \<and> play_id (pl ! (pair0 ! i)) \<noteq> BYE_ID"
    by simp_all
  from HintPairings_asserts [OF h] have ne: "pl \<noteq> []"
    and bye: "play_id (pl ! ?N) = BYE_ID" and ss: "strictly_sorted pl = Inr ()"
    by simp_all
  from HintPairings_form [OF h sz nb] have form: "boards_formed pl pair0"
    and srt: "boards_sorted pl pair0" and ev: "length pair0 mod 2 = 0"
    by simp_all
  have tk: "mset (take n pair0) = mset [0 ..< n]"
  proof (cases "n = 0")
    case True
    then show ?thesis by simp
  next
    case False
    then have n0: "0 < n" by simp
    from check_ends_last [OF ce n0] have
      lst: "\<not> bye_request (pl ! (pair0 ! (n - 1))) \<and> \<not> paired (pl ! (pair0 ! (n - 1)))" by simp
    from inr have nbs: "\<forall>i < n. play_id (pl ! (pair0 ! i)) \<noteq> BYE_ID" by simp
    from take_wants [OF form srt ev nl n0 lst nbs bye]
    have w: "\<And>i. i < n \<Longrightarrow> wants_pairing (pl ! (pair0 ! i))" by simp
    have lt: "pair0 ! i < n" if "i < n" for i
      using wants_below_count [OF ss _ w [OF that]] inr [OF that] cnt by simp
    from HintPairings_players [OF h sz]
    have "mset (filter (\<lambda>i. i \<noteq> ?N) pair0)
          = mset (filter (\<lambda>x. board_num (pl ! x) \<noteq> - 1) [0 ..< ?N])" .
    then have d: "distinct (filter (\<lambda>i. i \<noteq> ?N) pair0)"
      by (metis distinct_filter distinct_upt mset_eq_imp_distinct_iff)
    have dt: "distinct (take n pair0)"
      unfolding distinct_conv_nth
    proof (intro allI impI)
      fix i j assume i: "i < length (take n pair0)" and j: "j < length (take n pair0)" and ij: "i \<noteq> j"
      from i j nl have i': "i < n" and j': "j < n" by simp_all
      show "take n pair0 ! i \<noteq> take n pair0 ! j"
      proof
        assume "take n pair0 ! i = take n pair0 ! j"
        with i' j' have e: "pair0 ! i = pair0 ! j" by simp
        from i' j' nl have "i < length pair0" "j < length pair0" by simp_all
        from distinct_filter_nth [OF d this ij e] have "pair0 ! i = ?N" by simp
        with inr [OF i'] bye show False by simp
      qed
    qed
    have sub: "set (take n pair0) \<subseteq> {0 ..< n}"
    proof
      fix v assume "v \<in> set (take n pair0)"
      then obtain i where "i < length (take n pair0)" "take n pair0 ! i = v"
        by (auto simp: in_set_conv_nth)
      with nl lt [of i] show "v \<in> {0 ..< n}" by simp
    qed
    from dt nl have "card (set (take n pair0)) = n" by (simp add: distinct_card)
    with sub have "set (take n pair0) = {0 ..< n}"
      by (intro card_subset_eq) simp_all
    with dt show ?thesis
      by (metis distinct_upt set_eq_iff_mset_eq_distinct set_upt)
  qed
  have "mset pair1 = mset (take n pair1) + mset (drop n pair1)"
    by (metis append_take_drop_id mset_append)
  also have "\<dots> = mset (take n pair0) + mset (drop n pair0)" by (simp only: pm tk dr)
  also have "\<dots> = mset pair0" by (metis append_take_drop_id mset_append)
  finally show ?thesis .
qed

lemma FindPairings_boards:
  assumes run: "FindPairings fuel cf pl0 totalRounds firstBoardNum depth useFirstPairings
                  skipOptimize = Inr (pl', pair', c)"
    and swiss: "\<forall>p \<in> set pl0. trn_type p \<noteq> CHR ''R'' \<and> trn_type p \<noteq> CHR ''D''"
    and size: "length pl0 < 2 ^ 31"
  shows "\<exists>pl. CanonicalPlayerVector (fst (house_player pl0)) = Inr pl
           \<and> length pl' = length pl
           \<and> (\<forall>i < length pl. play_id (pl' ! i) = play_id (pl ! i))
           \<and> mset (filter (\<lambda>i. i \<noteq> length pl - 1) pair')
             = mset (filter (\<lambda>x. board_num (pl ! x) \<noteq> - 1) [0 ..< length pl - 1])
           \<and> length pair' mod 2 = 0
           \<and> (\<forall>k < length pair' div 2.
                 board_numbered pl' pair' (if firstBoardNum = 0 then lowBoard pl else firstBoardNum) k
                 \<and> board_coloured pl' pair' k)
           \<and> (\<forall>i < length pl - 1. i \<notin> set pair' \<longrightarrow> board_num (pl' ! i) = board_num (pl ! i))"
proof -
  obtain plh nplayers where hp: "house_player pl0 = (plh, nplayers)"
    by (cases "house_player pl0") auto
  from run hp obtain pl where can: "CanonicalPlayerVector plh = Inr pl"
    and rest: "(if trn_type (hd pl) = CHR ''R'' \<or> trn_type (hd pl) = CHR ''D''
     then ebind (RoundRobinPairings pl totalRounds firstBoardNum) (\<lambda>(pl', c). Inr (pl', [], c))
     else
       let fb = (if firstBoardNum = 0 then lowBoard pl else firstBoardNum);
           remainingRounds = to_size_t (totalRounds - rnd (hd pl))
       in
       ebind (HintPairings pl True) (\<lambda>pair0.
       ebind (check_ends pl pair0 nplayers) (\<lambda>_.
       ebind (if useFirstPairings then FirstPairings pl pair0 nplayers else Inr pair0) (\<lambda>pair1.
       ebind (check_ends pl pair1 nplayers) (\<lambda>_.
       ebind (if skipOptimize
              then ebind (cf pl pair1 remainingRounds 0 ((nplayers + 1) div 2 * 2) True True)
                     (\<lambda>(c, cp, codes). Inr (set_warn_codes pl codes, pair1, c))
              else ebind (MinimizePairingCost fuel cf pl pair1 remainingRounds depth 0 nplayers)
                     (\<lambda>(pl', pair', c, trace). Inr (pl', pair', c))) (\<lambda>(pl2, pair2, cost).
       ebind (set_boards_and_colors pl2 pair2 fb) (\<lambda>(pl3, pair3).
       Inr (pl3, pair3, cost)))))))) = Inr (pl', pair', c)"
    by (auto simp: FindPairings_def ebind_Inr [of "check_multiround pl0"]
          ebind_Inr [of "CanonicalPlayerVector plh"])
  from hp can have can': "CanonicalPlayerVector (fst (house_player pl0)) = Inr pl" by simp
  let ?fb = "if firstBoardNum = 0 then lowBoard pl else firstBoardNum"
  have el: "ebind (Inr v) f = f v" for v :: "'x" and f :: "'x \<Rightarrow> error + 'y"
    by (simp add: ebind_def)
  from swiss_hd [OF can' swiss] rest
  have rest2: "ebind (HintPairings pl True) (\<lambda>pair0.
       ebind (check_ends pl pair0 nplayers) (\<lambda>_.
       ebind (if useFirstPairings then FirstPairings pl pair0 nplayers else Inr pair0) (\<lambda>pair1.
       ebind (check_ends pl pair1 nplayers) (\<lambda>_.
       ebind (if skipOptimize
              then ebind (cf pl pair1 (to_size_t (totalRounds - rnd (hd pl))) 0
                            ((nplayers + 1) div 2 * 2) True True)
                     (\<lambda>(c, cp, codes). Inr (set_warn_codes pl codes, pair1, c))
              else ebind (MinimizePairingCost fuel cf pl pair1
                            (to_size_t (totalRounds - rnd (hd pl))) depth 0 nplayers)
                     (\<lambda>(pl', pair', c, trace). Inr (pl', pair', c))) (\<lambda>(pl2, pair2, cost).
       ebind (set_boards_and_colors pl2 pair2 ?fb) (\<lambda>(pl3, pair3).
       Inr (pl3, pair3, cost))))))) = Inr (pl', pair', c)"
    by (simp add: Let_def el split del: if_split)
  then obtain pair0 pair1 where
    hint: "HintPairings pl True = Inr pair0"
    and ce: "check_ends pl pair0 nplayers = Inr ()"
    and fp: "(if useFirstPairings then FirstPairings pl pair0 nplayers else Inr pair0) = Inr pair1"
    and rest3: "ebind (if skipOptimize
              then ebind (cf pl pair1 (to_size_t (totalRounds - rnd (hd pl))) 0
                            ((nplayers + 1) div 2 * 2) True True)
                     (\<lambda>(c, cp, codes). Inr (set_warn_codes pl codes, pair1, c))
              else ebind (MinimizePairingCost fuel cf pl pair1
                            (to_size_t (totalRounds - rnd (hd pl))) depth 0 nplayers)
                     (\<lambda>(pl', pair', c, trace). Inr (pl', pair', c))) (\<lambda>(pl2, pair2, cost).
       ebind (set_boards_and_colors pl2 pair2 ?fb) (\<lambda>(pl3, pair3).
       Inr (pl3, pair3, cost))) = Inr (pl', pair', c)"
    unfolding ebind_Inr [of "HintPairings pl True"] ebind_Inr [of "check_ends pl _ nplayers"]
      ebind_Inr [of "if useFirstPairings then FirstPairings pl _ nplayers else Inr _"]
    by auto
  have "\<exists>pl2 pair2. mset pair2 = mset pair1
          \<and> (\<exists>codes. pl2 = set_warn_codes pl codes)
          \<and> set_boards_and_colors pl2 pair2 ?fb = Inr (pl', pair')"
  proof (cases skipOptimize)
    case True
    with rest3 show ?thesis
      by (simp add: ebind_Inr split del: if_split) blast
  next
    case False
    with rest3 show ?thesis
      by (simp add: ebind_Inr split del: if_split) (blast dest: MinimizePairingCost_result)
  qed
  then obtain pl2 pair2 where
    ms1: "mset pair2 = mset pair1" and wc: "\<exists>codes. pl2 = set_warn_codes pl codes"
    and sbc: "set_boards_and_colors pl2 pair2 ?fb = Inr (pl', pair')"
    by blast
  let ?n = "length pl - 1"
  from wc set_warn_codes_nth have len2: "length pl2 = length pl"
    and id2: "\<And>i. i < length pl \<Longrightarrow> play_id (pl2 ! i) = play_id (pl ! i)"
    and bn2: "\<And>i. i < length pl \<Longrightarrow> board_num (pl2 ! i) = board_num (pl ! i)"
    by (metis, metis Player.select_convs(5) Player.surjective Player.update_convs(27),
        metis Player.select_convs(3) Player.surjective Player.update_convs(27))
  from Canonical_facts [OF can] have ne: "pl \<noteq> []" and lb: "play_id (last pl) = BYE_ID"
    and nb: "\<And>i. i < ?n \<Longrightarrow> play_id (pl ! i) \<noteq> BYE_ID"
    and le: "length pl \<le> length plh + 1"
    by simp_all
  from hp house_player_fields [of pl0] have "length plh = length pl0" by simp
  with le size have sz: "length pl \<le> 2 ^ 64" by simp
  have "mset pair1 = mset pair0"
  proof (cases useFirstPairings)
    case True
    with fp have "FirstPairings pl pair0 nplayers = Inr pair1" by simp
    from FirstPairings_mset [OF hint ce this Canonical_count [OF hp can] sz] nb
    show ?thesis by simp
  next
    case False
    with fp show ?thesis by simp
  qed
  with ms1 have ms: "mset pair2 = mset pair0" by simp
  from HintPairings_players [OF hint sz]
  have hp0: "mset (filter (\<lambda>i. i \<noteq> ?n) pair0)
             = mset (filter (\<lambda>x. board_num (pl ! x) \<noteq> - 1) [0 ..< ?n])" .
  from ms have "mset (filter (\<lambda>i. i \<noteq> ?n) pair2) = mset (filter (\<lambda>i. i \<noteq> ?n) pair0)"
    by simp
  with hp0 have hp2: "mset (filter (\<lambda>i. i \<noteq> ?n) pair2)
             = mset (filter (\<lambda>x. board_num (pl ! x) \<noteq> - 1) [0 ..< ?n])" by simp
  then have d2: "distinct (filter (\<lambda>i. i \<noteq> ?n) pair2)"
    by (metis distinct_filter distinct_upt mset_eq_imp_distinct_iff)
  from hp2 have "set (filter (\<lambda>i. i \<noteq> ?n) pair2) \<subseteq> {0 ..< ?n}"
    by (metis (no_types, lifting) atLeastLessThan_upt filter_is_subset mset_eq_setD)
  then have rng: "\<And>i. i \<in> set pair2 \<Longrightarrow> i \<le> ?n" by force
  from ne lb have byen: "play_id (pl ! ?n) = BYE_ID" by (simp add: last_conv_nth)
  have "filter (\<lambda>i. play_id (pl2 ! i) \<noteq> BYE_ID) pair2 = filter (\<lambda>i. i \<noteq> ?n) pair2"
  proof (rule filter_cong [OF refl])
    fix i assume "i \<in> set pair2"
    from rng [OF this] ne have i: "i < length pl" by (cases pl) auto
    show "(play_id (pl2 ! i) \<noteq> BYE_ID) = (i \<noteq> ?n)"
    proof (cases "i = ?n")
      case True
      with byen id2 [OF i] show ?thesis by simp
    next
      case False
      with i have "i < ?n" by simp
      from nb [OF this] id2 [OF i] False show ?thesis by simp
    qed
  qed
  with d2 have D: "distinct (filter (\<lambda>i. play_id (pl2 ! i) \<noteq> BYE_ID) pair2)" by simp
  from set_boards_and_colors_boards [OF sbc D] have
    ms': "mset pair' = mset pair2" and ev: "length pair' mod 2 = 0"
    and len': "length pl' = length pl2"
    and id': "\<And>i. i < length pl2 \<Longrightarrow> play_id (pl' ! i) = play_id (pl2 ! i)"
    and oth': "\<And>i. i \<notin> set pair' \<Longrightarrow> i \<noteq> length pl2 - 1 \<Longrightarrow> pl' ! i = pl2 ! i"
    and ok: "\<And>k. k < length pair' div 2 \<Longrightarrow>
               board_numbered pl' pair' (if firstBoardNum = 0 then lowBoard pl else firstBoardNum) k
               \<and> board_coloured pl' pair' k"
    by simp_all
  from ms' have "mset (filter (\<lambda>i. i \<noteq> ?n) pair') = mset (filter (\<lambda>i. i \<noteq> ?n) pair2)"
    by simp
  with hp2 have c1: "mset (filter (\<lambda>i. i \<noteq> ?n) pair')
             = mset (filter (\<lambda>x. board_num (pl ! x) \<noteq> - 1) [0 ..< ?n])" by simp
  have c2: "board_num (pl' ! i) = board_num (pl ! i)" if "i < ?n" "i \<notin> set pair'" for i
    using that oth' [of i] bn2 [of i] len2 by simp
  from can' len' len2 id' id2 c1 ev ok c2 show ?thesis
    by (intro exI [of _ pl] conjI allI impI) simp_all
qed

text \<open>Claim C1, as the code has it.  The canonical player vector ends with the bye, whose
  rank is the highest.  A section of four players who all have a board hint is paired
  on the boards \<open>[0, 2, 1, 3]\<close>: the rank 4 of the bye is not in the pairing vector, which
  is therefore not a permutation of the ranks \<open>0\<close> to \<open>4\<close>.  In a section of two players,
  player 2 with the board hint \<open>-1\<close>, \<^verbatim>\<open>HintPairings\<close> leaves player 2 out: the pairing
  vector is \<open>[0, 2]\<close>, player 1 against the bye, and player 2, of rank 1, is on no board
  and keeps the board number \<open>-1\<close>.\<close>

theorem FindPairings_pairing_vector_not_permutation:
  "result_pairing (FindPairings 1000 example_cost example_swiss_section 4 1 1 False False)
     = [0, 2, 1, 3]
   \<and> boards_and_colors
       (result_players (FindPairings 1000 example_cost example_swiss_section 4 1 1 False False))
     = [(1, 1, CHR ''W''), (2, 2, CHR ''B''), (3, 1, CHR ''B''), (4, 2, CHR ''W''),
        (0, - 1, CHR 0x00)]
   \<and> result_pairing (FindPairings 1000 example_cost example_swiss_unhinted 4 1 1 False False)
     = [0, 2]
   \<and> boards_and_colors
       (result_players (FindPairings 1000 example_cost example_swiss_unhinted 4 1 1 False False))
     = [(1, 1, CHR ''W''), (2, - 1, CHR ''W''), (0, - 1, CHR ''B'')]"
  by code_simp

lemma count_list_filter:
  "count_list (filter P xs) x = (if P x then count_list xs x else 0)"
  by (induction xs) auto

lemma count_list_upt: "count_list [0 ..< n] i = (if i < n then 1 else 0)"
  by (induction n) auto

text \<open>Inside the range of the 32-bit integers the board number is \<^verbatim>\<open>firstBoardNum + k\<close>.\<close>

lemma board_number_in_range:
  assumes "- (2 ^ 31) \<le> fb + int k" and "fb + int k < 2 ^ 31"
  shows "board_number fb k = fb + int k"
proof -
  let ?x = "fb + int k"
  have "int (to_size_t ?x) = ?x mod 2 ^ 64" by (simp add: to_size_t_def)
  then have "board_number fb k = (?x mod 2 ^ 64 + 2 ^ 31) mod 2 ^ 32 - 2 ^ 31"
    by (simp only: board_number_def to_int32_def)
  also have "(?x mod 2 ^ 64 + 2 ^ 31) mod 2 ^ 32 = (?x + 2 ^ 31) mod (2 ^ 32 :: int)"
  proof -
    have "(2 ^ 32 :: int) dvd 2 ^ 64" by (rule le_imp_power_dvd) simp
    then have "?x mod 2 ^ 64 mod 2 ^ 32 = ?x mod (2 ^ 32 :: int)" by (rule mod_mod_cancel)
    then show ?thesis by (metis mod_add_left_eq)
  qed
  also from assms have "(?x + 2 ^ 31) mod (2 ^ 32 :: int) = ?x + 2 ^ 31" by simp
  finally show ?thesis by simp
qed

text \<open>Claim C1, corrected.  When \<^verbatim>\<open>FindPairings\<close> returns for a Swiss section (no player of
  type \<open>R\<close> or \<open>D\<close>), whether it starts from the hint or from \<^verbatim>\<open>FirstPairings\<close>, the final
  pairing vector has an even length and holds the rank of every player but the bye exactly
  once, if the board hint of the player is not \<open>-1\<close>, and not at all, if it is; nothing is
  said of the rank of the bye.  The two ranks of a board are different players, the first
  is not the bye, and the players of the board \<open>k\<close>, the bye apart, have the board number
  \<^verbatim>\<open>firstBoardNum + k\<close> of the 32-bit arithmetic (from the lowest board number of the hint
  when \<^verbatim>\<open>firstBoardNum\<close> is 0).  The ranks are 32-bit integers: the section has less than
  \<open>2\<^sup>3\<^sup>1\<close> players.\<close>

theorem FindPairings_pairing_vector:
  assumes "FindPairings fuel cf pl0 totalRounds firstBoardNum depth useFirstPairings skipOptimize
           = Inr (pl', pair', c)"
    and "\<forall>p \<in> set pl0. trn_type p \<noteq> CHR ''R'' \<and> trn_type p \<noteq> CHR ''D''"
    and "length pl0 < 2 ^ 31"
  shows "\<exists>pl. CanonicalPlayerVector (fst (house_player pl0)) = Inr pl
           \<and> length pl' = length pl
           \<and> (\<forall>i < length pl - 1.
                 count_list pair' i = (if board_num (pl ! i) = - 1 then 0 else 1))
           \<and> length pair' mod 2 = 0
           \<and> (\<forall>k < length pair' div 2.
                 board_numbered pl' pair' (if firstBoardNum = 0 then lowBoard pl else firstBoardNum) k)"
proof -
  from FindPairings_boards [OF assms] obtain pl where
    can: "CanonicalPlayerVector (fst (house_player pl0)) = Inr pl"
    and len: "length pl' = length pl"
    and ms: "mset (filter (\<lambda>i. i \<noteq> length pl - 1) pair')
             = mset (filter (\<lambda>x. board_num (pl ! x) \<noteq> - 1) [0 ..< length pl - 1])"
    and ev: "length pair' mod 2 = 0"
    and ok: "\<And>k. k < length pair' div 2 \<Longrightarrow>
               board_numbered pl' pair' (if firstBoardNum = 0 then lowBoard pl else firstBoardNum) k"
    by (elim exE conjE) simp
  have cnt: "count_list pair' i = (if board_num (pl ! i) = - 1 then 0 else 1)"
    if i: "i < length pl - 1" for i
  proof -
    let ?n = "length pl - 1"
    from i have "count_list pair' i = count_list (filter (\<lambda>i. i \<noteq> ?n) pair') i"
      by (simp add: count_list_filter)
    also have "\<dots> = count (mset (filter (\<lambda>i. i \<noteq> ?n) pair')) i"
      by (simp only: count_mset)
    also have "\<dots> = count (mset (filter (\<lambda>x. board_num (pl ! x) \<noteq> - 1) [0 ..< ?n])) i"
      by (simp only: ms)
    also have "\<dots> = count_list (filter (\<lambda>x. board_num (pl ! x) \<noteq> - 1) [0 ..< ?n]) i"
      by (simp only: count_mset)
    also have "\<dots> = (if board_num (pl ! i) = - 1 then 0 else 1)"
      using i by (simp add: count_list_filter count_list_upt)
    finally show ?thesis .
  qed
  show ?thesis
    by (intro exI [of _ pl] conjI allI impI) (simp_all only: can len ev ok cnt)
qed

text \<open>Claim C4, as the code has it.  On a round-robin section the boards and colours come
  from the Crenshaw-Berger tables.  With four players the vector has five entries, the bye
  included, and the table for five and six players is used: player 1 and player 2 are on
  board 3, player 4 is on board 2 with the bye, and player 3 is alone on board 1, where
  the table pairs it with the sixth player, who does not exist.  Board 1 has a \<open>W\<close> and no
  \<open>B\<close>.\<close>

theorem FindPairings_round_robin_board_of_one:
  "boards_and_colors
     (result_players (FindPairings 0 no_cost example_robin_four 4 1 1 False False))
   = [(1, 3, CHR ''W''), (2, 3, CHR ''B''), (3, 1, CHR ''W''), (4, 2, CHR ''W''),
      (0, 2, CHR ''B'')]"
  by code_simp

text \<open>Claim C4, corrected.  When \<^verbatim>\<open>FindPairings\<close> returns for a Swiss section (no player of
  type \<open>R\<close> or \<open>D\<close>, less than \<open>2\<^sup>3\<^sup>1\<close> players), whether it starts from the hint or from
  \<^verbatim>\<open>FirstPairings\<close>, the two players of every board of the final pairing vector have the
  colours \<open>W\<close> and \<open>B\<close>, one each; the first of the two is never the bye, and on a board
  with the bye the player has \<open>W\<close> and the bye \<open>B\<close>.\<close>

theorem FindPairings_board_colors:
  assumes "FindPairings fuel cf pl0 totalRounds firstBoardNum depth useFirstPairings skipOptimize
           = Inr (pl', pair', c)"
    and "\<forall>p \<in> set pl0. trn_type p \<noteq> CHR ''R'' \<and> trn_type p \<noteq> CHR ''D''"
    and "length pl0 < 2 ^ 31"
  shows "\<forall>k < length pair' div 2.
           board_coloured pl' pair' k \<and> play_id (pl' ! (pair' ! (2 * k))) \<noteq> BYE_ID"
proof -
  from FindPairings_boards [OF assms] obtain pl where
    ok: "\<forall>k < length pair' div 2.
            board_numbered pl' pair' (if firstBoardNum = 0 then lowBoard pl else firstBoardNum) k
            \<and> board_coloured pl' pair' k"
    by blast
  show ?thesis
  proof (intro allI impI conjI)
    fix k assume "k < length pair' div 2"
    with ok have n: "board_numbered pl' pair' (if firstBoardNum = 0 then lowBoard pl else firstBoardNum) k"
      and c: "board_coloured pl' pair' k" by simp_all
    from c show "board_coloured pl' pair' k" .
    from n show "play_id (pl' ! (pair' ! (2 * k))) \<noteq> BYE_ID"
      by (simp add: board_numbered_def Let_def)
  qed
qed

lemma example_swiss_five_run:
  "\<exists>pl' c. FindPairings 1000 example_cost example_swiss_five 4 1 1 True False
            = Inr (pl', [0, 2, 1, 3, 4, 5], c)
          \<and> boards_and_colors pl'
            = [(1, 1, CHR ''W''), (2, 2, CHR ''B''), (3, 1, CHR ''B''), (4, 2, CHR ''W''),
               (5, 3, CHR ''W''), (0, - 1, CHR ''B'')]"
proof -
  have ev: "map_sum id (\<lambda>(pl, pair, c). (pair, boards_and_colors pl))
              (FindPairings 1000 example_cost example_swiss_five 4 1 1 True False)
            = Inr ([0, 2, 1, 3, 4, 5],
                   [(1, 1, CHR ''W''), (2, 2, CHR ''B''), (3, 1, CHR ''B''), (4, 2, CHR ''W''),
                    (5, 3, CHR ''W''), (0, - 1, CHR ''B'')])"
    by code_simp
  then show ?thesis
    by (cases "FindPairings 1000 example_cost example_swiss_five 4 1 1 True False") auto
qed

lemma example_swiss_five_swiss:
  "\<forall>p \<in> set example_swiss_five. trn_type p \<noteq> CHR ''R'' \<and> trn_type p \<noteq> CHR ''D''"
  by (simp add: example_swiss_five_def example_swiss_def example_player_def)

lemma example_swiss_five_size: "length example_swiss_five < 2 ^ 31"
  by (simp add: example_swiss_five_def)

lemma example_swiss_three_run:
  "\<exists>pl' c. FindPairings 1000 example_cost example_swiss_three 4 1 1 True False
            = Inr (pl', [0, 2, 1, 3], c)
          \<and> boards_and_colors pl'
            = [(1, 1, CHR ''W''), (2, 2, CHR ''W''), (3, 1, CHR ''B''), (0, - 1, CHR ''B'')]"
proof -
  have ev: "map_sum id (\<lambda>(pl, pair, c). (pair, boards_and_colors pl))
              (FindPairings 1000 example_cost example_swiss_three 4 1 1 True False)
            = Inr ([0, 2, 1, 3],
                   [(1, 1, CHR ''W''), (2, 2, CHR ''W''), (3, 1, CHR ''B''), (0, - 1, CHR ''B'')])"
    by code_simp
  then show ?thesis
    by (cases "FindPairings 1000 example_cost example_swiss_three 4 1 1 True False") auto
qed

lemma example_swiss_three_swiss:
  "\<forall>p \<in> set example_swiss_three. trn_type p \<noteq> CHR ''R'' \<and> trn_type p \<noteq> CHR ''D''"
  by (simp add: example_swiss_three_def example_swiss_def example_player_def)

lemma example_swiss_three_size: "length example_swiss_three < 2 ^ 31"
  by (simp add: example_swiss_three_def)

theorem FindPairings_pairing_vector_witness:
  "\<exists>pl' pair' c. FindPairings 1000 example_cost example_swiss_five 4 1 1 True False
                 = Inr (pl', pair', c)
     \<and> pair' = [0, 2, 1, 3, 4, 5]
     \<and> boards_and_colors pl'
       = [(1, 1, CHR ''W''), (2, 2, CHR ''B''), (3, 1, CHR ''B''), (4, 2, CHR ''W''),
          (5, 3, CHR ''W''), (0, - 1, CHR ''B'')]
     \<and> length pair' mod 2 = 0
     \<and> board_num (pl' ! 0) = 1 \<and> board_num (pl' ! 1) = 2 \<and> board_num (pl' ! 4) = 3"
proof -
  from example_swiss_five_run obtain pl' c where
    r: "FindPairings 1000 example_cost example_swiss_five 4 1 1 True False
        = Inr (pl', [0, 2, 1, 3, 4, 5], c)"
    and b: "boards_and_colors pl'
            = [(1, 1, CHR ''W''), (2, 2, CHR ''B''), (3, 1, CHR ''B''), (4, 2, CHR ''W''),
               (5, 3, CHR ''W''), (0, - 1, CHR ''B'')]"
    by blast
  from FindPairings_pairing_vector [OF r example_swiss_five_swiss example_swiss_five_size]
  obtain pl where q: "CanonicalPlayerVector (fst (house_player example_swiss_five)) = Inr pl
           \<and> length pl' = length pl
           \<and> (\<forall>i < length pl - 1.
                 count_list [0, 2, 1, 3, 4, 5] i = (if board_num (pl ! i) = - 1 then 0 else 1))
           \<and> length [0 :: nat, 2, 1, 3, 4, 5] mod 2 = 0
           \<and> (\<forall>k < length [0 :: nat, 2, 1, 3, 4, 5] div 2.
                 board_numbered pl' [0, 2, 1, 3, 4, 5] (if (1 :: int) = 0 then lowBoard pl else 1) k)" ..
  from q have e: "length [0 :: nat, 2, 1, 3, 4, 5] mod 2 = 0" by simp
  from q have ok: "\<And>k. k < 3 \<Longrightarrow> board_numbered pl' [0, 2, 1, 3, 4, 5] 1 k" by simp
  have n: "board_number 1 0 = 1" "board_number 1 1 = 2" "board_number 1 2 = 3"
    by (simp_all add: board_number_in_range)
  from ok [of 0] n have n0: "board_num (pl' ! 0) = 1"
    by (simp add: board_numbered_def Let_def)
  from ok [of 1] n have n1: "board_num (pl' ! 1) = 2"
    by (simp add: board_numbered_def Let_def)
  from ok [of 2] n have n4: "board_num (pl' ! 4) = 3"
    by (simp add: board_numbered_def Let_def)
  show ?thesis
    by (rule exI [of _ pl'], rule exI [of _ "[0, 2, 1, 3, 4, 5]"], rule exI [of _ c])
       (intro conjI r b e n0 n1 n4 refl)
qed

theorem FindPairings_board_colors_witness:
  "\<exists>pl' pair' c. FindPairings 1000 example_cost example_swiss_three 4 1 1 True False
                 = Inr (pl', pair', c)
     \<and> pair' = [0, 2, 1, 3]
     \<and> boards_and_colors pl'
       = [(1, 1, CHR ''W''), (2, 2, CHR ''W''), (3, 1, CHR ''B''), (0, - 1, CHR ''B'')]
     \<and> ((board_color (pl' ! 0) = CHR ''W'' \<and> board_color (pl' ! 2) = CHR ''B'')
          \<or> (board_color (pl' ! 0) = CHR ''B'' \<and> board_color (pl' ! 2) = CHR ''W''))
     \<and> play_id (pl' ! 3) = BYE_ID
     \<and> board_color (pl' ! 1) = CHR ''W'' \<and> board_color (pl' ! 3) = CHR ''B''"
proof -
  from example_swiss_three_run obtain pl' c where
    r: "FindPairings 1000 example_cost example_swiss_three 4 1 1 True False
        = Inr (pl', [0, 2, 1, 3], c)"
    and b: "boards_and_colors pl'
            = [(1, 1, CHR ''W''), (2, 2, CHR ''W''), (3, 1, CHR ''B''), (0, - 1, CHR ''B'')]"
    by blast
  from b have "length (boards_and_colors pl') = 4" by simp
  then have l: "length pl' = 4" by (simp add: boards_and_colors_def)
  from b have "boards_and_colors pl' ! 3 = (0, - 1, CHR ''B'')" by simp
  with l have bye: "play_id (pl' ! 3) = BYE_ID"
    by (simp add: boards_and_colors_def BYE_ID_def)
  from FindPairings_board_colors [OF r example_swiss_three_swiss example_swiss_three_size]
  have c0: "board_coloured pl' [0, 2, 1, 3] 0" and c1: "board_coloured pl' [0, 2, 1, 3] 1"
    by simp_all
  from c0 have e0: "(board_color (pl' ! 0) = CHR ''W'' \<and> board_color (pl' ! 2) = CHR ''B'')
          \<or> (board_color (pl' ! 0) = CHR ''B'' \<and> board_color (pl' ! 2) = CHR ''W'')"
    by (simp add: board_coloured_def Let_def)
  from c1 bye have e1: "board_color (pl' ! 1) = CHR ''W''" and e3: "board_color (pl' ! 3) = CHR ''B''"
    by (simp_all add: board_coloured_def Let_def)
  show ?thesis
    by (rule exI [of _ pl'], rule exI [of _ "[0, 2, 1, 3]"], rule exI [of _ c])
       (intro conjI r b e0 bye e1 e3 refl)
qed

section \<open>Properties of the weight of a repeated violation\<close>

lemma bit_length_le: "n < 2 ^ k \<Longrightarrow> bit_length n \<le> k"
proof (induction k arbitrary: n)
  case 0
  then have "n \<le> 0" by simp
  then show ?case by (subst bit_length.simps) simp
next
  case (Suc k)
  show ?case
  proof (cases "n \<le> 0")
    case True
    then show ?thesis by (subst bit_length.simps) simp
  next
    case False
    from Suc.prems have "n div 2 < 2 ^ k" by simp
    from Suc.IH [OF this] False show ?thesis by (subst bit_length.simps) simp
  qed
qed

lemma round_double_exact:
  assumes "0 \<le> n" and "n < 2 ^ 53"
  shows "round_double n = n"
proof -
  from assms have "\<bar>n\<bar> < 2 ^ 53" by simp
  then have "bit_length \<bar>n\<bar> \<le> 53" by (rule bit_length_le)
  then show ?thesis by (simp add: round_double_def Let_def)
qed

lemma geometric_sum_Suc: "geometric_sum (Suc x) N = geometric_sum x N + int N ^ x"
  by (simp add: geometric_sum_def)

lemma geometric_sum_nonneg: "0 \<le> geometric_sum x N"
  by (induction x) (simp_all add: geometric_sum_Suc, simp add: geometric_sum_def)

lemma geometric_sum_mono: "geometric_sum x N \<le> geometric_sum (x + m) N"
proof (induction m)
  case 0
  show ?case by simp
next
  case (Suc m)
  have "0 \<le> int N ^ (x + m)" by simp
  with Suc show ?case by (simp only: add_Suc_right geometric_sum_Suc)
qed

lemma multiple_loop_exact:
  "res = geometric_sum x N \<Longrightarrow> geometric_sum (x + m) N < 2 ^ 53 \<Longrightarrow>
   multiple_loop m x N res = Inr (geometric_sum (x + m) N)"
proof (induction m arbitrary: x res)
  case 0
  then show ?case by simp
next
  case (Suc m)
  have le: "geometric_sum (Suc x) N \<le> geometric_sum (x + Suc m) N"
    using geometric_sum_mono [of "Suc x" N m] by simp
  with Suc.prems(2) have s1: "geometric_sum (Suc x) N < 2 ^ 53" by simp
  have r0: "0 \<le> res" using Suc.prems(1) geometric_sum_nonneg by simp
  have pw0: "0 \<le> int N ^ x" by simp
  from s1 Suc.prems(1) have s2: "res + int N ^ x < 2 ^ 53"
    by (simp only: geometric_sum_Suc)
  from s2 pw0 have r53: "res < 2 ^ 53" by linarith
  from s2 r0 have p53: "int N ^ x < 2 ^ 53" by linarith
  have rn: "round_double (int N) ^ x = int N ^ x"
  proof (cases x)
    case 0
    then show ?thesis by simp
  next
    case (Suc y)
    have "int N \<le> int N ^ x"
      by (cases "N = 0") (simp_all add: Suc self_le_power)
    with p53 have "int N < 2 ^ 53" by linarith
    moreover have "0 \<le> int N" by simp
    ultimately have "round_double (int N) = int N" by (intro round_double_exact)
    then show ?thesis by simp
  qed
  have sum: "round_double (round_double res + round_double (round_double (int N) ^ x))
             = geometric_sum (Suc x) N"
  proof -
    have "round_double res = res" using r0 r53 by (rule round_double_exact)
    moreover have "round_double (int N ^ x) = int N ^ x" using pw0 p53 by (rule round_double_exact)
    moreover have "round_double (res + int N ^ x) = res + int N ^ x"
      using r0 pw0 s2 by (intro round_double_exact) linarith+
    ultimately show ?thesis using Suc.prems(1) by (simp only: rn geometric_sum_Suc)
  qed
  have conv: "to_int64 (geometric_sum (Suc x) N) = Inr (geometric_sum (Suc x) N)"
    using s1 geometric_sum_nonneg [of "Suc x" N] by (simp add: to_int64_def)
  have nlt: "\<not> geometric_sum (Suc x) N < res"
    using Suc.prems(1) pw0 by (simp add: geometric_sum_Suc)
  from Suc.IH [of "geometric_sum (Suc x) N" "Suc x"] Suc.prems(2)
  have "multiple_loop m (Suc x) N (geometric_sum (Suc x) N) = Inr (geometric_sum (x + Suc m) N)"
    by simp
  with sum conv nlt show ?case by (simp add: ebind_def)
qed

text \<open>As long as the sum stays below \<open>2\<^sup>5\<^sup>3\<close>, every value of the loop is a \<^verbatim>\<open>double\<close>
  and \<^verbatim>\<open>Multiple\<close> returns the sum.\<close>

lemma Multiple_geometric_sum:
  assumes "0 \<le> c" and "geometric_sum (nat c) N < 2 ^ 53"
  shows "Multiple c N = Inr (geometric_sum (nat c) N)"
  using multiple_loop_exact [of 0 0 N "nat c"] assms(2)
  by (simp add: Multiple_def geometric_sum_def)

text \<open>Claim C7.  The weight is meant to be the sum of the powers \<open>N\<^sup>k\<close> for \<open>k\<close> below
  \<open>c\<close>, bounded by \<^verbatim>\<open>MaxCostValue\<close>.  \<^verbatim>\<open>Multiple\<close> adds the powers in \<^verbatim>\<open>double\<close>, and a
  \<^verbatim>\<open>double\<close> above \<open>2\<^sup>5\<^sup>3\<close> is an even number: for \<open>c = 17\<close> and \<open>N = 10\<close> the sum is
  the odd number 11111111111111111, far below \<^verbatim>\<open>MaxCostValue\<close>, and \<^verbatim>\<open>Multiple\<close> returns
  11111111111111112.\<close>

theorem Multiple_not_geometric_sum:
  "Multiple 17 10 = Inr 11111111111111112 \<and> geometric_sum 17 10 = 11111111111111111
   \<and> geometric_sum 17 10 < MaxCostValue"
  by code_simp

end
